(* ===== verification/Prelude.thy ===== *)
theory Prelude
  imports Main "HOL-Library.Word"
begin

unbundle bit_operations_syntax

text \<open>
  Shared vocabulary of the development: the machine integer types of the C sources, the outcome
  type of code that may halt the machine, the counting loop of the C sources as a combinator with
  its invariant rule, and the word lemmas (bounds, alignment, shifts) the components share.
\<close>

section \<open>Machine integers\<close>

type_synonym u8 = "8 word"
type_synonym u16 = "16 word"
type_synonym u32 = "32 word"
type_synonym u64 = "64 word"

text \<open>\<open>PAGE_SIZE\<close> of \<open>pmm.h\<close>.\<close>

abbreviation PAGE_SIZE :: u64 where
  "PAGE_SIZE \<equiv> 0x1000"

section \<open>Outcomes\<close>

text \<open>
  \<open>kernel_panic\<close> prints its message and halts the processor for ever; a load or store through
  an unmapped address raises a page fault, whose handler panics as well. Code that may do either
  returns a sum whose left side is the reason the machine stopped.
\<close>

datatype halt = Kernel_Panic string | Page_Fault u64

type_synonym 'a result = "halt + 'a"

definition bind_result :: "'a result \<Rightarrow> ('a \<Rightarrow> 'b result) \<Rightarrow> 'b result" where
  "bind_result r f = (case r of Inl h \<Rightarrow> Inl h | Inr x \<Rightarrow> f x)"

lemma bind_result_simps [simp]:
  "bind_result (Inl h) f = Inl h"
  "bind_result (Inr x) f = f x"
  by (simp_all add: bind_result_def)

lemma bind_result_Inr_iff:
  "bind_result r f = Inr y \<longleftrightarrow> (\<exists>x. r = Inr x \<and> f x = Inr y)"
  by (cases r) simp_all

text \<open>Code with a loop that may not end returns an option on top, \<open>None\<close> when it does not return.\<close>

definition bind_loop :: "'a result option \<Rightarrow> ('a \<Rightarrow> 'b result option) \<Rightarrow> 'b result option" where
  "bind_loop r f = (case r of None \<Rightarrow> None | Some (Inl h) \<Rightarrow> Some (Inl h) | Some (Inr x) \<Rightarrow> f x)"

lemma bind_loop_simps [simp]:
  "bind_loop None f = None" "bind_loop (Some (Inl h)) f = Some (Inl h)" "bind_loop (Some (Inr x)) f = f x"
  by (simp_all add: bind_loop_def)

lemma bind_loop_Inr_iff:
  "bind_loop r f = Some (Inr y) \<longleftrightarrow> (\<exists>x. r = Some (Inr x) \<and> f x = Some (Inr y))"
  by (auto simp: bind_loop_def split: option.splits sum.splits)

section \<open>The boot protocol\<close>

text \<open>\<open>common/fromboot.h\<close>: what the boot loader hands to the kernel.\<close>

abbreviation BOOTINFOMAGIC :: u64 where
  "BOOTINFOMAGIC \<equiv> 0xCAFEBABEDEADBEEF"

record BootInfo =
  magic :: u64
  framebuffer_base :: u64
  framebuffer_size :: u64
  width :: u32
  height :: u32
  pixels_per_scanline :: u32
  framebuffer_pixel_format :: u32
  memory_map :: u64
  memory_map_size :: u64
  memory_descriptor_size :: u64
  kernel_physical_address :: u64
  kernel_physical_address_start :: u64
  kernel_physical_address_end :: u64
  kernel_virtual_address :: u64
  kernel_size :: u64
  initramfs_address :: u64
  initramfs_size :: u64

section \<open>Counting loops\<close>

text \<open>
  \<open>for (uint64_t i = 0; i < n; i++) s = f(i, s);\<close> as a fold, and the same loop with a body
  that may halt the machine.
\<close>

definition for_u64 :: "u64 \<Rightarrow> (u64 \<Rightarrow> 's \<Rightarrow> 's) \<Rightarrow> 's \<Rightarrow> 's" where
  "for_u64 n f s = fold (\<lambda>i. f (word_of_nat i)) [0..<unat n] s"

definition for_result :: "nat \<Rightarrow> (nat \<Rightarrow> 's \<Rightarrow> 's result) \<Rightarrow> 's \<Rightarrow> 's result" where
  "for_result n f s = fold (\<lambda>i r. bind_result r (f i)) [0..<n] (Inr s)"

lemma fold_upt_invariant:
  assumes "P 0 s" and "\<And>i s. i < n \<Longrightarrow> P i s \<Longrightarrow> P (Suc i) (f i s)"
  shows "P n (fold f [0..<n] s)"
proof -
  have "m \<le> n \<Longrightarrow> P m (fold f [0..<m] s)" for m
    by (induction m) (auto simp: assms)
  then show ?thesis by simp
qed

lemma for_u64_invariant:
  assumes "P 0 s"
    and "\<And>i s. i < unat n \<Longrightarrow> P i s \<Longrightarrow> P (Suc i) (f (word_of_nat i) s)"
  shows "P (unat n) (for_u64 n f s)"
  unfolding for_u64_def by (rule fold_upt_invariant [where P = P]) (use assms in auto)

lemma for_u64_0 [simp]: "for_u64 0 f s = s"
  by (simp add: for_u64_def)

lemma for_result_0 [simp]: "for_result 0 f s = Inr s"
  by (simp add: for_result_def)

lemma for_result_Suc [simp]:
  "for_result (Suc n) f s = bind_result (for_result n f s) (f n)"
  by (simp add: for_result_def)

lemma for_result_invariant:
  assumes "for_result n f s = Inr t" and "P 0 s"
    and "\<And>i s s'. i < n \<Longrightarrow> P i s \<Longrightarrow> f i s = Inr s' \<Longrightarrow> P (Suc i) s'"
  shows "P n t"
proof -
  have "m \<le> n \<Longrightarrow> for_result m f s = Inr t \<Longrightarrow> P m t" for m t
    by (induction m arbitrary: t) (auto simp: assms bind_result_Inr_iff)
  with assms(1) show ?thesis by simp
qed

section \<open>Words\<close>

lemma u64_less_wrap: "unat (x :: u64) < 18446744073709551616"
  using unsigned_less [of x] by simp

lemma u32_less_wrap: "unat (x :: u32) < 4294967296"
  using unsigned_less [of x] by simp

lemma unat_add_u64 [simp]:
  "unat (a :: u64) + unat b < 18446744073709551616 \<Longrightarrow> unat (a + b) = unat a + unat b"
  by (simp add: unat_word_ariths)

lemma unat_mult_u64:
  "unat (a :: u64) * unat b < 18446744073709551616 \<Longrightarrow> unat (a * b) = unat a * unat b"
  by (simp add: unat_word_ariths)

lemma unat_sub_u64:
  "unat (b :: u64) \<le> unat a \<Longrightarrow> unat (a - b) = unat a - unat b"
  by (metis unat_sub word_le_nat_alt)

lemma unat_of_nat_u64:
  "n < 18446744073709551616 \<Longrightarrow> unat (word_of_nat n :: u64) = n"
  by (simp add: unat_of_nat take_bit_nat_eq_self)

lemma unat_div_u64: "unat ((a :: u64) div b) = unat a div unat b"
  by (rule unat_div)

lemma unat_mod_u64: "unat ((a :: u64) mod b) = unat a mod unat b"
  by (rule unat_mod)

lemma u64_eq_iff_unat: "(a :: u64) = b \<longleftrightarrow> unat a = unat b"
  by (rule word_unat_eq_iff)

lemma word_of_nat_unat_u64 [simp]: "word_of_nat (unat (a :: u64)) = a"
  by simp

lemma unat_ucast_u32 [simp]: "unat (ucast (x :: u32) :: u64) = unat x"
proof -
  have "unat x < 2 ^ LENGTH(32)" by (rule unsigned_less)
  then show ?thesis by (simp add: unsigned_ucast_eq take_bit_nat_eq_self)
qed

lemma unat_ucast_u16 [simp]: "unat (ucast (x :: u16) :: u64) = unat x" "unat (ucast (x :: u16) :: u32) = unat x"
proof -
  have "unat x < 2 ^ LENGTH(16)" by (rule unsigned_less)
  then show "unat (ucast (x :: u16) :: u64) = unat x" "unat (ucast (x :: u16) :: u32) = unat x"
    by (simp_all add: unsigned_ucast_eq take_bit_nat_eq_self)
qed

lemma unat_ucast_u8 [simp]: "unat (ucast (x :: u8) :: u64) = unat x" "unat (ucast (x :: u8) :: u32) = unat x"
proof -
  have "unat x < 2 ^ LENGTH(8)" by (rule unsigned_less)
  then show "unat (ucast (x :: u8) :: u64) = unat x" "unat (ucast (x :: u8) :: u32) = unat x"
    by (simp_all add: unsigned_ucast_eq take_bit_nat_eq_self)
qed

section \<open>Searching lists\<close>

lemma find_append: "List.find P (xs @ ys) = (case List.find P xs of None \<Rightarrow> List.find P ys | Some x \<Rightarrow> Some x)"
  by (induction xs) auto

lemma find_map: "List.find P (map f xs) = map_option f (List.find (\<lambda>x. P (f x)) xs)"
  by (induction xs) auto

lemma find_cong_set: "(\<And>x. x \<in> set xs \<Longrightarrow> P x = Q x) \<Longrightarrow> List.find P xs = List.find Q xs"
  by (induction xs) auto

lemma upt_find_Some_least:
  "List.find P [0..<n] = Some i \<longleftrightarrow> i < n \<and> P i \<and> (\<forall>j<i. \<not> P j)"
  by (auto simp: find_Some_iff)

lemma word_of_nat_image_upt: "word_of_nat ` set [0..<unat n] = {i :: u64. i < n}"
proof -
  have "i \<in> word_of_nat ` {0..<unat n}" if "i < n" for i :: u64
    using that by (intro image_eqI [of _ _ "unat i"]) (simp_all add: word_less_nat_alt)
  moreover have "word_of_nat k < n" if "k < unat n" for k
    using that u64_less_wrap [of n] by (simp add: word_less_nat_alt unat_of_nat_u64)
  ultimately show ?thesis by auto
qed

lemma ex_word_less: "(\<exists>j<unat n. P (word_of_nat j)) \<longleftrightarrow> (\<exists>i<n. P i)" for n :: u64
proof -
  have "(\<exists>j<unat n. P (word_of_nat j)) \<longleftrightarrow> (\<exists>i \<in> word_of_nat ` set [0..<unat n]. P i)"
    by auto
  then show ?thesis by (simp only: word_of_nat_image_upt) simp
qed

lemma fold_frame:
  assumes "\<And>x s. g (f x s) = g s"
  shows "g (fold f xs s) = g s"
  by (induction xs arbitrary: s) (simp_all add: assms)

lemma for_u64_frame:
  assumes "\<And>i s. g (f i s) = g s"
  shows "g (for_u64 n f s) = g s"
  unfolding for_u64_def by (rule fold_frame) (rule assms)

end
