(* ===== verification/Pmm.thy ===== *)
theory Pmm
  imports Prelude
begin

text \<open>
  The physical memory manager, \<open>kernel/arch/x86_64/mm/pmm.c\<close>: a bitmap with one bit per 4 KiB
  page frame (1 = used), built by \<open>init_pmm\<close> from the UEFI memory map. The globals of the file
  are the fields of the record \<open>pmm\<close>; the array behind the pointer \<open>bitmap\<close> is the function
  from its index to the byte stored there. The memory map is read through \<open>descs\<close>, which gives the
  descriptor stored at an address. Console output (\<open>print\<close>) leaves this state alone and is not
  part of these definitions.

  The lemmas relate the bitmap to the set of free page numbers: the free-page counter always equals
  the size of that set, \<open>palloc\<close> hands out the lowest free page, and \<open>init_pmm\<close> frees exactly the
  conventional memory less page 0 and the bitmap itself.
\<close>

section \<open>State\<close>

record pmm =
  sizeof_bitmap :: u64
  max_pages :: u64
  bitmap :: "u64 \<Rightarrow> u8"
  bitmap_addr :: u64
  bitmap_init :: bool
  free_pages :: u64
  total_pages :: u64
  total_ram_pages :: u64
  total_memory :: u64
  total_usable_memory :: u64
  max_physical_address :: u64

datatype EFI_MEMORY_TYPE =
    EfiReservedMemoryType | EfiLoaderCode | EfiLoaderData | EfiBootServicesCode
  | EfiBootServicesData | EfiRuntimeServicesCode | EfiRuntimeServicesData
  | EfiConventionalMemory | EfiUnusableMemory | EfiACPIReclaimMemory | EfiACPIMemoryNVS
  | EfiMemoryMappedIO | EfiMemoryMappedIOPortSpace | EfiPalCode | EfiPersistentMemory
  | EfiMaxMemoryType

primrec efi_type :: "EFI_MEMORY_TYPE \<Rightarrow> u32" where
  "efi_type EfiReservedMemoryType = 0"
| "efi_type EfiLoaderCode = 1"
| "efi_type EfiLoaderData = 2"
| "efi_type EfiBootServicesCode = 3"
| "efi_type EfiBootServicesData = 4"
| "efi_type EfiRuntimeServicesCode = 5"
| "efi_type EfiRuntimeServicesData = 6"
| "efi_type EfiConventionalMemory = 7"
| "efi_type EfiUnusableMemory = 8"
| "efi_type EfiACPIReclaimMemory = 9"
| "efi_type EfiACPIMemoryNVS = 10"
| "efi_type EfiMemoryMappedIO = 11"
| "efi_type EfiMemoryMappedIOPortSpace = 12"
| "efi_type EfiPalCode = 13"
| "efi_type EfiPersistentMemory = 14"
| "efi_type EfiMaxMemoryType = 15"

record EFI_MEMORY_DESCRIPTOR =
  desc_Type :: u32
  PhysicalStart :: u64
  VirtualStart :: u64
  NumberOfPages :: u64
  Attribute :: u64

section \<open>Bitmap operations\<close>

definition page_used :: "pmm \<Rightarrow> u64 \<Rightarrow> bool" where
  "page_used s page =
     (if max_pages s \<le> page then True
      else bitmap s (page div 8) AND push_bit (unat (page mod 8)) 1 \<noteq> 0)"

definition mark_used :: "u64 \<Rightarrow> pmm \<Rightarrow> pmm" where
  "mark_used page s =
     (if max_pages s \<le> page then s
      else if \<not> page_used s page then
        s\<lparr>bitmap := (bitmap s)(page div 8 :=
             bitmap s (page div 8) OR push_bit (unat (page mod 8)) 1),
          free_pages := free_pages s - 1\<rparr>
      else s)"

definition mark_free :: "u64 \<Rightarrow> pmm \<Rightarrow> pmm" where
  "mark_free page s =
     (if max_pages s \<le> page then s
      else if page_used s page then
        s\<lparr>bitmap := (bitmap s)(page div 8 :=
             bitmap s (page div 8) AND NOT (push_bit (unat (page mod 8)) 1)),
          free_pages := free_pages s + 1\<rparr>
      else s)"

definition reserve_region :: "u64 \<Rightarrow> u64 \<Rightarrow> pmm \<Rightarrow> pmm" where
  "reserve_region base len s =
     (let start = base div PAGE_SIZE;
          pages = (len + PAGE_SIZE - 1) div PAGE_SIZE
      in for_u64 pages (\<lambda>i. mark_used (start + i)) s)"

section \<open>Allocation\<close>

text \<open>The inner loop of \<open>palloc\<close>: the first clear bit of a byte.\<close>

definition palloc_bit :: "u8 \<Rightarrow> nat option" where
  "palloc_bit b = List.find (\<lambda>k. \<not> (b AND push_bit k 1 \<noteq> 0)) [0..<8]"

text \<open>The outer loop over the byte indices.\<close>

fun palloc_scan :: "u64 list \<Rightarrow> pmm \<Rightarrow> u64 \<times> pmm" where
  "palloc_scan [] s = (0, s)"
| "palloc_scan (byte # bytes) s =
     (if bitmap s byte = 0xFF then palloc_scan bytes s
      else case palloc_bit (bitmap s byte) of
          None \<Rightarrow> palloc_scan bytes s
        | Some k \<Rightarrow>
            (let page = byte * 8 + word_of_nat k
             in if max_pages s \<le> page then (0, s)
                else (page * PAGE_SIZE, mark_used page s)))"

definition palloc :: "pmm \<Rightarrow> u64 \<times> pmm" where
  "palloc s =
     (if \<not> bitmap_init s then (0, s)
      else palloc_scan (map word_of_nat [0..<unat (sizeof_bitmap s)]) s)"

definition pfree :: "u64 \<Rightarrow> pmm \<Rightarrow> pmm" where
  "pfree address s = mark_free (address div PAGE_SIZE) s"

definition get_free_pages :: "pmm \<Rightarrow> u64" where
  "get_free_pages s = free_pages s"

definition get_total_pages :: "pmm \<Rightarrow> u64" where
  "get_total_pages s = total_pages s"

section \<open>Initialisation\<close>

definition conventional :: "EFI_MEMORY_DESCRIPTOR \<Rightarrow> bool" where
  "conventional d \<longleftrightarrow> desc_Type d = efi_type EfiConventionalMemory"

text \<open>The types the \<open>switch\<close> of the first loop counts as RAM.\<close>

definition counts_as_ram :: "u32 \<Rightarrow> bool" where
  "counts_as_ram t \<longleftrightarrow> t \<in> set (map efi_type
     [EfiConventionalMemory, EfiLoaderCode, EfiLoaderData, EfiBootServicesCode,
      EfiBootServicesData, EfiRuntimeServicesCode, EfiRuntimeServicesData,
      EfiACPIReclaimMemory, EfiACPIMemoryNVS])"

text \<open>First loop: highest conventional address and page totals.\<close>

definition init_pmm_scan :: "EFI_MEMORY_DESCRIPTOR \<Rightarrow> pmm \<Rightarrow> pmm" where
  "init_pmm_scan d s =
     (if conventional d then
        let end = PhysicalStart d + NumberOfPages d * PAGE_SIZE;
            s1 = (if max_physical_address s < end then s\<lparr>max_physical_address := end\<rparr> else s);
            s2 = s1\<lparr>total_pages := total_pages s1 + NumberOfPages d\<rparr>
        in if counts_as_ram (desc_Type d)
           then s2\<lparr>total_ram_pages := total_ram_pages s2 + NumberOfPages d\<rparr>
           else s2
      else s)"

text \<open>Second loop: the first conventional chunk that is large enough holds the bitmap.\<close>

definition init_pmm_hunt :: "EFI_MEMORY_DESCRIPTOR \<Rightarrow> pmm \<Rightarrow> pmm" where
  "init_pmm_hunt d s =
     (if \<not> conventional d then s
      else let mem_chunk_size = NumberOfPages d * PAGE_SIZE
           in if sizeof_bitmap s \<le> mem_chunk_size \<and> bitmap_addr s = 0
              then s\<lparr>bitmap_addr := PhysicalStart d\<rparr>
              else s)"

text \<open>Third loop: every page of a conventional chunk is free.\<close>

definition init_pmm_release :: "EFI_MEMORY_DESCRIPTOR \<Rightarrow> pmm \<Rightarrow> pmm" where
  "init_pmm_release d s =
     (if conventional d then
        let start = PhysicalStart d div PAGE_SIZE
        in for_u64 (NumberOfPages d) (\<lambda>p. mark_free (start + p)) s
      else s)"

text \<open>
  \<open>mem_map_size / descriptor_size\<close> with a zero descriptor size raises the divide exception, whose
  handler (\<open>divide_error\<close> in \<open>exception.c\<close>) panics.
\<close>

definition init_pmm ::
  "(u64 \<Rightarrow> EFI_MEMORY_DESCRIPTOR) \<Rightarrow> u64 \<Rightarrow> u64 \<Rightarrow> u64 \<Rightarrow> pmm \<Rightarrow> pmm result" where
  "init_pmm descs mem_map mem_map_size descriptor_size s =
     (if descriptor_size = 0 then Inl (Kernel_Panic ''DIVIDE BY ZERO'') else
      let entries = mem_map_size div descriptor_size;
          desc = (\<lambda>i. descs (mem_map + i * descriptor_size));
          s0 = s\<lparr>free_pages := 0, total_pages := 0, total_ram_pages := 0,
                 max_physical_address := 0\<rparr>;
          s1 = for_u64 entries (\<lambda>i. init_pmm_scan (desc i)) s0;
          s2 = s1\<lparr>max_pages := max_physical_address s1 div PAGE_SIZE\<rparr>;
          s3 = s2\<lparr>sizeof_bitmap := (max_pages s2 + 7) div 8, bitmap_addr := 0\<rparr>;
          s4 = for_u64 entries (\<lambda>i. init_pmm_hunt (desc i)) s3
      in if bitmap_addr s4 = 0 then Inl (Kernel_Panic ''No room for PMM bitmap'')
         else
           let s5 = s4\<lparr>bitmap := (\<lambda>i. if i < sizeof_bitmap s4 then 0xFF else bitmap s4 i)\<rparr>;
               s6 = for_u64 entries (\<lambda>i. init_pmm_release (desc i)) s5;
               s7 = s6\<lparr>total_usable_memory := total_pages s6 * PAGE_SIZE,
                       total_memory := total_ram_pages s6 * PAGE_SIZE\<rparr>;
               bitmap_start_page = bitmap_addr s7 div PAGE_SIZE;
               bitmap_pages = (sizeof_bitmap s7 + PAGE_SIZE - 1) div PAGE_SIZE;
               s8 = mark_used 0 s7;
               s9 = for_u64 bitmap_pages (\<lambda>i. mark_used (bitmap_start_page + i)) s8
           in Inr (s9\<lparr>bitmap_init := True\<rparr>))"

section \<open>Reading the bitmap\<close>

text \<open>\<open>raw_used\<close> is the bit of a page number, whatever the limit \<open>max_pages\<close>.\<close>

definition raw_used :: "pmm \<Rightarrow> u64 \<Rightarrow> bool" where
  "raw_used s page \<longleftrightarrow> bit (bitmap s (page div 8)) (unat (page mod 8))"

lemma and_power_bit: "(b AND 2 ^ k \<noteq> (0 :: u8)) \<longleftrightarrow> bit b k"
  using bit_iff_and_push_bit_not_eq_0 [of b k] by simp

lemma page_used_raw: "page_used s p \<longleftrightarrow> max_pages s \<le> p \<or> raw_used s p"
  by (simp add: page_used_def raw_used_def and_power_bit)

lemma page_mod_less [simp]: "unat (p mod 8 :: u64) < 8"
  by (simp add: unat_mod)

lemma page_div_mod_eq:
  "p = q \<longleftrightarrow> p div 8 = q div 8 \<and> unat (p mod 8) = unat (q mod 8)" for p q :: u64
  by (metis word_mod_div_equality word_unat_eq_iff)

lemma raw_used_mark_used:
  "p < max_pages s \<Longrightarrow> raw_used (mark_used p s) q \<longleftrightarrow> raw_used s q \<or> p = q"
  using page_div_mod_eq [of p q]
  by (auto simp: mark_used_def page_used_raw raw_used_def bit_simps)

lemma raw_used_mark_free:
  "p < max_pages s \<Longrightarrow> raw_used (mark_free p s) q \<longleftrightarrow> raw_used s q \<and> p \<noteq> q"
  using page_div_mod_eq [of p q]
  by (auto simp: mark_free_def page_used_raw raw_used_def bit_simps)

section \<open>The set of free pages and the invariant\<close>

definition free_set :: "pmm \<Rightarrow> u64 set" where
  "free_set s = {p. \<not> page_used s p}"

definition pmm_inv :: "pmm \<Rightarrow> bool" where
  "pmm_inv s \<longleftrightarrow>
     sizeof_bitmap s = (max_pages s + 7) div 8 \<and> max_pages s \<le> 0x10000000000000 \<and>
     free_pages s = word_of_nat (card (free_set s)) \<and>
     (\<forall>p. max_pages s \<le> p \<and> p div 8 < sizeof_bitmap s \<longrightarrow> raw_used s p)"

lemma in_free_set: "p \<in> free_set s \<longleftrightarrow> p < max_pages s \<and> \<not> raw_used s p"
  by (auto simp: free_set_def page_used_raw)

lemma free_set_bound: "p \<in> free_set s \<Longrightarrow> p < max_pages s"
  by (simp add: in_free_set)

lemma mark_fields [simp]:
  "max_pages (mark_used p s) = max_pages s" "max_pages (mark_free p s) = max_pages s"
  "sizeof_bitmap (mark_used p s) = sizeof_bitmap s" "sizeof_bitmap (mark_free p s) = sizeof_bitmap s"
  "bitmap_init (mark_used p s) = bitmap_init s" "bitmap_init (mark_free p s) = bitmap_init s"
  "bitmap_addr (mark_used p s) = bitmap_addr s" "bitmap_addr (mark_free p s) = bitmap_addr s"
  "max_physical_address (mark_used p s) = max_physical_address s"
  "max_physical_address (mark_free p s) = max_physical_address s"
  by (simp_all add: mark_used_def mark_free_def)

lemma free_set_mark_used: "free_set (mark_used p s) = free_set s - {p}"
proof (cases "p < max_pages s")
  case True
  then show ?thesis by (auto simp: in_free_set raw_used_mark_used)
next
  case False
  then show ?thesis by (auto simp: mark_used_def in_free_set)
qed

lemma free_set_mark_free:
  "free_set (mark_free p s) = (if p < max_pages s then insert p (free_set s) else free_set s)"
proof (cases "p < max_pages s")
  case True
  then show ?thesis by (auto simp: in_free_set raw_used_mark_free)
next
  case False
  then show ?thesis by (auto simp: mark_free_def in_free_set)
qed

lemma pmm_inv_mark_used:
  assumes "pmm_inv s"
  shows "pmm_inv (mark_used p s)"
proof (cases "p \<in> free_set s")
  case True
  then have lt: "p < max_pages s" and nu: "\<not> page_used s p"
    by (auto simp: in_free_set page_used_raw)
  have card: "card (free_set s) = Suc (card (free_set s - {p}))"
    using True by (intro card.remove) simp_all
  have "free_pages (mark_used p s) = free_pages s - 1"
    using lt nu by (simp add: mark_used_def not_le)
  also have "\<dots> = word_of_nat (card (free_set (mark_used p s)))"
    using assms by (simp only: pmm_inv_def card free_set_mark_used) simp
  finally show ?thesis
    using assms lt by (simp add: pmm_inv_def raw_used_mark_used)
next
  case False
  then have "mark_used p s = s"
    by (auto simp: mark_used_def free_set_def)
  with assms show ?thesis by simp
qed

lemma pmm_inv_mark_free:
  assumes "pmm_inv s"
  shows "pmm_inv (mark_free p s)"
proof (cases "p < max_pages s \<and> p \<notin> free_set s")
  case True
  then have lt: "p < max_pages s" and nu: "page_used s p"
    by (auto simp: in_free_set page_used_raw)
  have "free_pages (mark_free p s) = free_pages s + 1"
    using lt nu by (simp add: mark_free_def not_le)
  also have "\<dots> = word_of_nat (card (free_set (mark_free p s)))"
    using assms True by (simp add: pmm_inv_def free_set_mark_free)
  finally show ?thesis
    using assms lt by (auto simp: pmm_inv_def raw_used_mark_free)
next
  case False
  then have "mark_free p s = s"
    by (auto simp: mark_free_def free_set_def)
  with assms show ?thesis by simp
qed

section \<open>\<open>palloc\<close> takes the lowest free page\<close>

lemma raw_used_word_of_nat:
  assumes "8 * b + k < 18446744073709551616" "k < 8"
  shows "raw_used s (word_of_nat (8 * b + k)) \<longleftrightarrow> bit (bitmap s (word_of_nat b)) k"
proof -
  have u: "unat (word_of_nat (8 * b + k) :: u64) = 8 * b + k"
    using assms by (intro unat_of_nat_u64) simp
  have "word_of_nat (8 * b + k) div 8 = (word_of_nat b :: u64)"
    using assms by (simp add: u64_eq_iff_unat unat_div u unat_of_nat_u64 del: of_nat_add of_nat_mult)
  moreover have "unat (word_of_nat (8 * b + k) mod 8 :: u64) = k"
    using assms by (simp add: unat_mod u del: of_nat_add of_nat_mult)
  ultimately show ?thesis by (simp add: raw_used_def)
qed

lemma palloc_bit_page:
  assumes "8 * b + 8 \<le> 18446744073709551616"
  shows "List.find (\<lambda>p. \<not> raw_used s (word_of_nat p)) (map ((+) (8 * b)) [0..<8])
    = map_option ((+) (8 * b)) (palloc_bit (bitmap s (word_of_nat b)))"
  unfolding find_map palloc_bit_def
  by (intro arg_cong [where f = "map_option ((+) (8 * b))"] find_cong_set)
     (use assms in \<open>auto simp: and_power_bit raw_used_word_of_nat simp del: of_nat_add of_nat_mult\<close>)

lemma palloc_bit_full [simp]: "palloc_bit 0xFF = None"
  unfolding palloc_bit_def by code_simp

definition palloc_take :: "nat option \<Rightarrow> pmm \<Rightarrow> u64 \<times> pmm" where
  "palloc_take p s = (case p of None \<Rightarrow> (0, s)
     | Some p \<Rightarrow> if max_pages s \<le> word_of_nat p then (0, s)
        else (word_of_nat p * PAGE_SIZE, mark_used (word_of_nat p) s))"

lemma palloc_scan_find:
  assumes "8 * e \<le> 18446744073709551616"
  shows "palloc_scan (map word_of_nat [b..<e]) s =
     palloc_take (List.find (\<lambda>p. \<not> raw_used s (word_of_nat p)) [8 * b..<8 * e]) s"
proof (induction "e - b" arbitrary: b)
  case 0
  then show ?case by (simp add: palloc_take_def)
next
  case (Suc n)
  then have be: "b < e" by simp
  let ?P = "\<lambda>p. \<not> raw_used s (word_of_nat p)"
  have split: "[8 * b..<8 * e] = map ((+) (8 * b)) [0..<8] @ [8 * Suc b..<8 * e]"
  proof -
    have "map ((+) (8 * b)) [0..<8] = [8 * b..<8 * b + 8]"
      using map_add_upt [of "8 * b" 8] by (simp add: add.commute [of _ "8 * b"] cong: map_cong)
    then show ?thesis
      using be upt_add_eq_append [of "8 * b" "8 * b + 8" "8 * e - (8 * b + 8)"]
      by (simp add: add.commute)
  qed
  have "List.find ?P [8 * b..<8 * e] =
     (case palloc_bit (bitmap s (word_of_nat b)) of
        None \<Rightarrow> List.find ?P [8 * Suc b..<8 * e] | Some k \<Rightarrow> Some (8 * b + k))"
    unfolding split find_append using assms be
    by (subst palloc_bit_page) (auto split: option.splits)
  moreover have "palloc_scan (map word_of_nat [Suc b..<e]) s =
     palloc_take (List.find ?P [8 * Suc b..<8 * e]) s"
    using Suc by simp
  moreover have "[b..<e] = b # [Suc b..<e]"
    using be by (simp add: upt_conv_Cons)
  ultimately show ?case
    by (auto simp: palloc_take_def Let_def mult.commute split: option.splits)
qed

lemma palloc_eq:
  assumes inv: "pmm_inv s" and init: "bitmap_init s"
  shows "palloc s =
    (if free_set s = {} then (0, s)
     else (Min (free_set s) * PAGE_SIZE, mark_used (Min (free_set s)) s))"
proof -
  let ?P = "\<lambda>p. \<not> raw_used s (word_of_nat p)"
  let ?n = "8 * unat (sizeof_bitmap s)"
  have mp: "unat (max_pages s) \<le> 4503599627370496"
    using inv by (simp add: pmm_inv_def word_le_nat_alt)
  then have sz: "unat (sizeof_bitmap s) = (unat (max_pages s) + 7) div 8"
    using inv by (simp add: pmm_inv_def unat_div)
  have palloc: "palloc s = palloc_take (List.find ?P [0..<?n]) s"
    using init mp sz palloc_scan_find [of "unat (sizeof_bitmap s)" 0 s] by (simp add: palloc_def)
  have tail: "\<not> ?P i" if "i < ?n" "unat (max_pages s) \<le> i" for i
  proof -
    have "unat (word_of_nat i :: u64) = i"
      using that sz mp by (intro unat_of_nat_u64) simp
    then show ?thesis
      using inv that by (auto simp: pmm_inv_def word_le_nat_alt word_less_nat_alt unat_div)
  qed
  show ?thesis
  proof (cases "List.find ?P [0..<?n]")
    case None
    have "p \<notin> free_set s" for p
    proof
      assume "p \<in> free_set s"
      then have "unat p < ?n" "?P (unat p)"
        using sz by (auto simp: in_free_set word_less_nat_alt)
      with None show False by (auto simp: find_None_iff)
    qed
    then have "free_set s = {}" by blast
    with palloc None show ?thesis by (simp add: palloc_take_def)
  next
    case (Some i)
    then have i: "i < ?n" "?P i" "\<And>j. j < i \<Longrightarrow> \<not> ?P j"
      by (auto simp: upt_find_Some_least)
    with tail have lt: "i < unat (max_pages s)" by (meson not_le)
    then have ui: "unat (word_of_nat i :: u64) = i"
      using mp by (intro unat_of_nat_u64) simp
    have mem: "word_of_nat i \<in> free_set s"
      using i lt ui by (simp add: in_free_set word_less_nat_alt)
    have "Min (free_set s) = word_of_nat i"
    proof (rule Min_eqI)
      fix p assume "p \<in> free_set s"
      then have "?P (unat p)" by (simp add: in_free_set)
      with i(3) have "i \<le> unat p" by (meson not_le)
      then show "word_of_nat i \<le> p" by (simp add: word_le_nat_alt ui)
    qed (use mem in simp_all)
    with palloc Some lt ui mem show ?thesis
      by (auto simp: palloc_take_def word_le_nat_alt)
  qed
qed


section \<open>Runs of \<open>mark_free\<close> and \<open>mark_used\<close>\<close>

lemma fold_mark_free_max [simp]: "max_pages (fold (\<lambda>i. mark_free (g i)) xs s) = max_pages s"
  by (induction xs arbitrary: s) simp_all

lemma free_set_fold_mark_free:
  "free_set (fold (\<lambda>i. mark_free (g i)) xs s) = free_set s \<union> {p. p < max_pages s \<and> p \<in> g ` set xs}"
  by (induction xs arbitrary: s) (auto simp: free_set_mark_free split: if_splits)

lemma free_set_fold_mark_used:
  "free_set (fold (\<lambda>i. mark_used (g i)) xs s) = free_set s - g ` set xs"
  by (induction xs arbitrary: s) (auto simp: free_set_mark_used)

lemma for_u64_image:
  "(\<lambda>i. a + word_of_nat i) ` set [0..<unat n] = {p :: u64. \<exists>k<n. p = a + k}"
proof -
  have "(\<lambda>i. a + word_of_nat i) ` set [0..<unat n] = (+) a ` (word_of_nat ` set [0..<unat n])"
    by (simp add: image_image)
  also have "\<dots> = (+) a ` {k. k < n}"
    by (simp only: word_of_nat_image_upt)
  finally show ?thesis by auto
qed

lemma free_set_for_mark_free:
  "free_set (for_u64 n (\<lambda>i. mark_free (a + i)) s) =
     free_set s \<union> {p. p < max_pages s \<and> (\<exists>k<n. p = a + k)}"
  unfolding for_u64_def free_set_fold_mark_free for_u64_image by simp

lemma free_set_for_mark_used:
  "free_set (for_u64 n (\<lambda>i. mark_used (a + i)) s) = free_set s - {p. \<exists>k<n. p = a + k}"
  unfolding for_u64_def free_set_fold_mark_used for_u64_image by simp

lemma pmm_inv_for_mark:
  assumes "pmm_inv s"
  shows "pmm_inv (for_u64 n (\<lambda>i. mark_free (a + i)) s)"
    and "pmm_inv (for_u64 n (\<lambda>i. mark_used (a + i)) s)"
  using for_u64_invariant [of "\<lambda>_. pmm_inv"] assms pmm_inv_mark_free pmm_inv_mark_used
  by fastforce+

text \<open>What the marking loops leave alone.\<close>

definition same_layout :: "pmm \<Rightarrow> pmm \<Rightarrow> bool" where
  "same_layout s t \<longleftrightarrow>
     max_pages t = max_pages s \<and> sizeof_bitmap t = sizeof_bitmap s \<and>
     bitmap_addr t = bitmap_addr s \<and> bitmap_init t = bitmap_init s \<and>
     max_physical_address t = max_physical_address s"

lemma same_layout_refl [simp]: "same_layout s s"
  by (simp add: same_layout_def)

lemma same_layout_trans: "same_layout r s \<Longrightarrow> same_layout s t \<Longrightarrow> same_layout r t"
  by (simp add: same_layout_def)

lemma same_layout_mark [simp]: "same_layout s (mark_used p s)" "same_layout s (mark_free p s)"
  by (simp_all add: same_layout_def)

lemma same_layout_for:
  assumes "\<And>i s. same_layout s (f i s)"
  shows "same_layout s (for_u64 n f s)"
  by (rule for_u64_invariant [of "\<lambda>_. same_layout s"]) (use assms same_layout_trans in auto)

section \<open>\<open>init_pmm\<close>\<close>

text \<open>The pages a descriptor describes, and what the release loop frees.\<close>

definition desc_pages :: "EFI_MEMORY_DESCRIPTOR \<Rightarrow> u64 set" where
  "desc_pages d =
     {p. conventional d \<and> (\<exists>k<NumberOfPages d. p = PhysicalStart d div PAGE_SIZE + k)}"

lemma init_pmm_scan_frame [simp]:
  "free_pages (init_pmm_scan d s) = free_pages s"
  by (simp add: init_pmm_scan_def Let_def)

lemma init_pmm_hunt_frame [simp]:
  "free_pages (init_pmm_hunt d s) = free_pages s" "max_pages (init_pmm_hunt d s) = max_pages s"
  "sizeof_bitmap (init_pmm_hunt d s) = sizeof_bitmap s"
  "max_physical_address (init_pmm_hunt d s) = max_physical_address s"
  by (simp_all add: init_pmm_hunt_def Let_def)

lemma init_pmm_release_effect:
  "same_layout s (init_pmm_release d s)"
  "pmm_inv s \<Longrightarrow> pmm_inv (init_pmm_release d s)"
  "free_set (init_pmm_release d s) = free_set s \<union> {p. p < max_pages s \<and> p \<in> desc_pages d}"
  by (auto simp: init_pmm_release_def Let_def same_layout_for pmm_inv_for_mark
      free_set_for_mark_free desc_pages_def)

lemma init_pmm_scan_end:
  "i < n \<Longrightarrow> conventional (desc i) \<Longrightarrow>
   PhysicalStart (desc i) + NumberOfPages (desc i) * PAGE_SIZE
     \<le> max_physical_address (for_u64 n (\<lambda>i. init_pmm_scan (desc i)) s)"
proof -
  let ?top = "\<lambda>d. PhysicalStart d + NumberOfPages d * PAGE_SIZE"
  have "\<forall>j<unat n. conventional (desc (word_of_nat j)) \<longrightarrow>
     ?top (desc (word_of_nat j)) \<le> max_physical_address (for_u64 n (\<lambda>i. init_pmm_scan (desc i)) s)"
  proof (rule for_u64_invariant [of "\<lambda>m s. \<forall>j<m. conventional (desc (word_of_nat j)) \<longrightarrow>
     ?top (desc (word_of_nat j)) \<le> max_physical_address s"])
    fix m and s :: pmm
    assume IH: "\<forall>j<m. conventional (desc (word_of_nat j)) \<longrightarrow>
       ?top (desc (word_of_nat j)) \<le> max_physical_address s"
    let ?t = "init_pmm_scan (desc (word_of_nat m)) s"
    have mono: "max_physical_address s \<le> max_physical_address ?t"
      and new: "conventional (desc (word_of_nat m)) \<Longrightarrow>
        ?top (desc (word_of_nat m)) \<le> max_physical_address ?t"
      by (auto simp: init_pmm_scan_def Let_def)
    show "\<forall>j<Suc m. conventional (desc (word_of_nat j)) \<longrightarrow>
       ?top (desc (word_of_nat j)) \<le> max_physical_address ?t"
      using IH mono new by (auto simp: less_Suc_eq intro: order_trans)
  qed simp
  then show "i < n \<Longrightarrow> conventional (desc i) \<Longrightarrow> ?top (desc i)
     \<le> max_physical_address (for_u64 n (\<lambda>i. init_pmm_scan (desc i)) s)"
    by (auto simp: word_less_nat_alt dest!: spec [of _ "unat i"])
qed

lemma init_pmm_hunt_place:
  assumes "bitmap_addr s = 0" and "bitmap_addr (for_u64 n (\<lambda>i. init_pmm_hunt (desc i)) s) \<noteq> 0"
  shows "\<exists>i<n. conventional (desc i) \<and>
     bitmap_addr (for_u64 n (\<lambda>i. init_pmm_hunt (desc i)) s) = PhysicalStart (desc i) \<and>
     sizeof_bitmap s \<le> NumberOfPages (desc i) * PAGE_SIZE"
proof -
  let ?Q = "\<lambda>m t. sizeof_bitmap t = sizeof_bitmap s \<and> (bitmap_addr t \<noteq> 0 \<longrightarrow>
     (\<exists>j<m. conventional (desc (word_of_nat j)) \<and>
       bitmap_addr t = PhysicalStart (desc (word_of_nat j)) \<and>
       sizeof_bitmap s \<le> NumberOfPages (desc (word_of_nat j)) * PAGE_SIZE))"
  have "?Q (unat n) (for_u64 n (\<lambda>i. init_pmm_hunt (desc i)) s)"
  proof (rule for_u64_invariant [of ?Q])
    show "?Q 0 s" using assms(1) by simp
    fix m and t :: pmm assume "?Q m t"
    then show "?Q (Suc m) (init_pmm_hunt (desc (word_of_nat m)) t)"
      by (auto simp: init_pmm_hunt_def Let_def less_Suc_eq split: if_splits)
  qed
  then obtain j where "j < unat n" and j: "conventional (desc (word_of_nat j))"
    "bitmap_addr (for_u64 n (\<lambda>i. init_pmm_hunt (desc i)) s) = PhysicalStart (desc (word_of_nat j))"
    "sizeof_bitmap s \<le> NumberOfPages (desc (word_of_nat j)) * PAGE_SIZE"
    using assms(2) by blast
  then have "word_of_nat j < n"
    using u64_less_wrap [of n] by (simp add: word_less_nat_alt unat_of_nat_u64)
  with j show ?thesis by blast
qed

text \<open>A freshly filled bitmap: every page used, counter 0.\<close>

lemma filled_bitmap:
  assumes "max_pages s \<le> 0x10000000000000" and "sizeof_bitmap s = (max_pages s + 7) div 8"
    and "free_pages s = 0" and "\<And>i. i < sizeof_bitmap s \<Longrightarrow> bitmap s i = 0xFF"
  shows "pmm_inv s" and "free_set s = {}"
proof -
  have ff: "bit (0xFF :: u8) k" if "k < 8" for k
  proof -
    have "(0xFF :: u8) = - 1" by simp
    then show ?thesis using that by (simp only: bit_minus_1_iff) simp
  qed
  have raw: "raw_used s p" if "p div 8 < sizeof_bitmap s" for p
    using assms(4) [OF that] ff by (simp add: raw_used_def)
  have "p div 8 < sizeof_bitmap s" if "p < max_pages s" for p
    using that assms(1,2) by (simp add: word_less_nat_alt word_le_nat_alt unat_div)
  with raw show free: "free_set s = {}" by (auto simp: in_free_set)
  show "pmm_inv s" using assms raw free by (simp add: pmm_inv_def)
qed

lemma free_set_for_release:
  assumes "pmm_inv s"
  shows "pmm_inv (for_u64 n (\<lambda>i. init_pmm_release (desc i)) s)"
    and "same_layout s (for_u64 n (\<lambda>i. init_pmm_release (desc i)) s)"
    and "free_set (for_u64 n (\<lambda>i. init_pmm_release (desc i)) s) =
       free_set s \<union> {p. p < max_pages s \<and> (\<exists>i<n. p \<in> desc_pages (desc i))}"
proof -
  let ?f = "\<lambda>i. init_pmm_release (desc i)"
  let ?Q = "\<lambda>m t. pmm_inv t \<and> same_layout s t \<and> free_set t = free_set s \<union>
     {p. p < max_pages s \<and> (\<exists>j<m. p \<in> desc_pages (desc (word_of_nat j)))}"
  have Q: "?Q (unat n) (for_u64 n ?f s)"
  proof (rule for_u64_invariant [of ?Q])
    show "?Q 0 s" using assms by simp
    fix m t assume "?Q m t"
    then show "?Q (Suc m) (?f (word_of_nat m) t)"
      using init_pmm_release_effect [where s = t and d = "desc (word_of_nat m)"]
      by (auto simp: same_layout_def less_Suc_eq)
  qed
  have ex: "(\<exists>j<unat n. p \<in> desc_pages (desc (word_of_nat j))) \<longleftrightarrow> (\<exists>i<n. p \<in> desc_pages (desc i))" for p
    by (rule ex_word_less)
  show "pmm_inv (for_u64 n ?f s)" "same_layout s (for_u64 n ?f s)"
    "free_set (for_u64 n ?f s) =
       free_set s \<union> {p. p < max_pages s \<and> (\<exists>i<n. p \<in> desc_pages (desc i))}"
    using Q unfolding ex by simp_all
qed


text \<open>The intermediate states of \<open>init_pmm\<close>: after the hunt for a place for the bitmap.\<close>

lemma init_pmm_Inr:
  assumes "init_pmm descs mem_map mem_map_size descriptor_size s = Inr t"
    and n: "n = mem_map_size div descriptor_size"
    and desc: "desc = (\<lambda>i. descs (mem_map + i * descriptor_size))"
  obtains s5 s6 s7 where "pmm_inv s5" and "free_set s5 = {}" and "bitmap_addr s5 \<noteq> 0"
    and "max_pages s5 = max_physical_address s5 div PAGE_SIZE"
    and "\<exists>i<n. conventional (desc i) \<and> bitmap_addr s5 = PhysicalStart (desc i) \<and>
           sizeof_bitmap s5 \<le> NumberOfPages (desc i) * PAGE_SIZE"
    and "\<forall>i<n. conventional (desc i) \<longrightarrow>
           PhysicalStart (desc i) + NumberOfPages (desc i) * PAGE_SIZE \<le> max_physical_address s5"
    and "s6 = for_u64 n (\<lambda>i. init_pmm_release (desc i)) s5"
    and "s7 = s6\<lparr>total_usable_memory := total_pages s6 * PAGE_SIZE,
                   total_memory := total_ram_pages s6 * PAGE_SIZE\<rparr>"
    and "t = (for_u64 ((sizeof_bitmap s7 + PAGE_SIZE - 1) div PAGE_SIZE)
                 (\<lambda>i. mark_used (bitmap_addr s7 div PAGE_SIZE + i)) (mark_used 0 s7))\<lparr>bitmap_init := True\<rparr>"
proof -
  define s1 where "s1 = for_u64 n (\<lambda>i. init_pmm_scan (desc i)) (s\<lparr>free_pages := 0,
     total_pages := 0, total_ram_pages := 0, max_physical_address := 0\<rparr>)"
  define s2 where "s2 = s1\<lparr>max_pages := max_physical_address s1 div PAGE_SIZE\<rparr>"
  define s3 where "s3 = s2\<lparr>sizeof_bitmap := (max_pages s2 + 7) div 8, bitmap_addr := 0\<rparr>"
  define s4 where "s4 = for_u64 n (\<lambda>i. init_pmm_hunt (desc i)) s3"
  define s5 where "s5 = s4\<lparr>bitmap := (\<lambda>i. if i < sizeof_bitmap s4 then 0xFF else bitmap s4 i)\<rparr>"
  define s6 where "s6 = for_u64 n (\<lambda>i. init_pmm_release (desc i)) s5"
  define s7 where "s7 = s6\<lparr>total_usable_memory := total_pages s6 * PAGE_SIZE,
     total_memory := total_ram_pages s6 * PAGE_SIZE\<rparr>"
  have run: "bitmap_addr s4 \<noteq> 0"
    "t = (for_u64 ((sizeof_bitmap s7 + PAGE_SIZE - 1) div PAGE_SIZE)
       (\<lambda>i. mark_used (bitmap_addr s7 div PAGE_SIZE + i)) (mark_used 0 s7))\<lparr>bitmap_init := True\<rparr>"
    using assms(1) unfolding init_pmm_def s7_def s6_def s5_def s4_def s3_def s2_def s1_def n desc
    by (simp_all add: Let_def split: if_splits)
  have s4: "free_pages s4 = 0" "max_pages s4 = max_physical_address s1 div PAGE_SIZE"
    "sizeof_bitmap s4 = (max_pages s4 + 7) div 8" "max_physical_address s4 = max_physical_address s1"
    unfolding s4_def s3_def s2_def by (simp_all add: for_u64_frame s1_def)
  have "max_pages s4 \<le> 0x10000000000000"
    using u64_less_wrap [of "max_physical_address s1"] s4(2)
    by (simp add: word_le_nat_alt unat_div)
  then have "pmm_inv s5" "free_set s5 = {}"
    using filled_bitmap [of s5] s4 by (simp_all add: s5_def)
  moreover have "\<exists>i<n. conventional (desc i) \<and> bitmap_addr s5 = PhysicalStart (desc i) \<and>
     sizeof_bitmap s5 \<le> NumberOfPages (desc i) * PAGE_SIZE"
    using init_pmm_hunt_place [of s3 n desc] run(1) s4(3)
    by (simp add: s5_def s4_def s3_def for_u64_frame)
  moreover have "\<forall>i<n. conventional (desc i) \<longrightarrow>
     PhysicalStart (desc i) + NumberOfPages (desc i) * PAGE_SIZE \<le> max_physical_address s5"
    using s4(4) by (auto simp: s5_def s1_def intro: init_pmm_scan_end)
  ultimately show thesis
    using that [of s5 s6 s7] run s4 s6_def s7_def by (simp add: s5_def)
qed

lemma init_pmm_spec:
  assumes "init_pmm descs mem_map mem_map_size descriptor_size s = Inr t"
    and n: "n = mem_map_size div descriptor_size"
    and desc: "desc = (\<lambda>i. descs (mem_map + i * descriptor_size))"
  shows "pmm_inv t" and "bitmap_init t" and "bitmap_addr t \<noteq> 0"
    and "max_pages t = max_physical_address t div PAGE_SIZE"
    and "free_set t = {p. p < max_pages t \<and> (\<exists>i<n. p \<in> desc_pages (desc i))} - {0} -
       {p. \<exists>k<(sizeof_bitmap t + PAGE_SIZE - 1) div PAGE_SIZE. p = bitmap_addr t div PAGE_SIZE + k}"
    and "\<exists>i<n. conventional (desc i) \<and> bitmap_addr t = PhysicalStart (desc i) \<and>
       sizeof_bitmap t \<le> NumberOfPages (desc i) * PAGE_SIZE"
    and "\<forall>i<n. conventional (desc i) \<longrightarrow>
       PhysicalStart (desc i) + NumberOfPages (desc i) * PAGE_SIZE \<le> max_physical_address t"
proof -
  obtain s5 s6 s7 where s5: "pmm_inv s5" "free_set s5 = {}" "bitmap_addr s5 \<noteq> 0"
      "max_pages s5 = max_physical_address s5 div PAGE_SIZE"
      "\<exists>i<n. conventional (desc i) \<and> bitmap_addr s5 = PhysicalStart (desc i) \<and>
         sizeof_bitmap s5 \<le> NumberOfPages (desc i) * PAGE_SIZE"
      "\<forall>i<n. conventional (desc i) \<longrightarrow>
         PhysicalStart (desc i) + NumberOfPages (desc i) * PAGE_SIZE \<le> max_physical_address s5"
    and s6: "s6 = for_u64 n (\<lambda>i. init_pmm_release (desc i)) s5"
    and s7: "s7 = s6\<lparr>total_usable_memory := total_pages s6 * PAGE_SIZE,
                total_memory := total_ram_pages s6 * PAGE_SIZE\<rparr>"
    and t: "t = (for_u64 ((sizeof_bitmap s7 + PAGE_SIZE - 1) div PAGE_SIZE)
       (\<lambda>i. mark_used (bitmap_addr s7 div PAGE_SIZE + i)) (mark_used 0 s7))\<lparr>bitmap_init := True\<rparr>"
    by (rule init_pmm_Inr [OF assms])
  have free7: "free_set s7 = free_set s6" and inv7: "pmm_inv s7 = pmm_inv s6"
    and lay7: "same_layout s6 s7"
    unfolding s7 by (simp_all add: pmm_inv_def free_set_def page_used_def raw_used_def same_layout_def)
  define u where "u = for_u64 ((sizeof_bitmap s7 + PAGE_SIZE - 1) div PAGE_SIZE)
     (\<lambda>i. mark_used (bitmap_addr s7 div PAGE_SIZE + i)) (mark_used 0 s7)"
  have tu: "t = u\<lparr>bitmap_init := True\<rparr>"
    by (simp only: t u_def)
  have lay56: "same_layout s5 s6"
    unfolding s6 by (rule free_set_for_release(2) [OF s5(1)])
  have "same_layout s7 u"
    unfolding u_def by (rule same_layout_trans [OF same_layout_mark(1) same_layout_for]) simp
  then have lay: "max_pages t = max_pages s5" "sizeof_bitmap t = sizeof_bitmap s5"
    "bitmap_addr t = bitmap_addr s5" "max_physical_address t = max_physical_address s5"
    "sizeof_bitmap s7 = sizeof_bitmap s5" "bitmap_addr s7 = bitmap_addr s5"
    using lay7 lay56 by (simp_all add: tu same_layout_def)
  have inv_u: "pmm_inv u"
    unfolding u_def using free_set_for_release(1) [OF s5(1)] inv7 s6
    by (simp add: pmm_inv_for_mark pmm_inv_mark_used)
  have free_u: "free_set t = free_set u" "pmm_inv t = pmm_inv u"
    by (simp_all add: tu pmm_inv_def free_set_def page_used_def raw_used_def)
  show "pmm_inv t" using inv_u free_u by simp
  show "bitmap_init t" by (simp add: tu)
  show "bitmap_addr t \<noteq> 0" "max_pages t = max_physical_address t div PAGE_SIZE"
    "\<exists>i<n. conventional (desc i) \<and> bitmap_addr t = PhysicalStart (desc i) \<and>
       sizeof_bitmap t \<le> NumberOfPages (desc i) * PAGE_SIZE"
    "\<forall>i<n. conventional (desc i) \<longrightarrow>
       PhysicalStart (desc i) + NumberOfPages (desc i) * PAGE_SIZE \<le> max_physical_address t"
    using s5 by (simp_all only: lay not_False_eq_True)
  have "free_set t = free_set s7 - {0} - {p. \<exists>k<(sizeof_bitmap t + PAGE_SIZE - 1) div PAGE_SIZE.
     p = bitmap_addr t div PAGE_SIZE + k}"
    unfolding free_u(1) u_def free_set_for_mark_used free_set_mark_used lay ..
  moreover have "free_set s7 = {p. p < max_pages t \<and> (\<exists>i<n. p \<in> desc_pages (desc i))}"
    unfolding free7 s6 free_set_for_release(3) [OF s5(1)] lay s5(2) by simp
  ultimately show "free_set t = {p. p < max_pages t \<and> (\<exists>i<n. p \<in> desc_pages (desc i))} - {0} -
     {p. \<exists>k<(sizeof_bitmap t + PAGE_SIZE - 1) div PAGE_SIZE. p = bitmap_addr t div PAGE_SIZE + k}"
    by simp
qed


section \<open>The interface to page frames\<close>

text \<open>
  What the virtual memory manager relies on. \<open>alloc\<close> returns 0 for "no frame"; \<open>frames\<close> are the
  addresses \<open>alloc\<close> may still hand out and \<open>managed\<close> those \<open>free\<close> may take back.
\<close>

locale frame_allocator =
  fixes alloc :: "'s \<Rightarrow> u64 \<times> 's"
    and free :: "u64 \<Rightarrow> 's \<Rightarrow> 's"
    and frames :: "'s \<Rightarrow> u64 set"
    and managed :: "'s \<Rightarrow> u64 set"
    and inv :: "'s \<Rightarrow> bool"
  assumes alloc_inv: "inv s \<Longrightarrow> inv (snd (alloc s))"
    and alloc_empty: "inv s \<Longrightarrow> frames s = {} \<Longrightarrow> alloc s = (0, s)"
    and alloc_frame: "inv s \<Longrightarrow> frames s \<noteq> {} \<Longrightarrow>
      fst (alloc s) \<in> frames s \<and> frames (snd (alloc s)) = frames s - {fst (alloc s)}"
    and alloc_managed: "inv s \<Longrightarrow> managed (snd (alloc s)) = managed s"
    and free_inv: "inv s \<Longrightarrow> a \<in> managed s \<Longrightarrow> inv (free a s)"
    and free_frame: "inv s \<Longrightarrow> a \<in> managed s \<Longrightarrow> frames (free a s) = insert a (frames s)"
    and free_managed: "inv s \<Longrightarrow> managed (free a s) = managed s"
    and frames_managed: "inv s \<Longrightarrow> frames s \<subseteq> managed s"
    and managed_page: "inv s \<Longrightarrow> a \<in> managed s \<Longrightarrow> a \<noteq> 0 \<and> a mod PAGE_SIZE = 0"
begin

lemma alloc_zero_iff: "inv s \<Longrightarrow> fst (alloc s) = 0 \<longleftrightarrow> frames s = {}"
  using alloc_empty [of s] alloc_frame [of s] frames_managed [of s] managed_page [of s] by auto

lemma alloc_some:
  assumes "inv s" and "alloc s = (a, t)" and "a \<noteq> 0"
  shows "a \<in> frames s" and "frames t = frames s - {a}" and "inv t" and "managed t = managed s"
    and "a mod PAGE_SIZE = 0" and "a \<in> managed s"
proof -
  have "frames s \<noteq> {}" using alloc_zero_iff assms by force
  then show "a \<in> frames s" "frames t = frames s - {a}"
    using alloc_frame [OF assms(1)] assms(2) by auto
  with frames_managed [OF assms(1)] managed_page [OF assms(1)]
  show "a mod PAGE_SIZE = 0" "a \<in> managed s" by auto
qed (use assms alloc_inv alloc_managed in force)+

lemma alloc_free_restores:
  assumes "inv s" and "alloc s = (a, t)" and "a \<noteq> 0"
  shows "frames (free a t) = frames s" and "inv (free a t)"
  using alloc_some [OF assms] free_frame free_inv by auto

lemma alloc_none:
  assumes "inv s" and "alloc s = (0, t)"
  shows "t = s" and "frames s = {}"
  using alloc_zero_iff [OF assms(1)] alloc_empty [OF assms(1)] assms(2) by auto

end

text \<open>A run of allocations, as far as it gets.\<close>

primrec alloc_run :: "('s \<Rightarrow> u64 \<times> 's) \<Rightarrow> nat \<Rightarrow> 's \<Rightarrow> u64 list \<times> 's" where
  "alloc_run alloc 0 s = ([], s)"
| "alloc_run alloc (Suc n) s =
     (let (a, t) = alloc s in
      if a = 0 then ([], t) else let (as, u) = alloc_run alloc n t in (a # as, u))"

context frame_allocator
begin

lemma alloc_run_frames:
  assumes "inv s"
  shows "distinct (fst (alloc_run alloc n s)) \<and> set (fst (alloc_run alloc n s)) \<subseteq> frames s \<and>
    inv (snd (alloc_run alloc n s)) \<and>
    frames (snd (alloc_run alloc n s)) = frames s - set (fst (alloc_run alloc n s))"
  using assms
proof (induction n arbitrary: s)
  case (Suc n)
  obtain a t where at: "alloc s = (a, t)" by force
  obtain as u where run: "alloc_run alloc n t = (as, u)" by force
  show ?case
  proof (cases "a = 0")
    case True
    with at alloc_none [OF Suc.prems] Suc.prems show ?thesis by simp
  next
    case False
    have t: "a \<in> frames s" "frames t = frames s - {a}" "inv t"
      by (rule alloc_some [OF Suc.prems at False])+
    from Suc.IH [OF t(3)] t at run False show ?thesis by auto
  qed
qed simp

lemma alloc_run_length:
  assumes "inv s" and "finite (frames s)"
  shows "length (fst (alloc_run alloc n s)) = min n (card (frames s))"
  using assms
proof (induction n arbitrary: s)
  case (Suc n)
  obtain a t where at: "alloc s = (a, t)" by force
  show ?case
  proof (cases "a = 0")
    case True
    with at alloc_none [OF Suc.prems(1)] show ?thesis by simp
  next
    case False
    have t: "a \<in> frames s" "frames t = frames s - {a}" "inv t"
      by (rule alloc_some [OF Suc.prems(1) at False])+
    then have "card (frames s) = Suc (card (frames t))" "finite (frames t)"
      using Suc.prems(2) card.remove [of "frames s" a] by simp_all
    with Suc.IH [OF t(3)] at False show ?thesis by (auto simp: case_prod_beta Let_def)
  qed
qed simp

end

text \<open>The physical memory manager provides the interface.\<close>

definition pmm_ready :: "pmm \<Rightarrow> bool" where
  "pmm_ready s \<longleftrightarrow> pmm_inv s \<and> bitmap_init s \<and> 0 \<notin> free_set s"

definition free_frames :: "pmm \<Rightarrow> u64 set" where
  "free_frames s = (\<lambda>p. p * PAGE_SIZE) ` free_set s"

definition managed_frames :: "pmm \<Rightarrow> u64 set" where
  "managed_frames s = (\<lambda>p. p * PAGE_SIZE) ` {p. 0 < p \<and> p < max_pages s}"

lemma unat_page_address:
  "p < m \<Longrightarrow> m \<le> 0x10000000000000 \<Longrightarrow> unat (p * PAGE_SIZE :: u64) = unat p * 4096"
  by (subst unat_mult_u64) (simp_all add: word_less_nat_alt word_le_nat_alt)

lemma page_address_div:
  "p < m \<Longrightarrow> m \<le> 0x10000000000000 \<Longrightarrow> p * PAGE_SIZE div PAGE_SIZE = (p :: u64)"
  by (simp add: u64_eq_iff_unat unat_div unat_page_address)

lemma page_address_mod:
  "p < m \<Longrightarrow> m \<le> 0x10000000000000 \<Longrightarrow> p * PAGE_SIZE mod PAGE_SIZE = (0 :: u64)"
  by (simp add: u64_eq_iff_unat unat_mod unat_page_address)

lemma page_address_inj:
  "m \<le> 0x10000000000000 \<Longrightarrow> inj_on (\<lambda>p. p * PAGE_SIZE :: u64) {p. p < m}"
  by (metis (mono_tags, lifting) inj_onI mem_Collect_eq page_address_div)

lemma pmm_inv_bound: "pmm_inv s \<Longrightarrow> max_pages s \<le> 0x10000000000000"
  by (simp add: pmm_inv_def)

lemma card_free_frames: "pmm_inv s \<Longrightarrow> card (free_frames s) = card (free_set s)"
  unfolding free_frames_def
  by (rule card_image) (auto intro: inj_on_subset [OF page_address_inj [OF pmm_inv_bound]]
      dest: free_set_bound)

lemma pmm_ready_palloc: "pmm_ready s \<Longrightarrow> pmm_ready (snd (palloc s))"
  by (auto simp: pmm_ready_def palloc_eq pmm_inv_mark_used free_set_mark_used)

lemma pfree_frame:
  assumes "pmm_inv s" and "a \<in> managed_frames s"
  shows "free_set (pfree a s) = insert (a div PAGE_SIZE) (free_set s)"
    and "a div PAGE_SIZE \<noteq> 0" and "a = a div PAGE_SIZE * PAGE_SIZE"
proof -
  from assms(2) obtain p where p: "0 < p" "p < max_pages s" "a = p * PAGE_SIZE"
    by (auto simp: managed_frames_def)
  then have "a div PAGE_SIZE = p"
    using page_address_div pmm_inv_bound [OF assms(1)] by simp
  with p show "free_set (pfree a s) = insert (a div PAGE_SIZE) (free_set s)"
    "a div PAGE_SIZE \<noteq> 0" "a = a div PAGE_SIZE * PAGE_SIZE"
    by (simp_all add: pfree_def free_set_mark_free)
qed

interpretation pages: frame_allocator palloc pfree free_frames managed_frames pmm_ready
proof
  fix s a
  assume ready: "pmm_ready s"
  then have inv: "pmm_inv s" and init: "bitmap_init s" and z: "0 \<notin> free_set s"
    by (simp_all add: pmm_ready_def)
  note bound = pmm_inv_bound [OF inv]
  show "pmm_ready (snd (palloc s))" using ready by (rule pmm_ready_palloc)
  show "managed_frames (snd (palloc s)) = managed_frames s"
    using inv init by (simp add: palloc_eq managed_frames_def)
  show "managed_frames (pfree a s) = managed_frames s"
    by (simp add: managed_frames_def pfree_def)
  have "0 < p" if "p \<in> free_set s" for p
    using that z by (metis word_gt_0)
  then show "free_frames s \<subseteq> managed_frames s"
    by (auto simp: free_frames_def managed_frames_def free_set_bound intro!: imageI)
  show "palloc s = (0, s)" if "free_frames s = {}"
    using that inv init by (simp add: palloc_eq free_frames_def)
  show "fst (palloc s) \<in> free_frames s \<and> free_frames (snd (palloc s)) = free_frames s - {fst (palloc s)}"
    if "free_frames s \<noteq> {}"
  proof -
    let ?m = "Min (free_set s)"
    have ne: "free_set s \<noteq> {}" using that by (auto simp: free_frames_def)
    then have m: "?m \<in> free_set s" by simp
    have inj: "inj_on (\<lambda>p. p * PAGE_SIZE) (free_set s)"
      by (rule inj_on_subset [OF page_address_inj [OF bound]]) (auto simp: free_set_bound)
    have "(\<lambda>p. p * PAGE_SIZE) ` (free_set s - {?m}) = (\<lambda>p. p * PAGE_SIZE) ` free_set s - {?m * PAGE_SIZE}"
      using inj_on_image_set_diff [OF inj, of "free_set s" "{?m}"] m by auto
    with m ne inv init show ?thesis
      by (auto simp: palloc_eq free_frames_def free_set_mark_used)
  qed
  show "a \<noteq> 0 \<and> a mod PAGE_SIZE = 0" if "a \<in> managed_frames s"
    using that bound pfree_frame(2) [OF inv that] page_address_mod
    by (auto simp: managed_frames_def)
  show "pmm_ready (pfree a s)" if "a \<in> managed_frames s"
    using ready pfree_frame [OF inv that]
    by (auto simp: pmm_ready_def pfree_def pmm_inv_mark_free)
  show "free_frames (pfree a s) = insert a (free_frames s)" if "a \<in> managed_frames s"
    using pfree_frame [OF inv that] by (simp add: free_frames_def)
qed


section \<open>Reachable states\<close>

text \<open>The static initialisers of the globals.\<close>

definition pmm_boot :: pmm where
  "pmm_boot = \<lparr>sizeof_bitmap = 0, max_pages = 0, bitmap = (\<lambda>_. 0), bitmap_addr = 0,
     bitmap_init = False, free_pages = 0, total_pages = 0, total_ram_pages = 0,
     total_memory = 0, total_usable_memory = 0, max_physical_address = 0\<rparr>"

text \<open>Every state the operations of the file reach, in any order, from the booted kernel.\<close>

inductive pmm_reachable :: "pmm \<Rightarrow> bool" where
  boot: "pmm_reachable pmm_boot"
| init: "pmm_reachable s \<Longrightarrow> init_pmm descs mem_map mem_map_size descriptor_size s = Inr t \<Longrightarrow>
     pmm_reachable t"
| palloc: "pmm_reachable s \<Longrightarrow> pmm_reachable (snd (palloc s))"
| pfree: "pmm_reachable s \<Longrightarrow> pmm_reachable (pfree address s)"
| reserve: "pmm_reachable s \<Longrightarrow> pmm_reachable (reserve_region base len s)"

lemma pmm_inv_boot: "pmm_inv pmm_boot"
  by (simp add: pmm_inv_def pmm_boot_def free_set_def page_used_def)

lemma pmm_inv_palloc: "pmm_inv s \<Longrightarrow> pmm_inv (snd (palloc s))"
  by (cases "bitmap_init s") (auto simp: palloc_eq pmm_inv_mark_used, simp add: palloc_def)

lemma pmm_inv_pfree: "pmm_inv s \<Longrightarrow> pmm_inv (pfree a s)"
  by (simp add: pfree_def pmm_inv_mark_free)

lemma pmm_inv_reserve: "pmm_inv s \<Longrightarrow> pmm_inv (reserve_region b l s)"
  by (simp add: reserve_region_def Let_def pmm_inv_for_mark)

lemma pmm_reachable_inv: "pmm_reachable s \<Longrightarrow> pmm_inv s"
  by (induction rule: pmm_reachable.induct)
     (auto simp: pmm_inv_boot pmm_inv_palloc pmm_inv_pfree pmm_inv_reserve intro: init_pmm_spec(1))

lemma unat_free_pages:
  assumes "pmm_inv s"
  shows "unat (free_pages s) = card (free_set s)"
proof -
  have "free_set s \<subseteq> {p. p < max_pages s}" by (auto simp: free_set_bound)
  then have "card (free_set s) \<le> card {p. p < max_pages s}"
    by (intro card_mono) simp_all
  also have "{p. p < max_pages s} = word_of_nat ` set [0..<unat (max_pages s)]"
    by (simp only: word_of_nat_image_upt)
  also have "card \<dots> \<le> unat (max_pages s)"
    using card_image_le [of "set [0..<unat (max_pages s)]" "word_of_nat :: nat \<Rightarrow> u64"] by simp
  finally have "card (free_set s) \<le> unat (max_pages s)" .
  with u64_less_wrap [of "max_pages s"] have "card (free_set s) < 18446744073709551616" by simp
  with assms show ?thesis by (simp add: pmm_inv_def unat_of_nat_u64)
qed

section \<open>Properties\<close>

text \<open>A small machine: one conventional chunk of three pages at \<open>0x1000\<close>.\<close>

definition demo_descs :: "u64 \<Rightarrow> EFI_MEMORY_DESCRIPTOR" where
  "demo_descs = (\<lambda>_. \<lparr>desc_Type = 7, PhysicalStart = 0x1000, VirtualStart = 0,
     NumberOfPages = 3, Attribute = 0\<rparr>)"

definition demo_pmm :: pmm where
  "demo_pmm = projr (init_pmm demo_descs 0x8000 40 40 pmm_boot)"

lemma demo_pmm_init: "init_pmm demo_descs 0x8000 40 40 pmm_boot = Inr demo_pmm"
proof -
  have "\<not> isl (init_pmm demo_descs 0x8000 40 40 pmm_boot)" by code_simp
  then show ?thesis unfolding demo_pmm_def by (cases "init_pmm demo_descs 0x8000 40 40 pmm_boot") auto
qed

lemma demo_pmm_values:
  "free_pages demo_pmm = 2" "max_pages demo_pmm = 4" "page_used demo_pmm 1" "\<not> page_used demo_pmm 2"
  "fst (palloc demo_pmm) = 0x2000"
  by code_simp+


text \<open>
  C1. When \<open>init_pmm\<close> does not panic, the free pages are exactly the pages of the conventional
  chunks of the memory map below \<open>max_pages\<close>, less page 0 and the pages that hold the bitmap; the
  bitmap itself lies at the start of a conventional chunk that is large enough for it, and every
  conventional chunk ends at or below \<open>max_physical_address\<close>.
\<close>

theorem init_pmm_frees_conventional:
  assumes "init_pmm descs mem_map mem_map_size descriptor_size s = Inr t"
  shows "(\<not> page_used t p \<longleftrightarrow>
      p < max_pages t \<and> p \<noteq> 0 \<and>
      (\<exists>i<mem_map_size div descriptor_size. p \<in> desc_pages (descs (mem_map + i * descriptor_size))) \<and>
      \<not> (\<exists>k<(sizeof_bitmap t + PAGE_SIZE - 1) div PAGE_SIZE. p = bitmap_addr t div PAGE_SIZE + k))
    \<and> (\<exists>i<mem_map_size div descriptor_size.
      let d = descs (mem_map + i * descriptor_size)
      in conventional d \<and> bitmap_addr t = PhysicalStart d \<and>
         sizeof_bitmap t \<le> NumberOfPages d * PAGE_SIZE)
    \<and> (\<forall>i<mem_map_size div descriptor_size.
      let d = descs (mem_map + i * descriptor_size)
      in conventional d \<longrightarrow> PhysicalStart d + NumberOfPages d * PAGE_SIZE \<le> max_physical_address t)"
proof -
  note spec = init_pmm_spec [OF assms refl refl]
  have "\<not> page_used t p \<longleftrightarrow> p \<in> free_set t" by (simp add: free_set_def)
  then show ?thesis using spec(5-7) by (auto simp: Let_def)
qed

theorem init_pmm_frees_conventional_witness:
  "\<not> page_used demo_pmm 2 \<and> 2 \<in> desc_pages (demo_descs 0x8000) \<and> (2 :: u64) < max_pages demo_pmm"
  using init_pmm_frees_conventional [OF demo_pmm_init, of 2]
  by (auto simp: demo_pmm_values demo_descs_def)

text \<open>
  C2. In every state the operations reach from the booted kernel, in any order and with any
  arguments, the counter behind \<open>get_free_pages\<close> is the number of pages whose bit is clear.
\<close>

theorem free_page_counter_exact:
  assumes "pmm_reachable s"
  shows "unat (get_free_pages s) = card {p. \<not> page_used s p}"
  using unat_free_pages [OF pmm_reachable_inv [OF assms]]
  by (simp add: get_free_pages_def free_set_def)

theorem free_page_counter_exact_witness:
  "unat (get_free_pages (pfree 0x2000 (snd (palloc demo_pmm)))) =
     card {p. \<not> page_used (pfree 0x2000 (snd (palloc demo_pmm))) p}"
proof -
  have "pmm_reachable demo_pmm"
    by (rule pmm_reachable.init [OF pmm_reachable.boot demo_pmm_init])
  then show ?thesis
    by (intro free_page_counter_exact pmm_reachable.pfree pmm_reachable.palloc)
qed

text \<open>
  C3. \<open>palloc\<close> returns the address of the lowest free page and marks only that page used; with no
  free page it returns 0 and leaves the manager unchanged.
\<close>

theorem palloc_lowest_free:
  assumes "pmm_reachable s" and "bitmap_init s"
  shows "palloc s =
    (let free = {p. \<not> page_used s p}
     in if free = {} then (0, s) else (Min free * PAGE_SIZE, mark_used (Min free) s))"
  using palloc_eq [OF pmm_reachable_inv [OF assms(1)] assms(2)]
  by (simp add: free_set_def Let_def)

theorem palloc_lowest_free_witness:
  "fst (palloc demo_pmm) = Min {p. \<not> page_used demo_pmm p} * PAGE_SIZE \<and> fst (palloc demo_pmm) = 0x2000"
proof -
  have "pmm_reachable demo_pmm"
    by (rule pmm_reachable.init [OF pmm_reachable.boot demo_pmm_init])
  moreover have "bitmap_init demo_pmm" by code_simp
  ultimately have "palloc demo_pmm = (let free = {p. \<not> page_used demo_pmm p}
     in if free = {} then (0, demo_pmm) else (Min free * PAGE_SIZE, mark_used (Min free) demo_pmm))"
    by (rule palloc_lowest_free)
  then show ?thesis using demo_pmm_values(4,5) by (auto simp: Let_def split: if_splits)
qed

text \<open>
  C4. A run of \<open>n\<close> calls of \<open>palloc\<close> returns pairwise distinct, page-aligned, non-zero addresses
  of pages that were free before and are used afterwards, and it returns as many of them as there
  are free pages, up to \<open>n\<close>.
\<close>

theorem palloc_run_distinct:
  assumes "pmm_ready s" and "alloc_run palloc n s = (as, t)"
  shows "distinct as \<and> length as = min n (unat (get_free_pages s)) \<and>
    (\<forall>a \<in> set as. a \<noteq> 0 \<and> a mod PAGE_SIZE = 0 \<and>
       \<not> page_used s (a div PAGE_SIZE) \<and> page_used t (a div PAGE_SIZE))"
proof -
  have inv: "pmm_inv s" using assms(1) by (simp add: pmm_ready_def)
  have run: "distinct as" "set as \<subseteq> free_frames s" "pmm_ready t" "free_frames t = free_frames s - set as"
    using pages.alloc_run_frames [OF assms(1), of n] assms(2) by simp_all
  have "finite (free_frames s)" by (simp add: free_frames_def)
  then have len: "length as = min n (card (free_set s))"
    using pages.alloc_run_length [OF assms(1), of n] assms(2) card_free_frames [OF inv] by simp
  have "a \<noteq> 0 \<and> a mod PAGE_SIZE = 0 \<and> \<not> page_used s (a div PAGE_SIZE) \<and> page_used t (a div PAGE_SIZE)"
    if "a \<in> set as" for a
  proof -
    from that run(2) obtain p where p: "p \<in> free_set s" "a = p * PAGE_SIZE"
      by (auto simp: free_frames_def)
    then have div: "a div PAGE_SIZE = p"
      using page_address_div [OF free_set_bound pmm_inv_bound [OF inv]] by simp
    have "a \<notin> free_frames t" using that run(4) by simp
    then have "p \<notin> free_set t" using p(2) by (auto simp: free_frames_def)
    moreover have "a \<in> managed_frames s"
      using that run(2) pages.frames_managed [OF assms(1)] by auto
    ultimately show ?thesis
      using p(1) div pages.managed_page [OF assms(1)] by (simp add: free_set_def)
  qed
  with run(1) len show ?thesis by (simp add: unat_free_pages [OF inv] get_free_pages_def)
qed

theorem palloc_run_distinct_witness:
  "pmm_ready demo_pmm \<and> length (fst (alloc_run palloc 5 demo_pmm)) = 2 \<and>
   distinct (fst (alloc_run palloc 5 demo_pmm))"
proof -
  have "page_used demo_pmm 0" "bitmap_init demo_pmm" by code_simp+
  then have ready: "pmm_ready demo_pmm"
    using init_pmm_spec(1) [OF demo_pmm_init refl refl] by (simp add: pmm_ready_def free_set_def)
  obtain as t where run: "alloc_run palloc 5 demo_pmm = (as, t)" by force
  show ?thesis
    using palloc_run_distinct [OF ready run] ready run demo_pmm_values(1)
    by (simp add: get_free_pages_def)
qed

lemma palloc_then_pfree:
  assumes "pmm_ready s" and "palloc s = (a, t)" and "a \<noteq> 0"
  shows "page_used (pfree a t) = page_used s \<and> get_free_pages (pfree a t) = get_free_pages s"
proof -
  have inv: "pmm_inv s" "pmm_inv t" and t: "pmm_ready t" "a \<in> managed_frames t"
    using pages.alloc_some [OF assms] assms(1) by (simp_all add: pmm_ready_def)
  have "free_set s \<noteq> {}" and a: "a = Min (free_set s) * PAGE_SIZE" "t = mark_used (Min (free_set s)) s"
    using assms palloc_eq [OF inv(1)] by (auto simp: pmm_ready_def split: if_splits)
  then have min: "Min (free_set s) \<in> free_set s" by simp
  then have "a div PAGE_SIZE = Min (free_set s)"
    using a(1) page_address_div [OF free_set_bound pmm_inv_bound [OF inv(1)]] by simp
  then have free: "free_set (pfree a t) = free_set s"
    using pfree_frame(1) [OF inv(2) t(2)] a(2) min by (auto simp: free_set_mark_used)
  then have "page_used (pfree a t) = page_used s" by (auto simp: free_set_def fun_eq_iff)
  moreover have "free_pages (pfree a t) = free_pages s"
    using pmm_inv_pfree [OF inv(2), of a] inv(1) free by (simp add: pmm_inv_def)
  ultimately show ?thesis by (simp add: get_free_pages_def)
qed

text \<open>
  C5. Freeing the page \<open>palloc\<close> has just returned restores the set of used pages and the
  free-page count, which is what the boot-time self test of \<open>init.c\<close> checks.
\<close>

theorem palloc_pfree_restores:
  assumes "pmm_ready s" and "palloc s = (a, t)" and "a \<noteq> 0"
  shows "page_used (pfree a t) = page_used s \<and> get_free_pages (pfree a t) = get_free_pages s"
  by (rule palloc_then_pfree [OF assms])

theorem palloc_pfree_restores_witness:
  "page_used (pfree 0x2000 (snd (palloc demo_pmm))) = page_used demo_pmm"
proof -
  have "page_used demo_pmm 0" "bitmap_init demo_pmm" by code_simp+
  then have "pmm_ready demo_pmm"
    using init_pmm_spec(1) [OF demo_pmm_init refl refl] by (simp add: pmm_ready_def free_set_def)
  moreover have "palloc demo_pmm = (0x2000, snd (palloc demo_pmm))"
    using demo_pmm_values(5) by (simp add: prod_eq_iff)
  ultimately show ?thesis using palloc_pfree_restores by auto
qed

text \<open>
  Page 0 is only protected by its bit: once \<open>pfree(0)\<close> has cleared it, \<open>palloc\<close> answers 0, its
  failure value, and takes the page away, although two pages are free.
\<close>

lemma pfree_zero_blocks_palloc:
  "fst (palloc (pfree 0 demo_pmm)) = 0 \<and> free_pages (snd (palloc (pfree 0 demo_pmm))) = 2"
  by code_simp

end
