(* ===== verification/Vmm.thy ===== *)
theory Vmm
  imports Pmm "HOL-Library.Sublist"
begin

unbundle bit_operations_syntax

text \<open>
  The virtual memory manager, \<open>kernel/arch/x86_64/mm/vmm.c\<close>: 4-level page tables in physical
  memory, page mapping and unmapping, and the bump allocator of kernel heap pages.

  \<open>phys_mem\<close> gives the 64-bit word stored at a physical address. The code reaches a page table
  through \<open>page_table_ptr\<close>: under the identity map of the boot loader while
  \<open>virtual_mem_initialized\<close> is false, through the window at \<open>PASSTHRU_BASE\<close> afterwards.
  \<open>ptr_phys\<close> is the physical address such a pointer reaches. The processor's own walk of the tables
  is \<open>translate\<close>; the TLB, and with it \<open>invlpg\<close>, is not modelled.

  The lemmas show that the tables below a root stay a tree of used frames, that \<open>map_page\<close> and
  \<open>unmap_page\<close> change the translation of exactly one virtual page, and that \<open>vallocs\<close> either maps
  the requested range onto distinct zeroed frames that were free before or maps nothing.
\<close>

section \<open>State and constants\<close>

record vmm =
  vm_pmm :: pmm
  phys_mem :: "u64 \<Rightarrow> u64"
  cr3 :: u64
  next_virt :: u64
  virtual_mem_initialized :: bool

abbreviation PTE_PRESENT :: u64 where "PTE_PRESENT \<equiv> 1"
abbreviation PTE_RW :: u64 where "PTE_RW \<equiv> 2"
abbreviation PTE_ADDR_MASK :: u64 where "PTE_ADDR_MASK \<equiv> 0x000FFFFFFFFFF000"
abbreviation PAGE_MASK :: u64 where "PAGE_MASK \<equiv> 0xFFFFFFFFFFFFF000"
abbreviation KHEAP_BASE :: u64 where "KHEAP_BASE \<equiv> 0xFFFFFFFE00000000"
abbreviation PASSTHRU_BASE :: u64 where "PASSTHRU_BASE \<equiv> 0xFFFFFFFF80000000"

section \<open>Pointers and indices\<close>

definition get_virt_addr :: "u64 \<Rightarrow> u64" where
  "get_virt_addr phys_addr = phys_addr + PASSTHRU_BASE"

definition pml4_index :: "u64 \<Rightarrow> u64" where
  "pml4_index v = drop_bit 39 v AND 0x1FF"

definition pdpt_index :: "u64 \<Rightarrow> u64" where
  "pdpt_index v = drop_bit 30 v AND 0x1FF"

definition pd_index :: "u64 \<Rightarrow> u64" where
  "pd_index v = drop_bit 21 v AND 0x1FF"

definition pt_index :: "u64 \<Rightarrow> u64" where
  "pt_index v = drop_bit 12 v AND 0x1FF"

definition page_table_ptr :: "vmm \<Rightarrow> u64 \<Rightarrow> u64" where
  "page_table_ptr s phys =
     (if \<not> virtual_mem_initialized s then phys else get_virt_addr phys)"

text \<open>The physical address behind a pointer made by \<open>page_table_ptr\<close>.\<close>

definition ptr_phys :: "vmm \<Rightarrow> u64 \<Rightarrow> u64" where
  "ptr_phys s p = (if \<not> virtual_mem_initialized s then p else p - PASSTHRU_BASE)"

definition load64 :: "vmm \<Rightarrow> u64 \<Rightarrow> u64" where
  "load64 s p = phys_mem s (ptr_phys s p)"

definition store64 :: "u64 \<Rightarrow> u64 \<Rightarrow> vmm \<Rightarrow> vmm" where
  "store64 p v s = s\<lparr>phys_mem := (phys_mem s)(ptr_phys s p := v)\<rparr>"

text \<open>\<open>memset(p, 0, n)\<close> on whole words.\<close>

definition zero_range :: "u64 \<Rightarrow> u64 \<Rightarrow> (u64 \<Rightarrow> u64) \<Rightarrow> (u64 \<Rightarrow> u64)" where
  "zero_range base n m = (\<lambda>a. if a - base < n then 0 else m a)"

definition memset_zero :: "u64 \<Rightarrow> u64 \<Rightarrow> vmm \<Rightarrow> vmm" where
  "memset_zero p n s = s\<lparr>phys_mem := zero_range (ptr_phys s p) n (phys_mem s)\<rparr>"

section \<open>Mapping and unmapping a page\<close>

text \<open>
  One level of \<open>map_page\<close>: make sure the entry \<open>table[i]\<close> is present, with a fresh zeroed table
  behind it if it was not. \<open>map_page\<close> does this for the PDPT, the PD and the PT in turn.
\<close>

definition ensure_table :: "string \<Rightarrow> u64 \<Rightarrow> u64 \<Rightarrow> vmm \<Rightarrow> vmm result" where
  "ensure_table msg table i s =
     (if load64 s (table + 8 * i) AND PTE_PRESENT = 0 then
        let (new_phys, p) = palloc (vm_pmm s);
            s1 = s\<lparr>vm_pmm := p\<rparr>
        in if new_phys = 0 then Inl (Kernel_Panic msg)
           else
             let s2 = memset_zero (page_table_ptr s1 new_phys) 0x1000 s1
             in Inr (store64 (table + 8 * i)
                  (((new_phys AND PTE_ADDR_MASK) OR PTE_PRESENT) OR PTE_RW) s2)
      else Inr s)"

definition map_page :: "u64 \<Rightarrow> u64 \<Rightarrow> u64 \<Rightarrow> vmm \<Rightarrow> vmm result" where
  "map_page phys_addr virt_addr pml4_phys s =
     (let pml4 = page_table_ptr s pml4_phys;
          pml4_i = pml4_index virt_addr;
          pdpt_i = pdpt_index virt_addr;
          pd_i = pd_index virt_addr;
          pt_i = pt_index virt_addr
      in bind_result (ensure_table ''Out of memory creating PDPT'' pml4 pml4_i s) (\<lambda>s1.
         let pdpt_phys = load64 s1 (pml4 + 8 * pml4_i) AND PTE_ADDR_MASK;
             pdpt = page_table_ptr s1 pdpt_phys
         in bind_result (ensure_table ''Out of memory creating PD'' pdpt pdpt_i s1) (\<lambda>s2.
         let pd_phys = load64 s2 (pdpt + 8 * pdpt_i) AND PTE_ADDR_MASK;
             pd = page_table_ptr s2 pd_phys
         in bind_result (ensure_table ''Out of memory creating PT'' pd pd_i s2) (\<lambda>s3.
         let pt_phys = load64 s3 (pd + 8 * pd_i) AND PTE_ADDR_MASK;
             pt = page_table_ptr s3 pt_phys
         in Inr (store64 (pt + 8 * pt_i)
              (((phys_addr AND PTE_ADDR_MASK) OR PTE_PRESENT) OR PTE_RW) s3)))))"

definition unmap_page :: "u64 \<Rightarrow> u64 \<Rightarrow> vmm \<Rightarrow> u64 \<times> vmm" where
  "unmap_page virt_addr pml4_phys s =
     (let pml4_table = page_table_ptr s pml4_phys;
          pml4_e = load64 s (pml4_table + 8 * pml4_index virt_addr)
      in if pml4_e AND PTE_PRESENT = 0 then (0, s) else
      let pdpt_table = page_table_ptr s (pml4_e AND PTE_ADDR_MASK);
          pdpt_e = load64 s (pdpt_table + 8 * pdpt_index virt_addr)
      in if pdpt_e AND PTE_PRESENT = 0 then (0, s) else
      let pd_table = page_table_ptr s (pdpt_e AND PTE_ADDR_MASK);
          pd_e = load64 s (pd_table + 8 * pd_index virt_addr)
      in if pd_e AND PTE_PRESENT = 0 then (0, s) else
      let pt_table = page_table_ptr s (pd_e AND PTE_ADDR_MASK);
          phys_addr = load64 s (pt_table + 8 * pt_index virt_addr) AND PTE_ADDR_MASK
      in (phys_addr, store64 (pt_table + 8 * pt_index virt_addr) 0 s))"

section \<open>The walk of the page tables\<close>

text \<open>
  The processor's walk from the root \<open>r\<close>: \<open>table_at m r p\<close> is the frame reached by following the
  entries with the indices of \<open>p\<close>, innermost first. Four indices lead to the frame of a page.
  None of the tables the kernel builds has large pages, so bit 7 is not looked at.
\<close>

definition pte_next :: "u64 \<Rightarrow> u64 option" where
  "pte_next e = (if e AND PTE_PRESENT = 0 then None else Some (e AND PTE_ADDR_MASK))"

primrec table_at :: "(u64 \<Rightarrow> u64) \<Rightarrow> u64 \<Rightarrow> u64 list \<Rightarrow> u64 option" where
  "table_at m r [] = Some r"
| "table_at m r (i # p) =
     (case table_at m r p of None \<Rightarrow> None | Some t \<Rightarrow> pte_next (m (t + 8 * i)))"

definition idx_path :: "u64 \<Rightarrow> u64 list" where
  "idx_path v = [pt_index v, pd_index v, pdpt_index v, pml4_index v]"

definition translate :: "(u64 \<Rightarrow> u64) \<Rightarrow> u64 \<Rightarrow> u64 \<Rightarrow> u64 option" where
  "translate m r v = table_at m r (idx_path v)"

section \<open>Allocating virtual pages\<close>

text \<open>\<open>memset((void * )virt, 0, PAGE_SIZE)\<close>: the store goes through the page tables in force.\<close>

definition memset_virt_page :: "u64 \<Rightarrow> vmm \<Rightarrow> vmm result" where
  "memset_virt_page virt s =
     (case translate (phys_mem s) (cr3 s AND PTE_ADDR_MASK) virt of
        None \<Rightarrow> Inl (Page_Fault virt)
      | Some frame \<Rightarrow> Inr (s\<lparr>phys_mem := zero_range frame PAGE_SIZE (phys_mem s)\<rparr>))"

definition vfrees_step :: "u64 \<Rightarrow> u64 \<Rightarrow> vmm \<Rightarrow> vmm" where
  "vfrees_step pml4 virt s =
     (let (phys, s1) = unmap_page virt pml4 s
      in if phys \<noteq> 0 then s1\<lparr>vm_pmm := pfree phys (vm_pmm s1)\<rparr> else s1)"

definition vfrees :: "u64 \<Rightarrow> u64 \<Rightarrow> vmm \<Rightarrow> vmm" where
  "vfrees virt_addr count s =
     (if count = 0 then s
      else let pml4 = cr3 s AND PTE_ADDR_MASK
           in for_u64 count (\<lambda>i. vfrees_step pml4 (virt_addr + i * PAGE_SIZE)) s)"

definition vfree :: "u64 \<Rightarrow> vmm \<Rightarrow> vmm" where
  "vfree virt_addr s = vfrees virt_addr 1 s"

text \<open>
  The loop of \<open>vallocs\<close>, with \<open>n\<close> iterations left at index \<open>i\<close>; the flag tells whether all pages
  were mapped or the frames ran out.
\<close>

primrec vallocs_loop :: "bool \<Rightarrow> u64 \<Rightarrow> u64 \<Rightarrow> nat \<Rightarrow> nat \<Rightarrow> vmm \<Rightarrow> (bool \<times> vmm) result" where
  "vallocs_loop zero pml4 start 0 i s = Inr (True, s)"
| "vallocs_loop zero pml4 start (Suc n) i s =
     (let (phys, p) = palloc (vm_pmm s);
          s1 = s\<lparr>vm_pmm := p\<rparr>
      in if phys = 0 then Inr (False, vfrees start (word_of_nat i) s1)
         else
           let virt = start + word_of_nat i * PAGE_SIZE
           in bind_result (map_page phys virt pml4 s1) (\<lambda>s2.
              bind_result (if zero then memset_virt_page virt s2 else Inr s2) (\<lambda>s3.
              vallocs_loop zero pml4 start n (Suc i) s3)))"

definition vallocs :: "bool \<Rightarrow> u64 \<Rightarrow> vmm \<Rightarrow> (u64 \<times> vmm) result" where
  "vallocs zero count s =
     (if count = 0 then Inr (0, s)
      else
        let pml4 = cr3 s AND PTE_ADDR_MASK;
            start = next_virt s
        in bind_result (vallocs_loop zero pml4 start (unat count) 0 s) (\<lambda>(done, s1).
             if \<not> done then Inr (0, s1)
             else Inr (start, s1\<lparr>next_virt := next_virt s1 + count * PAGE_SIZE\<rparr>)))"

definition valloc :: "bool \<Rightarrow> vmm \<Rightarrow> (u64 \<times> vmm) result" where
  "valloc zero s = vallocs zero 1 s"

section \<open>Mapping a range\<close>

text \<open>
  The loop of \<open>map_range\<close> counts in steps of a page and compares with \<open>mapped_size\<close>; for sizes
  within the last page below $2^{64}$ the counter wraps and the loop never ends, which is
  \<open>None\<close> here.
\<close>

partial_function (option) map_range_loop ::
  "u64 \<Rightarrow> u64 \<Rightarrow> u64 \<Rightarrow> u64 \<Rightarrow> u64 \<Rightarrow> vmm \<Rightarrow> vmm result option" where
  "map_range_loop phys_page virt_page mapped_size pml4_phys off s =
     (if off < mapped_size then
        (case map_page (phys_page + off) (virt_page + off) pml4_phys s of
           Inl h \<Rightarrow> Some (Inl h)
         | Inr s1 \<Rightarrow> map_range_loop phys_page virt_page mapped_size pml4_phys (off + PAGE_SIZE) s1)
      else Some (Inr s))"

definition map_range :: "u64 \<Rightarrow> u64 \<Rightarrow> u64 \<Rightarrow> u64 \<Rightarrow> vmm \<Rightarrow> vmm result option" where
  "map_range phys virt sz pml4_phys s =
     (let phys_page = phys AND PAGE_MASK;
          virt_page = virt AND PAGE_MASK;
          offset = phys - phys_page;
          mapped_size = sz + offset
      in map_range_loop phys_page virt_page mapped_size pml4_phys 0 s)"

section \<open>Word facts about entries and indices\<close>

lemma ptr_phys_page_table_ptr [simp]: "ptr_phys s (page_table_ptr s a + k) = a + k"
  "ptr_phys s (page_table_ptr s a) = a"
  by (simp_all add: ptr_phys_def page_table_ptr_def get_virt_addr_def)

lemma index_less [simp]:
  "pml4_index v < 512" "pdpt_index v < 512" "pd_index v < 512" "pt_index v < 512"
proof -
  have "x AND 0x1FF < (512 :: u64)" for x
    using word_and_le1 [of x "0x1FF"] by (rule order_le_less_trans) simp
  then show "pml4_index v < 512" "pdpt_index v < 512" "pd_index v < 512" "pt_index v < 512"
    by (simp_all add: pml4_index_def pdpt_index_def pd_index_def pt_index_def)
qed

lemma addr_mask_eq: "PTE_ADDR_MASK = push_bit 12 (mask 40)"
  by (simp add: mask_eq_exp_minus_1 push_bit_eq_mult)

lemma one_two_bits: "bit (1 :: u64) n \<longleftrightarrow> n = 0" "bit (2 :: u64) n \<longleftrightarrow> n = 1"
  using bit_2_iff [where 'a = u64] by (auto simp: bit_1_iff)

lemma pte_next_entry [simp]:
  "pte_next (((a AND PTE_ADDR_MASK) OR PTE_PRESENT) OR PTE_RW) = Some (a AND PTE_ADDR_MASK)"
proof -
  have "(((a AND PTE_ADDR_MASK) OR 1) OR 2) AND 1 = (1 :: u64)"
    unfolding addr_mask_eq by (rule bit_word_eqI) (auto simp: bit_simps one_two_bits)
  moreover have "(((a AND PTE_ADDR_MASK) OR 1) OR 2) AND PTE_ADDR_MASK = a AND PTE_ADDR_MASK"
    unfolding addr_mask_eq by (rule bit_word_eqI) (auto simp: bit_simps one_two_bits)
  ultimately show ?thesis by (simp add: pte_next_def)
qed

lemma pte_next_zero [simp]: "pte_next 0 = None"
  by (simp add: pte_next_def)

lemma mod_page_eq: "a mod PAGE_SIZE = 0 \<longleftrightarrow> (\<forall>n<12. \<not> bit (a :: u64) n)"
proof -
  have "a mod PAGE_SIZE = take_bit 12 a" by (simp add: take_bit_eq_mod)
  also have "\<dots> = 0 \<longleftrightarrow> (\<forall>n<12. \<not> bit a n)"
    by (auto simp: bit_eq_iff bit_take_bit_iff)
  finally show ?thesis .
qed

lemma addr_mask_aligned: "(a AND PTE_ADDR_MASK) mod PAGE_SIZE = 0"
  unfolding mod_page_eq addr_mask_eq by (simp add: bit_simps)

lemma addr_mask_id:
  assumes "a mod PAGE_SIZE = 0" and "a < 0x10000000000000"
  shows "a AND PTE_ADDR_MASK = a"
proof -
  have "take_bit 52 a = a"
    using assms(2) by (simp add: u64_eq_iff_unat unsigned_take_bit_eq take_bit_nat_eq_self word_less_nat_alt)
  then have hi: "bit a n \<Longrightarrow> n < 52" for n
    by (metis bit_take_bit_iff)
  have lo: "bit a n \<Longrightarrow> 12 \<le> n" for n
    using assms(1) unfolding mod_page_eq by (meson not_le)
  show ?thesis
    unfolding addr_mask_eq by (rule bit_word_eqI) (use hi lo in \<open>force simp: bit_simps\<close>)
qed

lemma aligned_unat:
  assumes "(a :: u64) mod PAGE_SIZE = 0"
  obtains x where "unat a = 4096 * x" and "x < 4503599627370496"
proof -
  have "unat a mod 4096 = 0"
    using arg_cong [OF assms, of unat] by (simp add: unat_mod)
  then have "unat a = 4096 * (unat a div 4096)" using mult_div_mod_eq [of 4096 "unat a"] by simp
  moreover from this u64_less_wrap [of a] have "unat a div 4096 < 4503599627370496" by linarith
  ultimately show thesis using that by blast
qed

lemma entry_unat:
  assumes "a mod PAGE_SIZE = 0" and "i < 512"
  shows "unat (a + 8 * i) = unat a + 8 * unat (i :: u64)"
proof -
  obtain x where x: "unat a = 4096 * x" "x < 4503599627370496"
    using assms(1) by (rule aligned_unat)
  have "unat (8 * i) = 8 * unat i" "unat i < 512"
    using assms(2) by (simp_all add: unat_mult_u64 word_less_nat_alt)
  with x show ?thesis by simp
qed

lemma entry_address_eq:
  assumes "a mod PAGE_SIZE = 0" "b mod PAGE_SIZE = 0" "i < 512" "j < 512"
  shows "a + 8 * i = b + 8 * j \<longleftrightarrow> a = b \<and> i = (j :: u64)"
proof -
  obtain x where x: "unat a = 4096 * x" using assms(1) by (rule aligned_unat)
  obtain y where y: "unat b = 4096 * y" using assms(2) by (rule aligned_unat)
  have "unat i < 512" "unat j < 512" using assms(3,4) by (simp_all add: word_less_nat_alt)
  then have "4096 * x + 8 * unat i = 4096 * y + 8 * unat j \<longleftrightarrow> x = y \<and> unat i = unat j"
    by (cases x y rule: linorder_cases) auto
  with x y show ?thesis
    using entry_unat [OF assms(1,3)] entry_unat [OF assms(2,4)] by (auto simp: u64_eq_iff_unat)
qed

lemma entry_in_page:
  assumes "a mod PAGE_SIZE = 0" "b mod PAGE_SIZE = 0" "i < 512"
  shows "a + 8 * i - b < 0x1000 \<longleftrightarrow> a = (b :: u64)"
proof -
  obtain x where x: "unat a = 4096 * x" "x < 4503599627370496"
    using assms(1) by (rule aligned_unat)
  obtain y where y: "unat b = 4096 * y" "y < 4503599627370496"
    using assms(2) by (rule aligned_unat)
  have i: "unat i < 512" using assms(3) by (simp add: word_less_nat_alt)
  have "unat (a + 8 * i - b) < 4096 \<longleftrightarrow> x = y"
    using x y i unfolding unat_sub_if_size entry_unat [OF assms(1,3)] word_le_nat_alt
    by (auto simp: word_size)
  then show ?thesis using x y by (simp add: word_less_nat_alt u64_eq_iff_unat)
qed


section \<open>The tree of tables\<close>

definition valid_idx :: "u64 list \<Rightarrow> bool" where
  "valid_idx p \<longleftrightarrow> (\<forall>i \<in> set p. i < 512)"

text \<open>Paths of at most three indices lead to tables, the root included.\<close>

definition valid_path :: "u64 list \<Rightarrow> bool" where
  "valid_path p \<longleftrightarrow> length p \<le> 3 \<and> valid_idx p"

definition tables :: "(u64 \<Rightarrow> u64) \<Rightarrow> u64 \<Rightarrow> u64 set" where
  "tables m r = {t. \<exists>p. valid_path p \<and> table_at m r p = Some t}"

definition pt_tree :: "(u64 \<Rightarrow> u64) \<Rightarrow> u64 \<Rightarrow> u64 set \<Rightarrow> bool" where
  "pt_tree m r F \<longleftrightarrow>
     (\<forall>t \<in> tables m r. t mod PAGE_SIZE = 0) \<and> tables m r \<inter> F = {} \<and>
     (\<forall>p q t. valid_path p \<and> valid_path q \<and> table_at m r p = Some t \<and> table_at m r q = Some t
        \<longrightarrow> p = q)"

lemma valid_path_simps [simp]:
  "valid_path []" "valid_idx []" "valid_idx (i # p) \<longleftrightarrow> i < 512 \<and> valid_idx p"
  "valid_path (i # p) \<longleftrightarrow> length p \<le> 2 \<and> i < 512 \<and> valid_idx p"
  by (auto simp: valid_path_def valid_idx_def)

lemma valid_path_idx: "valid_path p \<Longrightarrow> valid_idx p" "valid_path p \<Longrightarrow> length p \<le> 3"
  by (simp_all add: valid_path_def)

lemma valid_idx_path [simp]: "valid_idx (idx_path v)" "length (idx_path v) = 4"
  by (simp_all add: idx_path_def)

lemma pt_treeD:
  assumes "pt_tree m r F" and "valid_path p" and "table_at m r p = Some t"
  shows "t mod PAGE_SIZE = 0" and "t \<notin> F" and "t \<in> tables m r"
    and "valid_path q \<Longrightarrow> table_at m r q = Some t \<Longrightarrow> p = q"
  using assms unfolding pt_tree_def tables_def by blast+

lemma table_at_prefix_None: "suffix p q \<Longrightarrow> table_at m r p = None \<Longrightarrow> table_at m r q = None"
  by (induction q) (auto simp: suffix_Cons)

text \<open>Writing one entry of a table changes the walks through that entry only.\<close>

lemma table_at_store_other:
  assumes tree: "pt_tree m r F" and p: "valid_path p" "table_at m r p = Some t" and i: "i < 512"
  shows "length q \<le> 4 \<Longrightarrow> valid_idx q \<Longrightarrow> \<not> suffix (i # p) q \<Longrightarrow>
    table_at (m(t + 8 * i := e)) r q = table_at m r q"
proof (induction q)
  case (Cons j q)
  then have q: "valid_path q" "j < 512" "\<not> suffix (i # p) q" "j # q \<noteq> i # p"
    by (auto simp: valid_path_def suffix_Cons)
  have IH: "table_at (m(t + 8 * i := e)) r q = table_at m r q"
    by (rule Cons.IH) (use Cons.prems q in auto)
  have eq: "(m(t + 8 * i := e)) (t' + 8 * j) = m (t' + 8 * j)" if "table_at m r q = Some t'" for t'
    using q that pt_treeD [OF tree p] pt_treeD(1) [OF tree q(1) that] i
    by (auto simp: entry_address_eq)
  show ?case
    by (cases "table_at m r q") (simp_all add: IH eq del: fun_upd_apply)
qed simp

text \<open>Clearing a frame that is no table changes no walk.\<close>

lemma table_at_zero_range:
  assumes tree: "pt_tree m r F" and z: "z mod PAGE_SIZE = 0" "z \<notin> tables m r"
  shows "length q \<le> 4 \<Longrightarrow> valid_idx q \<Longrightarrow> table_at (zero_range z 0x1000 m) r q = table_at m r q"
proof (induction q)
  case (Cons j q)
  then have q: "valid_path q" "j < 512" by (auto simp: valid_path_def)
  have "zero_range z 0x1000 m (t + 8 * j) = m (t + 8 * j)" if "table_at m r q = Some t" for t
  proof -
    have "t \<noteq> z" using z(2) q(1) that by (auto simp: tables_def)
    then show ?thesis
      using pt_treeD(1) [OF tree q(1) that] z(1) q(2) by (simp add: zero_range_def entry_in_page)
  qed
  with Cons show ?case by (auto split: option.splits)
qed simp

lemma zero_range_in [simp]: "z mod PAGE_SIZE = 0 \<Longrightarrow> i < 512 \<Longrightarrow> zero_range z 0x1000 m (z + 8 * i) = 0"
  using entry_in_page [of z z i] by (simp add: zero_range_def)

lemma zero_range_out [simp]:
  "z mod PAGE_SIZE = 0 \<Longrightarrow> f mod PAGE_SIZE = 0 \<Longrightarrow> f \<noteq> z \<Longrightarrow> i < 512 \<Longrightarrow>
   zero_range z 0x1000 m (f + 8 * i) = m (f + 8 * i)"
  by (simp add: zero_range_def entry_in_page)

lemma pt_tree_same_walks:
  assumes "pt_tree m r F" and "\<And>q. valid_path q \<Longrightarrow> table_at m' r q = table_at m r q" and "G \<subseteq> F"
  shows "pt_tree m' r G" and "tables m' r = tables m r"
proof -
  show tab: "tables m' r = tables m r" using assms(2) by (auto simp: tables_def)
  show "pt_tree m' r G"
    using assms tab unfolding pt_tree_def by (metis Int_mono subset_refl subset_empty)
qed

lemma suffix_step: "suffix p q \<Longrightarrow> q \<noteq> p \<Longrightarrow> \<exists>j \<in> set q. suffix (j # p) q"
proof -
  assume "suffix p q" "q \<noteq> p"
  then obtain zs where "q = zs @ p" "zs \<noteq> []" by (auto simp: suffix_def)
  then show ?thesis by (cases zs rule: rev_cases) (auto simp: suffix_def)
qed

text \<open>A new table behind an entry that was not present.\<close>

lemma new_table:
  assumes tree: "pt_tree m r F" and p: "valid_path p" "length p \<le> 2" "table_at m r p = Some t"
    and i: "i < 512" and absent: "pte_next (m (t + 8 * i)) = None"
    and z: "z \<in> F" "z mod PAGE_SIZE = 0" and e: "pte_next e = Some z"
  defines "m' \<equiv> (zero_range z 0x1000 m)(t + 8 * i := e)"
  shows "table_at m' r (i # p) = Some z"
    and "length q \<le> 4 \<Longrightarrow> valid_idx q \<Longrightarrow> q \<noteq> i # p \<Longrightarrow> table_at m' r q = table_at m r q"
    and "tables m' r = insert z (tables m r)" and "pt_tree m' r (F - {z})"
proof -
  let ?m = "zero_range z 0x1000 m"
  have zt: "z \<notin> tables m r" using tree z(1) by (auto simp: pt_tree_def)
  note clear = table_at_zero_range [OF tree z(2) zt]
  have tree0: "pt_tree ?m r F"
    by (rule pt_tree_same_walks(1) [OF tree]) (auto simp: clear valid_path_def)
  have p0: "table_at ?m r p = Some t" using clear p by (simp add: valid_path_def)
  note t = pt_treeD [OF tree p(1,3)]
  have tz: "t \<noteq> z" using t(2) z(1) by auto
  have other: "table_at m' r q = table_at ?m r q"
    if "length q \<le> 4" "valid_idx q" "\<not> suffix (i # p) q" for q
    unfolding m'_def using table_at_store_other [OF tree0 p(1) p0 i] that .
  have notsuf: "\<not> suffix (i # p) p" by (metis impossible_Cons suffix_length_le)
  have "table_at m' r p = Some t"
    using other [of p] p0 p notsuf by (simp add: valid_path_def)
  then show new: "table_at m' r (i # p) = Some z" by (simp add: m'_def e)
  have below: "table_at m' r q = None" 
    if suf: "suffix (i # p) q" and ne: "q \<noteq> i # p" and idx: "valid_idx q" for q
  proof -
    obtain j where j: "suffix (j # i # p) q" "j < 512"
      using suffix_step [OF suf ne] idx by (auto simp: valid_idx_def)
    have "m' (z + 8 * j) = 0"
      using j(2) tz t(1) z(2) i by (simp add: m'_def entry_address_eq)
    then have "table_at m' r (j # i # p) = None" using new by simp
    with j(1) show ?thesis by (rule table_at_prefix_None)
  qed
  show same: "table_at m' r q = table_at m r q" if "length q \<le> 4" "valid_idx q" "q \<noteq> i # p" for q
  proof (cases "suffix (i # p) q")
    case True
    have "table_at m r (i # p) = None" using p(3) absent by simp
    with True below [OF True that(3,2)] show ?thesis by (simp add: table_at_prefix_None)
  next
    case False
    then show ?thesis using other clear that by simp
  qed
  have ip: "valid_path (i # p)" using p i by (simp add: valid_path_idx)
  have old: "table_at m r (i # p) = None" using p(3) absent by simp
  have tab: "table_at m' r q = Some u \<longleftrightarrow> (if q = i # p then u = z else table_at m r q = Some u)"
    if "valid_path q" for q u
    using same [of q] new that by (auto simp: valid_path_def)
  show tabs: "tables m' r = insert z (tables m r)"
  proof (rule set_eqI)
    fix u
    have "u \<in> tables m' r \<longleftrightarrow>
        (\<exists>q. valid_path q \<and> (if q = i # p then u = z else table_at m r q = Some u))"
      unfolding tables_def using tab by (simp cong: conj_cong)
    also have "\<dots> \<longleftrightarrow> u = z \<or> (\<exists>q. valid_path q \<and> table_at m r q = Some u)"
      using ip old by (metis option.distinct(1))
    finally show "u \<in> tables m' r \<longleftrightarrow> u \<in> insert z (tables m r)"
      by (simp add: tables_def)
  qed
  show "pt_tree m' r (F - {z})"
    unfolding pt_tree_def tabs
  proof (intro conjI ballI allI impI)
    fix p' q u
    assume *: "valid_path p' \<and> valid_path q \<and> table_at m' r p' = Some u \<and> table_at m' r q = Some u"
    then show "p' = q"
      using tab zt tree unfolding tables_def pt_tree_def by (auto split: if_splits)
  qed (use tree in \<open>auto simp: pt_tree_def z(2)\<close>)
qed

text \<open>Writing a leaf entry.\<close>

lemma leaf_entry:
  assumes tree: "pt_tree m r F" and p: "valid_path p" "length p = 3" "table_at m r p = Some t"
    and i: "i < 512"
  shows "table_at (m(t + 8 * i := e)) r (i # p) = pte_next e"
    and "length q \<le> 4 \<Longrightarrow> valid_idx q \<Longrightarrow> q \<noteq> i # p \<Longrightarrow>
      table_at (m(t + 8 * i := e)) r q = table_at m r q"
    and "pt_tree (m(t + 8 * i := e)) r F" and "tables (m(t + 8 * i := e)) r = tables m r"
proof -
  have suf: "suffix (i # p) q \<Longrightarrow> length q \<le> 4 \<Longrightarrow> q = i # p" for q
    using p(2) by (auto simp: suffix_def)
  show other: "table_at (m(t + 8 * i := e)) r q = table_at m r q"
    if "length q \<le> 4" "valid_idx q" "q \<noteq> i # p" for q
    using table_at_store_other [OF tree p(1,3) i] that suf by blast
  have "table_at (m(t + 8 * i := e)) r p = Some t"
    using other [of p] p by (simp add: valid_path_def)
  then show "table_at (m(t + 8 * i := e)) r (i # p) = pte_next e" by simp
  have walks: "table_at (m(t + 8 * i := e)) r q = table_at m r q" if "valid_path q" for q
  proof -
    have "q \<noteq> i # p" using that p(2) by (auto simp: valid_path_def)
    then show ?thesis using other [of q] that by (simp add: valid_path_def del: fun_upd_apply)
  qed
  show "pt_tree (m(t + 8 * i := e)) r F" "tables (m(t + 8 * i := e)) r = tables m r"
    using pt_tree_same_walks [OF tree walks subset_refl] by blast+
qed


section \<open>The invariant of an address space\<close>

definition vm_inv :: "u64 \<Rightarrow> vmm \<Rightarrow> bool" where
  "vm_inv r s \<longleftrightarrow> pmm_ready (vm_pmm s) \<and>
     (\<forall>a \<in> managed_frames (vm_pmm s). a < 0x10000000000000) \<and>
     pt_tree (phys_mem s) r (free_frames (vm_pmm s))"

abbreviation vm_free :: "vmm \<Rightarrow> u64 set" where
  "vm_free s \<equiv> free_frames (vm_pmm s)"

abbreviation vm_tables :: "u64 \<Rightarrow> vmm \<Rightarrow> u64 set" where
  "vm_tables r s \<equiv> tables (phys_mem s) r"

text \<open>
  What an operation on the tables of \<open>r\<close> may do besides changing a translation: turn free frames
  into tables. Registers, existing tables and all other frames stay.
\<close>

definition pt_frame :: "u64 \<Rightarrow> vmm \<Rightarrow> vmm \<Rightarrow> bool" where
  "pt_frame r s s' \<longleftrightarrow>
     vm_inv r s' \<and> cr3 s' = cr3 s \<and> next_virt s' = next_virt s \<and>
     virtual_mem_initialized s' = virtual_mem_initialized s \<and>
     managed_frames (vm_pmm s') = managed_frames (vm_pmm s) \<and>
     vm_free s' = vm_free s - vm_tables r s' \<and> vm_tables r s \<subseteq> vm_tables r s' \<and>
     vm_tables r s' \<subseteq> vm_tables r s \<union> vm_free s \<and>
     (\<forall>q. valid_path q \<longrightarrow> table_at (phys_mem s) r q \<noteq> None \<longrightarrow>
        table_at (phys_mem s') r q = table_at (phys_mem s) r q) \<and>
     (\<forall>f k. f mod PAGE_SIZE = 0 \<longrightarrow> k < 512 \<longrightarrow> f \<notin> vm_free s \<longrightarrow> f \<notin> vm_tables r s \<longrightarrow>
        phys_mem s' (f + 8 * k) = phys_mem s (f + 8 * k))"

lemma vm_invD:
  assumes "vm_inv r s"
  shows "pmm_ready (vm_pmm s)" and "pt_tree (phys_mem s) r (vm_free s)"
    and "vm_tables r s \<inter> vm_free s = {}"
    and "a \<in> managed_frames (vm_pmm s) \<Longrightarrow> a AND PTE_ADDR_MASK = a"
  using assms pages.managed_page [of "vm_pmm s" a] addr_mask_id [of a]
  by (auto simp: vm_inv_def pt_tree_def)

lemma pt_frame_refl: "vm_inv r s \<Longrightarrow> pt_frame r s s"
  using vm_invD(3) [of r s] by (auto simp: pt_frame_def)

lemma pt_frame_trans:
  assumes "pt_frame r s t" and "pt_frame r t u"
  shows "pt_frame r s u"
proof -
  have "f \<notin> vm_free t" "f \<notin> vm_tables r t" if "f \<notin> vm_free s" "f \<notin> vm_tables r s" for f
    using assms(1) that by (auto simp: pt_frame_def)
  moreover have "vm_free u = vm_free s - vm_tables r u"
    using assms unfolding pt_frame_def by auto
  ultimately show ?thesis
    using assms unfolding pt_frame_def by auto
qed

lemma pt_frame_inv: "pt_frame r s s' \<Longrightarrow> vm_inv r s'"
  by (simp add: pt_frame_def)

lemma load_table_entry [simp]:
  "load64 s (page_table_ptr s t + 8 * i) = phys_mem s (t + 8 * i)"
  by (simp add: load64_def)

text \<open>One level of \<open>map_page\<close>.\<close>

lemma ensure_table_spec:
  assumes inv: "vm_inv r s" and path: "valid_path (i # p)" and tab: "table_at (phys_mem s) r p = Some t"
    and run: "ensure_table msg (page_table_ptr s t) i s = Inr s'"
  shows "pt_frame r s s'" and "pte_next (phys_mem s' (t + 8 * i)) \<noteq> None"
    and "length q = 4 \<Longrightarrow> valid_idx q \<Longrightarrow> table_at (phys_mem s') r q = table_at (phys_mem s) r q"
    and "page_table_ptr s' = page_table_ptr s"
    and "card (vm_free s) \<le> Suc (card (vm_free s'))"
proof -
  note tree = vm_invD(2) [OF inv]
  have p: "valid_path p" "length p \<le> 2" "table_at (phys_mem s) r p = Some t" and i: "i < 512"
    using path tab by (auto simp: valid_path_def)
  consider (present) "pte_next (phys_mem s (t + 8 * i)) \<noteq> None" "s' = s"
    | (absent) z pm where "pte_next (phys_mem s (t + 8 * i)) = None" "palloc (vm_pmm s) = (z, pm)" "z \<noteq> 0"
        "s' = s\<lparr>vm_pmm := pm, phys_mem := (zero_range z 0x1000 (phys_mem s))
           (t + 8 * i := ((z AND PTE_ADDR_MASK) OR PTE_PRESENT) OR PTE_RW)\<rparr>"
    using run by (auto simp: ensure_table_def Let_def pte_next_def memset_zero_def store64_def
        split: if_splits prod.splits) (simp add: ptr_phys_def page_table_ptr_def get_virt_addr_def)
  then have "pt_frame r s s' \<and> pte_next (phys_mem s' (t + 8 * i)) \<noteq> None \<and>
     (\<forall>q. length q = 4 \<longrightarrow> valid_idx q \<longrightarrow> table_at (phys_mem s') r q = table_at (phys_mem s) r q) \<and>
     page_table_ptr s' = page_table_ptr s \<and> card (vm_free s) \<le> Suc (card (vm_free s'))"
  proof cases
    case present
    then show ?thesis by (simp add: pt_frame_refl [OF inv])
  next
    case absent
    note pm = pages.alloc_some [OF vm_invD(1) [OF inv] absent(2,3)]
    have e: "pte_next (((z AND PTE_ADDR_MASK) OR PTE_PRESENT) OR PTE_RW) = Some z"
      unfolding pte_next_entry using vm_invD(4) [OF inv pm(6)] by simp
    let ?m = "(zero_range z 0x1000 (phys_mem s))
      (t + 8 * i := ((z AND PTE_ADDR_MASK) OR PTE_PRESENT) OR PTE_RW)"
    note nt = new_table [OF tree p i absent(1) pm(1,5) e]
    have m: "phys_mem s' = ?m" "vm_pmm s' = pm" using absent(4) by simp_all
    have "vm_free s' = vm_free s - vm_tables r s'"
      using nt(3) pm(2) vm_invD(3) [OF inv] m by auto
    moreover have "vm_inv r s'"
      using inv pm nt(4) m by (simp add: vm_inv_def del: fun_upd_apply)
    moreover have "table_at ?m r q = table_at (phys_mem s) r q"
      if "valid_path q" "table_at (phys_mem s) r q \<noteq> None" for q
    proof -
      have "q \<noteq> i # p" using that(2) p(3) absent(1) by auto
      then show ?thesis using nt(2) [of q] that(1) by (simp add: valid_path_def del: fun_upd_apply)
    qed
    moreover have "?m (f + 8 * k) = phys_mem s (f + 8 * k)"
      if "f mod PAGE_SIZE = 0" "k < 512" "f \<notin> vm_free s" "f \<notin> vm_tables r s" for f k
    proof -
      have "f \<noteq> z" "f \<noteq> t" using that pm(1) pt_treeD(3) [OF tree p(1,3)] by auto
      then show ?thesis
        using that pm(5) i pt_treeD(1) [OF tree p(1,3)] by (simp add: entry_address_eq)
    qed
    ultimately have "pt_frame r s s'"
      using nt(3) pm(1,4) m absent(4) unfolding pt_frame_def m by auto
    moreover have "table_at ?m r q = table_at (phys_mem s) r q"
      if "length q = 4" "valid_idx q" for q
    proof -
      have "q \<noteq> i # p" using that p(2) by auto
      then show ?thesis using nt(2) [of q] that by (simp del: fun_upd_apply)
    qed
    moreover have "pte_next (?m (t + 8 * i)) = Some z"
      by (simp only: fun_upd_same e)
    moreover have "page_table_ptr s' = page_table_ptr s"
      using absent(4) by (auto simp: page_table_ptr_def fun_eq_iff)
    moreover have "card (vm_free s) \<le> Suc (card (vm_free s'))"
      unfolding m pm(2) by (simp add: card_Suc_Diff1 pm(1) del: card_Diff_insert)
    ultimately show ?thesis using m by (simp del: fun_upd_apply)
  qed
  then show "pt_frame r s s'" "pte_next (phys_mem s' (t + 8 * i)) \<noteq> None"
    "length q = 4 \<Longrightarrow> valid_idx q \<Longrightarrow> table_at (phys_mem s') r q = table_at (phys_mem s) r q"
    "page_table_ptr s' = page_table_ptr s" "card (vm_free s) \<le> Suc (card (vm_free s'))"
    by auto
qed

lemma ensure_table_panic:
  assumes "vm_inv r s" and "ensure_table msg table i s = Inl h"
  shows "h = Kernel_Panic msg" and "vm_free s = {}"
  using assms(2) pages.alloc_zero_iff [OF vm_invD(1) [OF assms(1)]]
  by (auto simp: ensure_table_def Let_def split: if_splits prod.splits)


text \<open>\<open>map_page\<close> changes the translation of one page and nothing else.\<close>

lemma page_table_step:
  assumes "table_at m r p = Some t" and "pte_next (m (t + 8 * i)) \<noteq> None"
  shows "table_at m r (i # p) = Some (m (t + 8 * i) AND PTE_ADDR_MASK)"
  using assms by (auto simp: pte_next_def split: if_splits)

lemma map_page_levels:
  assumes inv: "vm_inv r s" and run: "map_page phys virt r s = Inr s'"
  obtains s3 t where "pt_frame r s s3" and "table_at (phys_mem s3) r [pd_index virt, pdpt_index virt, pml4_index virt] = Some t"
    and "\<And>q. length q = 4 \<Longrightarrow> valid_idx q \<Longrightarrow> table_at (phys_mem s3) r q = table_at (phys_mem s) r q"
    and "s' = s3\<lparr>phys_mem := (phys_mem s3)(t + 8 * pt_index virt :=
           ((phys AND PTE_ADDR_MASK) OR PTE_PRESENT) OR PTE_RW)\<rparr>"
proof -
  let ?a = "pml4_index virt" and ?b = "pdpt_index virt" and ?c = "pd_index virt"
  obtain s1 s2 s3 t1 t2 t3 where
    e1: "ensure_table ''Out of memory creating PDPT'' (page_table_ptr s r) ?a s = Inr s1"
    and t1: "t1 = load64 s1 (page_table_ptr s r + 8 * ?a) AND PTE_ADDR_MASK"
    and e2: "ensure_table ''Out of memory creating PD'' (page_table_ptr s1 t1) ?b s1 = Inr s2"
    and t2: "t2 = load64 s2 (page_table_ptr s1 t1 + 8 * ?b) AND PTE_ADDR_MASK"
    and e3: "ensure_table ''Out of memory creating PT'' (page_table_ptr s2 t2) ?c s2 = Inr s3"
    and t3: "t3 = load64 s3 (page_table_ptr s2 t2 + 8 * ?c) AND PTE_ADDR_MASK"
    and s': "s' = store64 (page_table_ptr s3 t3 + 8 * pt_index virt)
       (((phys AND PTE_ADDR_MASK) OR PTE_PRESENT) OR PTE_RW) s3"
    using run by (auto simp: map_page_def Let_def bind_result_Inr_iff simp del: load_table_entry)
  have paths: "valid_path [?a]" "valid_path [?b, ?a]" "valid_path [?c, ?b, ?a]" by simp_all
  note l1 = ensure_table_spec [OF inv paths(1) table_at.simps(1) e1]
  have inv1: "vm_inv r s1" using l1(1) by (rule pt_frame_inv)
  have t1': "t1 = phys_mem s1 (r + 8 * ?a) AND PTE_ADDR_MASK"
    using t1 l1(4) by (metis load_table_entry)
  have p1: "table_at (phys_mem s1) r [?a] = Some t1"
    using page_table_step [of "phys_mem s1" r "[]", OF _ l1(2)] t1' by simp
  note l2 = ensure_table_spec [OF inv1 paths(2) p1 e2]
  have inv2: "vm_inv r s2" using l2(1) by (rule pt_frame_inv)
  have t2': "t2 = phys_mem s2 (t1 + 8 * ?b) AND PTE_ADDR_MASK"
    using t2 l2(4) by (metis load_table_entry)
  have "table_at (phys_mem s2) r [?a] = Some t1"
    using l2(1) p1 paths(1) unfolding pt_frame_def by (metis option.distinct(1))
  from page_table_step [OF this l2(2)] t2' have p2: "table_at (phys_mem s2) r [?b, ?a] = Some t2"
    by simp
  note l3 = ensure_table_spec [OF inv2 paths(3) p2 e3]
  have t3': "t3 = phys_mem s3 (t2 + 8 * ?c) AND PTE_ADDR_MASK"
    using t3 l3(4) by (metis load_table_entry)
  have "table_at (phys_mem s3) r [?b, ?a] = Some t2"
    using l3(1) p2 paths(2) unfolding pt_frame_def by (metis option.distinct(1))
  from page_table_step [OF this l3(2)] t3' have p3: "table_at (phys_mem s3) r [?c, ?b, ?a] = Some t3"
    by simp
  have "s' = s3\<lparr>phys_mem := (phys_mem s3)(t3 + 8 * pt_index virt :=
     ((phys AND PTE_ADDR_MASK) OR PTE_PRESENT) OR PTE_RW)\<rparr>"
    using s' by (simp add: store64_def)
  moreover have "table_at (phys_mem s3) r q = table_at (phys_mem s) r q"
    if "length q = 4" "valid_idx q" for q
    using l1(3) l2(3) l3(3) that by simp
  ultimately show thesis
    using that [of s3 t3] pt_frame_trans [OF pt_frame_trans [OF l1(1) l2(1)] l3(1)] p3 by blast
qed


text \<open>Writing the leaf entry of a page.\<close>

lemma pt_frame_leaf:
  fixes virt e
  assumes inv: "vm_inv r s"
    and t: "table_at (phys_mem s) r [pd_index virt, pdpt_index virt, pml4_index virt] = Some t"
    and s': "s' = s\<lparr>phys_mem := (phys_mem s)(t + 8 * pt_index virt := e)\<rparr>"
  shows "pt_frame r s s'" and "vm_tables r s' = vm_tables r s"
    and "translate (phys_mem s') r v =
      (if idx_path v = idx_path virt then pte_next e else translate (phys_mem s) r v)"
proof -
  let ?p = "[pd_index virt, pdpt_index virt, pml4_index virt]"
  have p: "valid_path ?p" "length ?p = 3" by simp_all
  note tree = vm_invD(2) [OF inv]
  note leaf = leaf_entry [OF tree p t index_less(4) [of virt]]
  have m: "phys_mem s' = (phys_mem s)(t + 8 * pt_index virt := e)" "vm_pmm s' = vm_pmm s"
    using s' by simp_all
  have inv': "vm_inv r s'"
    using inv leaf(3) m by (simp add: vm_inv_def del: fun_upd_apply)
  show tabs: "vm_tables r s' = vm_tables r s" unfolding m by (rule leaf(4))
  have walks: "table_at (phys_mem s') r q = table_at (phys_mem s) r q" if "valid_path q" for q
  proof -
    have "q \<noteq> pt_index virt # ?p" using that by (auto simp: valid_path_def)
    then show ?thesis using leaf(2) [of q e] that m by (simp add: valid_path_def del: fun_upd_apply)
  qed
  have "phys_mem s' (f + 8 * k) = phys_mem s (f + 8 * k)"
    if "f mod PAGE_SIZE = 0" "k < 512" "f \<notin> vm_tables r s" for f k
  proof -
    have "f \<noteq> t" using that(3) pt_treeD(3) [OF tree p(1) t] by auto
    then show ?thesis using that pt_treeD(1) [OF tree p(1) t] m by (simp add: entry_address_eq)
  qed
  moreover have "vm_free s' = vm_free s - vm_tables r s"
    using vm_invD(3) [OF inv] m(2) by auto
  ultimately show "pt_frame r s s'"
    using inv' walks m(2) unfolding pt_frame_def tabs by (simp add: s')
  show "translate (phys_mem s') r v =
      (if idx_path v = idx_path virt then pte_next e else translate (phys_mem s) r v)"
  proof -
    have "idx_path virt = pt_index virt # ?p" by (simp add: idx_path_def)
    then show ?thesis
      using leaf(1) [of e] leaf(2) [of "idx_path v" e] unfolding translate_def m
      by (simp del: table_at.simps fun_upd_apply)
  qed
qed

lemma map_page_spec:
  assumes inv: "vm_inv r s" and run: "map_page phys virt r s = Inr s'"
  shows "pt_frame r s s'"
    and "translate (phys_mem s') r v =
      (if idx_path v = idx_path virt then Some (phys AND PTE_ADDR_MASK) else translate (phys_mem s) r v)"
proof -
  obtain s3 t where f: "pt_frame r s s3"
    and t: "table_at (phys_mem s3) r [pd_index virt, pdpt_index virt, pml4_index virt] = Some t"
    and same: "\<And>q. length q = 4 \<Longrightarrow> valid_idx q \<Longrightarrow> table_at (phys_mem s3) r q = table_at (phys_mem s) r q"
    and s': "s' = s3\<lparr>phys_mem := (phys_mem s3)(t + 8 * pt_index virt :=
           ((phys AND PTE_ADDR_MASK) OR PTE_PRESENT) OR PTE_RW)\<rparr>"
    using map_page_levels [OF inv run] by blast
  note leaf = pt_frame_leaf [OF pt_frame_inv [OF f] t s']
  show "pt_frame r s s'" using f leaf(1) by (rule pt_frame_trans)
  show "translate (phys_mem s') r v =
      (if idx_path v = idx_path virt then Some (phys AND PTE_ADDR_MASK) else translate (phys_mem s) r v)"
    using leaf(3) [of v] same [of "idx_path v"] by (simp add: translate_def)
qed

text \<open>With three free frames \<open>map_page\<close> never panics; it takes at most three.\<close>

lemma ensure_table_total:
  assumes "vm_inv r s" and "vm_free s \<noteq> {}"
  shows "\<exists>s'. ensure_table msg table i s = Inr s'"
  using ensure_table_panic(2) [OF assms(1)] assms(2) by (cases "ensure_table msg table i s") auto

lemma unmap_page_walk:
  "unmap_page virt r s =
     (case table_at (phys_mem s) r [pd_index virt, pdpt_index virt, pml4_index virt] of
        None \<Rightarrow> (0, s)
      | Some t \<Rightarrow> (phys_mem s (t + 8 * pt_index virt) AND PTE_ADDR_MASK,
          s\<lparr>phys_mem := (phys_mem s)(t + 8 * pt_index virt := 0)\<rparr>))"
  by (simp add: unmap_page_def Let_def pte_next_def store64_def)

lemma unmap_page_spec:
  assumes inv: "vm_inv r s" and run: "unmap_page virt r s = (phys, s')"
  shows "pt_frame r s s'" and "vm_pmm s' = vm_pmm s" and "vm_tables r s' = vm_tables r s"
    and "translate (phys_mem s') r v = (if idx_path v = idx_path virt then None else translate (phys_mem s) r v)"
    and "translate (phys_mem s) r virt = Some f \<Longrightarrow> phys = f"
proof -
  let ?p = "[pd_index virt, pdpt_index virt, pml4_index virt]"
  have path: "translate (phys_mem s) r virt =
     (case table_at (phys_mem s) r ?p of None \<Rightarrow> None | Some t \<Rightarrow> pte_next (phys_mem s (t + 8 * pt_index virt)))"
    by (simp only: translate_def idx_path_def table_at.simps(2))
  have "pt_frame r s s' \<and> vm_pmm s' = vm_pmm s \<and> vm_tables r s' = vm_tables r s \<and>
    translate (phys_mem s') r v = (if idx_path v = idx_path virt then None else translate (phys_mem s) r v) \<and>
    (translate (phys_mem s) r virt = Some f \<longrightarrow> phys = f)"
  proof (cases "table_at (phys_mem s) r ?p")
    case None
    then have "s' = s" "translate (phys_mem s) r virt = None"
      using run path unfolding unmap_page_walk None by simp_all
    then show ?thesis by (auto simp: pt_frame_refl [OF inv] translate_def)
  next
    case (Some t)
    have s': "s' = s\<lparr>phys_mem := (phys_mem s)(t + 8 * pt_index virt := 0)\<rparr>"
      and ph: "phys = phys_mem s (t + 8 * pt_index virt) AND PTE_ADDR_MASK"
      using run unfolding unmap_page_walk Some by simp_all
    have "translate (phys_mem s) r virt = Some f \<Longrightarrow> phys = f"
      unfolding path Some ph by (auto simp: pte_next_def split: if_splits)
    then show ?thesis
      using pt_frame_leaf(1,2) [OF inv Some s'] pt_frame_leaf(3) [OF inv Some s', of v] s' by simp
  qed
  then show "pt_frame r s s'" "vm_pmm s' = vm_pmm s" "vm_tables r s' = vm_tables r s"
    "translate (phys_mem s') r v = (if idx_path v = idx_path virt then None else translate (phys_mem s) r v)"
    "translate (phys_mem s) r virt = Some f \<Longrightarrow> phys = f"
    by blast+
qed

section \<open>Runs of virtual pages\<close>

text \<open>The walk looks at the 36 bits of the virtual page number only.\<close>

definition vpn :: "u64 \<Rightarrow> nat" where
  "vpn v = unat v div 4096 mod 68719476736"

lemma index_unat:
  "unat (pt_index v) = unat v div 4096 mod 512" "unat (pd_index v) = unat v div 2097152 mod 512"
  "unat (pdpt_index v) = unat v div 1073741824 mod 512"
  "unat (pml4_index v) = unat v div 549755813888 mod 512"
proof -
  have *: "unat (drop_bit n v AND 0x1FF) = unat v div 2 ^ n mod 512" for n
  proof -
    have "drop_bit n v AND 0x1FF = take_bit 9 (drop_bit n v)"
      unfolding take_bit_eq_mask by (simp add: mask_eq_exp_minus_1 del: drop_bit_eq_div)
    then have "unat (drop_bit n v AND 0x1FF) = take_bit 9 (unat (drop_bit n v))"
      by (simp only: unsigned_take_bit_eq)
    also have "\<dots> = unat v div 2 ^ n mod 512"
      unfolding unat_drop_bit_eq by (simp add: take_bit_eq_mod drop_bit_eq_div)
    finally show ?thesis .
  qed
  show "unat (pt_index v) = unat v div 4096 mod 512" "unat (pd_index v) = unat v div 2097152 mod 512"
    "unat (pdpt_index v) = unat v div 1073741824 mod 512"
    "unat (pml4_index v) = unat v div 549755813888 mod 512"
    unfolding pt_index_def pd_index_def pdpt_index_def pml4_index_def * by simp_all
qed

lemma digits_512:
  "(x :: nat) mod 68719476736 =
     x mod 512 + 512 * (x div 512 mod 512) + 262144 * (x div 262144 mod 512)
       + 134217728 * (x div 134217728 mod 512)"
proof -
  have "x mod (a * b) = a * (x div a mod b) + x mod a" for a b :: nat
    by (rule mod_mult2_eq)
  from this [of 134217728 512] this [of 262144 512] this [of 512 512]
  show ?thesis by simp
qed

lemma idx_path_eq_iff: "idx_path v = idx_path w \<longleftrightarrow> vpn v = vpn w"
proof -
  have path: "idx_path v = idx_path w \<longleftrightarrow>
    unat v div 4096 mod 512 = unat w div 4096 mod 512 \<and>
    unat v div 2097152 mod 512 = unat w div 2097152 mod 512 \<and>
    unat v div 1073741824 mod 512 = unat w div 1073741824 mod 512 \<and>
    unat v div 549755813888 mod 512 = unat w div 549755813888 mod 512"
    by (simp add: idx_path_def u64_eq_iff_unat index_unat)
  let ?x = "unat v div 4096" and ?y = "unat w div 4096"
  have d: "n div 4096 div 512 = n div 2097152" "n div 4096 div 262144 = n div 1073741824"
    "n div 4096 div 134217728 = n div 549755813888" for n :: nat
    by (simp_all add: div_mult2_eq [symmetric])
  have *: "x mod (a * (512 * b)) div a mod 512 = x div a mod 512" if "0 < a" for a b x :: nat
  proof -
    have "x mod (a * (512 * b)) div a = x div a mod (512 * b)"
      using that unfolding mod_mult2_eq [of x a "512 * b"] by simp
    then show ?thesis by (simp add: mod_mult_cong mod_mult2_eq)
  qed
  have sub: "x mod 68719476736 mod 512 = x mod 512"
    "x mod 68719476736 div 512 mod 512 = x div 512 mod 512"
    "x mod 68719476736 div 262144 mod 512 = x div 262144 mod 512"
    "x mod 68719476736 div 134217728 mod 512 = x div 134217728 mod 512" for x :: nat
    using *[of 1 x 134217728] *[of 512 x 262144] *[of 262144 x 512] *[of 134217728 x 1] by simp_all
  show ?thesis
    unfolding path vpn_def
    using digits_512 [of ?x] digits_512 [of ?y] sub [of ?x] sub [of ?y] unfolding d
    by metis
qed

lemma vpn_page:
  assumes "v mod PAGE_SIZE = 0"
  shows "vpn (v + word_of_nat i * PAGE_SIZE) = (vpn v + i) mod 68719476736"
proof -
  obtain x where x: "unat v = 4096 * x" using assms by (rule aligned_unat)
  have "unat (v + word_of_nat i * PAGE_SIZE) = (4096 * (x + i)) mod (4096 * 4503599627370496)"
  proof -
    have "unat (v + word_of_nat i * PAGE_SIZE) = (unat v + i * 4096) mod 18446744073709551616"
    proof -
      have "v + word_of_nat i * PAGE_SIZE = word_of_nat (unat v + i * 4096)" by simp
      then show ?thesis by (simp only: unat_of_nat take_bit_eq_mod) simp
    qed
    moreover have "unat v + i * 4096 = 4096 * (x + i)" using x by simp
    moreover have "(18446744073709551616 :: nat) = 4096 * 4503599627370496" by simp
    ultimately show ?thesis by (simp only:)
  qed
  also have "\<dots> = 4096 * ((x + i) mod 4503599627370496)"
    by (rule mod_mult_mult1)
  finally have "vpn (v + word_of_nat i * PAGE_SIZE) = (x + i) mod 4503599627370496 mod 68719476736"
    by (simp add: vpn_def)
  also have "\<dots> = (x + i) mod 68719476736"
    by (rule mod_mod_cancel) (simp add: dvd_def; rule exI [of _ 65536]; simp)
  finally show ?thesis by (simp add: vpn_def x mod_simps)
qed

lemma run_pages_distinct:
  assumes "v mod PAGE_SIZE = 0" and "i < 68719476736" and "j < 68719476736"
  shows "idx_path (v + word_of_nat i * PAGE_SIZE) = idx_path (v + word_of_nat j * PAGE_SIZE) \<longleftrightarrow> i = j"
proof -
  have le: "i = j" if "(a + i) mod n = (a + j) mod n" "i \<le> j" "j < n" for a i j n :: nat
  proof -
    note ij = that
    obtain q where "a + j = a + i + n * q"
      using mod_eq_nat1E [OF ij(1) [symmetric]] ij(2) by auto
    with ij(3) show ?thesis by (cases q) auto
  qed
  have "(a + i) mod n = (a + j) mod n \<longleftrightarrow> i = j" if "i < n" "j < n" for a i j n :: nat
    using le [of a i n j] le [of a j n i] that by (cases "i \<le> j") auto
  then show ?thesis
    unfolding idx_path_eq_iff vpn_page [OF assms(1)] using assms(2,3) by blast
qed

section \<open>Taking and returning frames\<close>

text \<open>
  The effect of allocating operations: the frames \<open>D\<close> left the free set as data, others may have
  become tables, and nothing else changed outside the frames that were free or tables before.
\<close>

definition vm_step :: "u64 \<Rightarrow> u64 set \<Rightarrow> vmm \<Rightarrow> vmm \<Rightarrow> bool" where
  "vm_step r D s s' \<longleftrightarrow>
     vm_inv r s' \<and> cr3 s' = cr3 s \<and> next_virt s' = next_virt s \<and>
     virtual_mem_initialized s' = virtual_mem_initialized s \<and>
     managed_frames (vm_pmm s') = managed_frames (vm_pmm s) \<and>
     D \<subseteq> vm_free s \<and> D \<inter> vm_tables r s' = {} \<and>
     vm_free s' = vm_free s - vm_tables r s' - D \<and> vm_tables r s \<subseteq> vm_tables r s' \<and>
     vm_tables r s' \<subseteq> vm_tables r s \<union> vm_free s \<and>
     (\<forall>f k. f mod PAGE_SIZE = 0 \<longrightarrow> k < 512 \<longrightarrow> f \<notin> vm_free s \<longrightarrow> f \<notin> vm_tables r s \<longrightarrow>
        phys_mem s' (f + 8 * k) = phys_mem s (f + 8 * k))"

lemma vm_stepD:
  assumes "vm_step r D s s'"
  shows "vm_inv r s'" and "cr3 s' = cr3 s" and "next_virt s' = next_virt s"
    and "virtual_mem_initialized s' = virtual_mem_initialized s"
    and "managed_frames (vm_pmm s') = managed_frames (vm_pmm s)"
    and "D \<subseteq> vm_free s" and "D \<inter> vm_tables r s' = {}" and "D \<inter> vm_free s' = {}"
    and "vm_free s' = vm_free s - vm_tables r s' - D" and "vm_tables r s \<subseteq> vm_tables r s'"
    and "vm_tables r s' \<subseteq> vm_tables r s \<union> vm_free s"
    and "f mod PAGE_SIZE = 0 \<Longrightarrow> k < 512 \<Longrightarrow> f \<notin> vm_free s \<Longrightarrow> f \<notin> vm_tables r s \<Longrightarrow>
      phys_mem s' (f + 8 * k) = phys_mem s (f + 8 * k)"
  using assms by (auto simp: vm_step_def)

lemma vm_step_pt_frame: "pt_frame r s s' \<Longrightarrow> vm_step r {} s s'"
  by (simp add: vm_step_def pt_frame_def)

lemma vm_step_refl: "vm_inv r s \<Longrightarrow> vm_step r {} s s"
  by (rule vm_step_pt_frame) (rule pt_frame_refl)

lemma vm_step_trans:
  assumes st: "vm_step r D s t" and tu: "vm_step r E t u"
  shows "vm_step r (D \<union> E) s u" and "D \<inter> E = {}"
    and "f \<in> D \<Longrightarrow> k < 512 \<Longrightarrow> f mod PAGE_SIZE = 0 \<Longrightarrow> phys_mem u (f + 8 * k) = phys_mem t (f + 8 * k)"
proof -
  note s = vm_stepD [OF st] and t = vm_stepD [OF tu]
  have "D \<inter> vm_tables r u = {}" "vm_tables r u \<subseteq> vm_tables r s \<union> vm_free s" "E \<inter> vm_tables r u = {}"
    using s(7,8,9,11) t(7,11) by blast+
  moreover have "vm_free u = vm_free s - vm_tables r u - (D \<union> E)"
    using s(9) t(9,10) by blast
  moreover have "phys_mem u (f + 8 * k) = phys_mem s (f + 8 * k)"
    if "f mod PAGE_SIZE = 0" "k < 512" "f \<notin> vm_free s" "f \<notin> vm_tables r s" for f k
  proof -
    have "f \<notin> vm_free t" "f \<notin> vm_tables r t" using that s(9,11) by blast+
    then show ?thesis using that s(12) t(12) by simp
  qed
  ultimately show "vm_step r (D \<union> E) s u"
    using s t unfolding vm_step_def by auto
  show "D \<inter> E = {}" using s(8) t(6) by blast
  show "phys_mem u (f + 8 * k) = phys_mem t (f + 8 * k)"
    if "f \<in> D" "k < 512" "f mod PAGE_SIZE = 0"
    using that s(7,8) by (intro t(12)) auto
qed

text \<open>Taking a frame for data.\<close>

lemma vm_step_palloc:
  assumes inv: "vm_inv r s" and al: "palloc (vm_pmm s) = (f, p)" "f \<noteq> 0"
  shows "vm_step r {f} s (s\<lparr>vm_pmm := p\<rparr>)" and "f \<in> managed_frames (vm_pmm s)"
    and "f mod PAGE_SIZE = 0" and "f AND PTE_ADDR_MASK = f"
proof -
  note pm = pages.alloc_some [OF vm_invD(1) [OF inv] al]
  have "pt_tree (phys_mem s) r (free_frames p)"
    by (rule pt_tree_same_walks(1) [OF vm_invD(2) [OF inv]]) (auto simp: pm(2))
  then have "vm_inv r (s\<lparr>vm_pmm := p\<rparr>)"
    using inv pm by (simp add: vm_inv_def)
  then show "vm_step r {f} s (s\<lparr>vm_pmm := p\<rparr>)"
    using pm vm_invD(3) [OF inv] by (auto simp: vm_step_def)
  show "f \<in> managed_frames (vm_pmm s)" "f mod PAGE_SIZE = 0" by (rule pm)+
  then show "f AND PTE_ADDR_MASK = f" using vm_invD(4) [OF inv] by simp
qed

text \<open>Clearing a data frame.\<close>

lemma vm_step_clear:
  assumes st: "vm_step r D s t" and f: "f \<in> D" "f mod PAGE_SIZE = 0"
  defines "u \<equiv> t\<lparr>phys_mem := zero_range f PAGE_SIZE (phys_mem t)\<rparr>"
  shows "vm_step r D s u" and "translate (phys_mem u) r v = translate (phys_mem t) r v"
    and "k < 512 \<Longrightarrow> phys_mem u (f + 8 * k) = 0"
    and "k < 512 \<Longrightarrow> g \<noteq> f \<Longrightarrow> g mod PAGE_SIZE = 0 \<Longrightarrow> phys_mem u (g + 8 * k) = phys_mem t (g + 8 * k)"
proof -
  note t = vm_stepD [OF st]
  have nt: "f \<notin> vm_tables r t" using f(1) t(7) by auto
  note walk = table_at_zero_range [OF vm_invD(2) [OF t(1)] f(2) nt]
  have m: "phys_mem u = zero_range f 0x1000 (phys_mem t)" by (simp add: u_def)
  have tree: "pt_tree (phys_mem u) r (vm_free u)" "vm_tables r u = vm_tables r t"
    using pt_tree_same_walks [OF vm_invD(2) [OF t(1)] _ subset_refl, of "phys_mem u"] walk
    by (auto simp: m valid_path_def u_def)
  have inv: "vm_inv r u" using tree(1) t(1) by (simp add: vm_inv_def u_def)
  show z: "k < 512 \<Longrightarrow> phys_mem u (f + 8 * k) = 0" for k by (simp add: m f(2))
  show o: "k < 512 \<Longrightarrow> g \<noteq> f \<Longrightarrow> g mod PAGE_SIZE = 0 \<Longrightarrow> phys_mem u (g + 8 * k) = phys_mem t (g + 8 * k)"
    for g k by (simp add: m f(2))
  have "phys_mem u (g + 8 * k) = phys_mem s (g + 8 * k)"
    if "g mod PAGE_SIZE = 0" "k < 512" "g \<notin> vm_free s" "g \<notin> vm_tables r s" for g k
  proof -
    have "g \<noteq> f" using that(3) f(1) t(6) by auto
    then show ?thesis using that o t(12) by simp
  qed
  then show "vm_step r D s u"
    using t inv unfolding vm_step_def tree(2) by (simp add: u_def)
  show "translate (phys_mem u) r v = translate (phys_mem t) r v"
    using walk by (simp add: translate_def m)
qed

text \<open>Returning a data frame.\<close>

lemma vm_step_pfree:
  assumes st: "vm_step r D s t" and f: "f \<in> D" and inv: "vm_inv r s"
  shows "vm_step r (D - {f}) s (t\<lparr>vm_pmm := pfree f (vm_pmm t)\<rparr>)"
proof -
  note t = vm_stepD [OF st]
  have man: "f \<in> managed_frames (vm_pmm t)"
    using f t(5,6) pages.frames_managed [OF vm_invD(1) [OF inv]] by auto
  note rt = vm_invD(1) [OF t(1)]
  let ?u = "t\<lparr>vm_pmm := pfree f (vm_pmm t)\<rparr>"
  have fr: "vm_free ?u = insert f (vm_free t)" using pages.free_frame [OF rt man] by simp
  have mg: "managed_frames (vm_pmm ?u) = managed_frames (vm_pmm t)" using pages.free_managed [OF rt] by simp
  have "pt_tree (phys_mem t) r (insert f (vm_free t))"
    using vm_invD(2) [OF t(1)] t(7) f unfolding pt_tree_def by auto
  then have "vm_inv r ?u"
    using t(1) fr mg pages.free_inv [OF rt man] by (simp add: vm_inv_def)
  moreover have "vm_free ?u = vm_free s - vm_tables r ?u - (D - {f})"
    using t(6,7,9) f fr by auto
  ultimately show ?thesis
    using t mg by (auto simp: vm_step_def)
qed

section \<open>Enough frames\<close>

lemma map_page_total:
  assumes inv: "vm_inv r s" and room: "3 \<le> card (vm_free s)"
  shows "\<exists>s'. map_page phys virt r s = Inr s' \<and> card (vm_free s) \<le> card (vm_free s') + 3"
proof -
  let ?a = "pml4_index virt" and ?b = "pdpt_index virt" and ?c = "pd_index virt"
  have step: "\<exists>s1 t1. ensure_table msg (page_table_ptr s0 t) i s0 = Inr s1 \<and> vm_inv r s1 \<and>
      table_at (phys_mem s1) r (i # p) = Some t1 \<and> t1 = load64 s1 (page_table_ptr s0 t + 8 * i) AND PTE_ADDR_MASK \<and>
      card (vm_free s0) \<le> Suc (card (vm_free s1))"
    if "vm_inv r s0" "valid_path (i # p)" "table_at (phys_mem s0) r p = Some t" "0 < card (vm_free s0)"
    for msg s0 i p t
  proof -
    note h = that
    have "vm_free s0 \<noteq> {}" using h(4) by auto
    then obtain s1 where e: "ensure_table msg (page_table_ptr s0 t) i s0 = Inr s1"
      using ensure_table_total [OF h(1)] by blast
    note sp = ensure_table_spec [OF h(1-3) e]
    have p: "valid_path p" using h(2) by (auto simp: valid_path_def)
    then have t: "table_at (phys_mem s1) r p = Some t"
      using sp(1) h(3) unfolding pt_frame_def by (metis option.distinct(1))
    have "load64 s1 (page_table_ptr s0 t + 8 * i) = phys_mem s1 (t + 8 * i)"
      using sp(4) by (metis load_table_entry)
    then show ?thesis
      using e sp(5) pt_frame_inv [OF sp(1)] page_table_step [OF t sp(2)] by auto
  qed
  have paths: "valid_path [?a]" "valid_path [?b, ?a]" "valid_path [?c, ?b, ?a]" by simp_all
  obtain s1 t1 where 1: "ensure_table ''Out of memory creating PDPT'' (page_table_ptr s r) ?a s = Inr s1"
    "vm_inv r s1" "table_at (phys_mem s1) r [?a] = Some t1"
    "t1 = load64 s1 (page_table_ptr s r + 8 * ?a) AND PTE_ADDR_MASK" "card (vm_free s) \<le> Suc (card (vm_free s1))"
    using step [OF inv paths(1) table_at.simps(1)] room by force
  obtain s2 t2 where 2: "ensure_table ''Out of memory creating PD'' (page_table_ptr s1 t1) ?b s1 = Inr s2"
    "vm_inv r s2" "table_at (phys_mem s2) r [?b, ?a] = Some t2"
    "t2 = load64 s2 (page_table_ptr s1 t1 + 8 * ?b) AND PTE_ADDR_MASK" "card (vm_free s1) \<le> Suc (card (vm_free s2))"
    using step [OF 1(2) paths(2) 1(3)] room 1(5) by force
  obtain s3 t3 where 3: "ensure_table ''Out of memory creating PT'' (page_table_ptr s2 t2) ?c s2 = Inr s3"
    "t3 = load64 s3 (page_table_ptr s2 t2 + 8 * ?c) AND PTE_ADDR_MASK" "card (vm_free s2) \<le> Suc (card (vm_free s3))"
    using step [OF 2(2) paths(3) 2(3)] room 1(5) 2(5) by force
  show ?thesis
    using 1 2 3 by (simp add: map_page_def Let_def store64_def del: load_table_entry)
qed

section \<open>The loop of \<open>vallocs\<close>\<close>

text \<open>The state after \<open>i\<close> pages, started in \<open>s0\<close>: page \<open>j\<close> of the run is mapped to the frame \<open>fs ! j\<close>.\<close>

definition run_map :: "(u64 \<Rightarrow> u64 option) \<Rightarrow> u64 \<Rightarrow> u64 list \<Rightarrow> nat \<Rightarrow> (u64 \<Rightarrow> u64 option) \<Rightarrow> bool" where
  "run_map T start fs k T' \<longleftrightarrow>
     (\<forall>v. (\<forall>j<length fs. idx_path v \<noteq> idx_path (start + word_of_nat j * PAGE_SIZE)) \<longrightarrow> T' v = T v) \<and>
     (\<forall>v. \<forall>j<length fs. idx_path v = idx_path (start + word_of_nat j * PAGE_SIZE) \<longrightarrow>
        T' v = (if j < k then None else Some (fs ! j)))"

definition vallocs_state :: "bool \<Rightarrow> u64 \<Rightarrow> u64 \<Rightarrow> vmm \<Rightarrow> u64 list \<Rightarrow> vmm \<Rightarrow> bool" where
  "vallocs_state zero r start s0 fs s \<longleftrightarrow>
     vm_step r (set fs) s0 s \<and> distinct fs \<and>
     run_map (translate (phys_mem s0) r) start fs 0 (translate (phys_mem s) r) \<and>
     (zero \<longrightarrow> (\<forall>f \<in> set fs. \<forall>k<512. phys_mem s (f + 8 * k) = 0))"

lemma data_frame:
  assumes "vm_inv r s" and "vm_step r D s t" and "f \<in> D"
  shows "f mod PAGE_SIZE = 0" and "f \<noteq> 0" and "f AND PTE_ADDR_MASK = f" and "f \<in> managed_frames (vm_pmm s)"
  using assms pages.frames_managed [of "vm_pmm s"] pages.managed_page [of "vm_pmm s" f] vm_invD(1,4) [of r s] vm_stepD(6)
  by blast+

lemma vallocs_body:
  assumes inv: "vm_inv r s" and al: "palloc (vm_pmm s) = (f, p)" "f \<noteq> 0"
    and r: "r = cr3 s AND PTE_ADDR_MASK"
    and mp: "map_page f virt r (s\<lparr>vm_pmm := p\<rparr>) = Inr s2"
    and ze: "(if zero then memset_virt_page virt s2 else Inr s2) = Inr s3"
  shows "vm_step r {f} s s3"
    and "translate (phys_mem s3) r v = (if idx_path v = idx_path virt then Some f else translate (phys_mem s) r v)"
    and "zero \<Longrightarrow> k < 512 \<Longrightarrow> phys_mem s3 (f + 8 * k) = 0"
proof -
  note a = vm_step_palloc [OF inv al]
  note m = map_page_spec [OF vm_stepD(1) [OF a(1)] mp]
  have s2: "vm_step r {f} s s2"
    using vm_step_trans(1) [OF a(1) vm_step_pt_frame [OF m(1)]] by simp
  have tr2: "translate (phys_mem s2) r v = (if idx_path v = idx_path virt then Some f else translate (phys_mem s) r v)" for v
    using m(2) [of v] a(4) by simp
  have "vm_step r {f} s s3 \<and>
     translate (phys_mem s3) r v = (if idx_path v = idx_path virt then Some f else translate (phys_mem s) r v) \<and>
     (zero \<longrightarrow> k < 512 \<longrightarrow> phys_mem s3 (f + 8 * k) = 0)"
  proof (cases zero)
    case False
    then show ?thesis using s2 tr2 ze by simp
  next
    case True
    have "cr3 s2 AND PTE_ADDR_MASK = r" using vm_stepD(2) [OF s2] r by simp
    then have "s3 = s2\<lparr>phys_mem := zero_range f PAGE_SIZE (phys_mem s2)\<rparr>"
      using ze True tr2 [of virt] by (simp add: memset_virt_page_def)
    then show ?thesis
      using vm_step_clear [OF s2 singletonI a(3)] tr2 by (simp del: fun_upd_apply)
  qed
  then show "vm_step r {f} s s3"
    "translate (phys_mem s3) r v = (if idx_path v = idx_path virt then Some f else translate (phys_mem s) r v)"
    "zero \<Longrightarrow> k < 512 \<Longrightarrow> phys_mem s3 (f + 8 * k) = 0" by blast+
qed

lemma vallocs_state_step:
  assumes st: "vallocs_state zero r start s0 fs s" and inv0: "vm_inv r s0"
    and al: "palloc (vm_pmm s) = (f, p)" "f \<noteq> 0" and r: "r = cr3 s0 AND PTE_ADDR_MASK"
    and mp: "map_page f (start + word_of_nat (length fs) * PAGE_SIZE) r (s\<lparr>vm_pmm := p\<rparr>) = Inr s2"
    and ze: "(if zero then memset_virt_page (start + word_of_nat (length fs) * PAGE_SIZE) s2 else Inr s2) = Inr s3"
    and al0: "start mod PAGE_SIZE = 0" and len: "length fs < 68719476736"
  shows "vallocs_state zero r start s0 (fs @ [f]) s3"
proof -
  let ?pg = "\<lambda>j. start + word_of_nat j * PAGE_SIZE"
  have s: "vm_step r (set fs) s0 s" "distinct fs"
    and rm: "run_map (translate (phys_mem s0) r) start fs 0 (translate (phys_mem s) r)"
    and z: "zero \<Longrightarrow> g \<in> set fs \<Longrightarrow> k < 512 \<Longrightarrow> phys_mem s (g + 8 * k) = 0" for g k
    using st by (auto simp: vallocs_state_def)
  have rs: "r = cr3 s AND PTE_ADDR_MASK" using r vm_stepD(2) [OF s(1)] by simp
  note b = vallocs_body [OF vm_stepD(1) [OF s(1)] al rs mp ze]
  note tr = vm_step_trans [OF s(1) b(1)]
  have "run_map (translate (phys_mem s0) r) start (fs @ [f]) 0 (translate (phys_mem s3) r)"
    unfolding run_map_def
  proof (intro conjI allI impI)
    fix v assume "\<forall>j<length (fs @ [f]). idx_path v \<noteq> idx_path (?pg j)"
    then show "translate (phys_mem s3) r v = translate (phys_mem s0) r v"
      using rm b(2) [of v] by (simp add: run_map_def less_Suc_eq)
  next
    fix v j assume j: "j < length (fs @ [f])" "idx_path v = idx_path (?pg j)"
    have "idx_path (?pg j) = idx_path (?pg (length fs)) \<longleftrightarrow> j = length fs"
      by (rule run_pages_distinct) (use al0 len j in auto)
    then show "translate (phys_mem s3) r v = (if j < 0 then None else Some ((fs @ [f]) ! j))"
      using rm b(2) [of v] j by (auto simp: run_map_def nth_append less_Suc_eq)
  qed
  moreover have "phys_mem s3 (g + 8 * k) = 0" if "zero" "g \<in> set (fs @ [f])" "k < 512" for g k
  proof (cases "g = f")
    case True
    then show ?thesis using b(3) that by simp
  next
    case False
    then have "g \<in> set fs" using that(2) by simp
    then show ?thesis
      using tr(3) [OF _ that(3) data_frame(1) [OF inv0 s(1)]] z that by simp
  qed
  ultimately show ?thesis
    using tr(1,2) s(2) by (auto simp: vallocs_state_def)
qed

section \<open>Returning a run of pages\<close>

lemma vfrees_run:
  assumes st: "vm_step r (set fs) s0 s" "distinct fs" and inv0: "vm_inv r s0"
    and rm: "run_map T start fs 0 (translate (phys_mem s) r)"
    and r: "r = cr3 s0 AND PTE_ADDR_MASK" and al0: "start mod PAGE_SIZE = 0"
    and len: "length fs \<le> 68719476736"
  shows "vm_step r {} s0 (vfrees start (word_of_nat (length fs)) s)"
    and "run_map T start fs (length fs) (translate (phys_mem (vfrees start (word_of_nat (length fs)) s)) r)"
    and "vm_tables r (vfrees start (word_of_nat (length fs)) s) = vm_tables r s"
proof -
  let ?n = "length fs" and ?pg = "\<lambda>j. start + word_of_nat j * PAGE_SIZE"
  have un: "unat (word_of_nat ?n :: u64) = ?n" using len by (simp add: unat_of_nat_u64)
  have rs: "cr3 s AND PTE_ADDR_MASK = r" using r vm_stepD(2) [OF st(1)] by simp
  define I where "I j t \<longleftrightarrow> vm_step r (set (drop j fs)) s0 t \<and>
    run_map T start fs j (translate (phys_mem t) r) \<and> vm_tables r t = vm_tables r s" for j t
  have step: "I (Suc j) (vfrees_step r (start + word_of_nat j * PAGE_SIZE) t)"
    if j: "j < ?n" and I: "I j t" for j t
  proof -
    obtain f t1 where u: "unmap_page (?pg j) r t = (f, t1)" by force
    have t: "vm_step r (set (drop j fs)) s0 t" "run_map T start fs j (translate (phys_mem t) r)"
      "vm_tables r t = vm_tables r s" using I by (auto simp: I_def)
    note us = unmap_page_spec [OF vm_stepD(1) [OF t(1)] u]
    have "translate (phys_mem t) r (?pg j) = Some (fs ! j)"
      using t(2) j by (auto simp: run_map_def)
    then have f: "f = fs ! j" by (rule us(5))
    have drop: "drop j fs = f # drop (Suc j) fs" using j f by (simp add: Cons_nth_drop_Suc)
    have t1: "vm_step r (set (drop j fs)) s0 t1"
      using vm_step_trans(1) [OF t(1) vm_step_pt_frame [OF us(1)]] by simp
    have fd: "f \<in> set (drop j fs)" by (simp add: drop)
    have nz: "f \<noteq> 0" by (rule data_frame(2) [OF inv0 t1 fd])
    let ?u = "t1\<lparr>vm_pmm := pfree f (vm_pmm t1)\<rparr>"
    have "distinct (drop j fs)" using st(2) by simp
    then have "set (drop j fs) - {f} = set (drop (Suc j) fs)" unfolding drop by auto
    then have su: "vm_step r (set (drop (Suc j) fs)) s0 ?u"
      using vm_step_pfree [OF t1 fd inv0] by simp
    have "run_map T start fs (Suc j) (translate (phys_mem ?u) r)"
      unfolding run_map_def
    proof (intro conjI allI impI)
      fix v assume *: "\<forall>i<?n. idx_path v \<noteq> idx_path (?pg i)"
      then show "translate (phys_mem ?u) r v = T v"
        using t(2) us(4) [of v] j by (simp add: run_map_def)
    next
      fix v i assume i: "i < ?n" "idx_path v = idx_path (?pg i)"
      have "idx_path (?pg i) = idx_path (?pg j) \<longleftrightarrow> i = j"
        by (rule run_pages_distinct) (use al0 len i j in auto)
      then show "translate (phys_mem ?u) r v = (if i < Suc j then None else Some (fs ! i))"
        using t(2) us(4) [of v] i by (auto simp: run_map_def less_Suc_eq)
    qed
    then show ?thesis
      using su us(3) t(3) u nz by (simp add: I_def vfrees_step_def)
  qed
  have "I 0 s" using st(1) rm by (simp add: I_def)
  then have "I (unat (word_of_nat ?n :: u64)) (for_u64 (word_of_nat ?n) (\<lambda>i. vfrees_step r (start + i * PAGE_SIZE)) s)"
    by (rule for_u64_invariant) (use step un in auto)
  moreover have "vfrees start (word_of_nat ?n) s =
      for_u64 (word_of_nat ?n) (\<lambda>i. vfrees_step r (start + i * PAGE_SIZE)) s"
    using rs by (simp add: vfrees_def Let_def)
  ultimately show "vm_step r {} s0 (vfrees start (word_of_nat ?n) s)"
    "run_map T start fs ?n (translate (phys_mem (vfrees start (word_of_nat ?n) s)) r)"
    "vm_tables r (vfrees start (word_of_nat ?n) s) = vm_tables r s"
    using un by (simp_all add: I_def)
qed

lemma vallocs_loop_spec:
  assumes st: "vallocs_state zero r start s0 fs s" and inv0: "vm_inv r s0"
    and r: "r = cr3 s0 AND PTE_ADDR_MASK" and al0: "start mod PAGE_SIZE = 0"
    and len: "length fs + n \<le> 68719476736"
    and run: "vallocs_loop zero r start n (length fs) s = Inr (ok, s')"
  shows "if ok then (\<exists>gs. length gs = length fs + n \<and> vallocs_state zero r start s0 gs s')
    else (\<exists>gs. length gs < length fs + n \<and> vm_step r {} s0 s' \<and>
      run_map (translate (phys_mem s0) r) start gs (length gs) (translate (phys_mem s') r) \<and>
      vm_free s0 = set gs \<union> (vm_tables r s' - vm_tables r s0))"
  using st len run
proof (induction n arbitrary: fs s)
  case 0
  then show ?case by auto
next
  case (Suc n)
  obtain f p where al: "palloc (vm_pmm s) = (f, p)" by force
  have s: "vm_step r (set fs) s0 s" "distinct fs"
    "run_map (translate (phys_mem s0) r) start fs 0 (translate (phys_mem s) r)"
    using Suc.prems(1) by (auto simp: vallocs_state_def)
  show ?case
  proof (cases "f = 0")
    case True
    note none = pages.alloc_none [OF vm_invD(1) [OF vm_stepD(1) [OF s(1)]] al [unfolded True]]
    have "ok = False" "s' = vfrees start (word_of_nat (length fs)) s"
      using Suc.prems(3) al True none(1) by simp_all
    moreover have "length fs \<le> 68719476736" using Suc.prems(2) by simp
    note vf = vfrees_run [OF s(1,2) inv0 s(3) r al0 this]
    moreover have "vm_free s0 = set fs \<union> (vm_tables r s - vm_tables r s0)"
      using none(2) vm_stepD(6,9,11) [OF s(1)] vm_invD(3) [OF inv0] by blast
    ultimately show ?thesis by (auto intro!: exI [of _ fs])
  next
    case False
    let ?v = "start + word_of_nat (length fs) * PAGE_SIZE"
    obtain s2 s3 where mp: "map_page f ?v r (s\<lparr>vm_pmm := p\<rparr>) = Inr s2"
      and ze: "(if zero then memset_virt_page ?v s2 else Inr s2) = Inr s3"
      and rest: "vallocs_loop zero r start n (Suc (length fs)) s3 = Inr (ok, s')"
      using Suc.prems(3) al False by (auto simp: bind_result_Inr_iff Let_def)
    have len: "length fs < 68719476736" using Suc.prems(2) by simp
    have "vallocs_state zero r start s0 (fs @ [f]) s3"
      by (rule vallocs_state_step [OF Suc.prems(1) inv0 al False r mp ze al0 len])
    from Suc.IH [OF this] Suc.prems(2) rest show ?thesis
      by (cases ok) (simp_all del: bind_result_simps)
  qed
qed

lemma vallocs_loop_total:
  assumes "vm_inv r s" and "r = cr3 s AND PTE_ADDR_MASK" and "4 * n \<le> card (vm_free s)"
  shows "\<exists>s'. vallocs_loop zero r start n i s = Inr (True, s')"
  using assms
proof (induction n arbitrary: i s)
  case (Suc n)
  obtain f p where al: "palloc (vm_pmm s) = (f, p)" by force
  have "vm_free s \<noteq> {}" using Suc.prems(3) by auto
  then have nz: "f \<noteq> 0" using pages.alloc_zero_iff [OF vm_invD(1) [OF Suc.prems(1)]] al by auto
  note a = vm_step_palloc [OF Suc.prems(1) al nz]
  let ?v = "start + word_of_nat i * PAGE_SIZE" and ?s1 = "s\<lparr>vm_pmm := p\<rparr>"
  have "vm_free ?s1 = vm_free s - {f}" using pages.alloc_some(2) [OF vm_invD(1) [OF Suc.prems(1)] al nz] by simp
  then have c1: "card (vm_free s) = Suc (card (vm_free ?s1))"
    using Suc.prems(3) vm_stepD(6) [OF a(1)] by (simp add: card_Suc_Diff1 card_gt_0_iff)
  have "3 \<le> card (vm_free ?s1)" using c1 Suc.prems(3) by simp
  from map_page_total [OF vm_stepD(1) [OF a(1)] this, of f ?v] obtain s2 where
    mp: "map_page f ?v r ?s1 = Inr s2" and c2: "card (vm_free ?s1) \<le> card (vm_free s2) + 3" by blast
  note m = map_page_spec [OF vm_stepD(1) [OF a(1)] mp]
  have cr: "r = cr3 s2 AND PTE_ADDR_MASK" using m(1) Suc.prems(2) by (simp add: pt_frame_def)
  define s3 where "s3 = (if zero then s2\<lparr>phys_mem := zero_range f PAGE_SIZE (phys_mem s2)\<rparr> else s2)"
  have ze: "(if zero then memset_virt_page ?v s2 else Inr s2) = Inr s3"
    using m(2) [of ?v] cr a(4) by (simp add: memset_virt_page_def s3_def)
  note b = vallocs_body [OF Suc.prems(1) al nz Suc.prems(2) mp ze]
  have "vm_free s3 = vm_free s2" by (simp add: s3_def)
  then have "4 * n \<le> card (vm_free s3)" using c1 c2 Suc.prems(3) by simp
  from Suc.IH [OF vm_stepD(1) [OF b(1)] _ this] obtain s' where
    "vallocs_loop zero r start n (Suc i) s3 = Inr (True, s')"
    using vm_stepD(2) [OF b(1)] Suc.prems(2) by auto
  then show ?case using al nz mp ze by simp
qed simp

end
