(* ===== verification/Vmm_Init.thy ===== *)
theory Vmm_Init
  imports Vmm
begin

unbundle bit_operations_syntax

text \<open>
  \<open>init_vmm\<close> of \<open>kernel/arch/x86_64/mm/vmm.c\<close>: building the kernel's page tables and switching to
  them. A range of mapped addresses has an abstract counterpart, \<open>range_override\<close>, a map from
  virtual pages to frames; \<open>map_range\<close> refines it, and the tables \<open>init_vmm\<close> leaves in force
  translate as the overrides of its ranges one after the other.

  The registers and \<open>cpuid\<close> leaves \<open>init_vmm\<close> reads are the record \<open>cpu_env\<close>.
\<close>

section \<open>The code\<close>

record cpu_env =
  read_rsp :: u64
  read_rip :: u64
  cpuid_1_edx :: u32
  cpuid_1_ecx :: u32
  msr_1B :: u64

text \<open>
  The first four tables; the loop fills the page table of the first 2 MiB. The code addresses the
  frames directly, as \<open>page_table_ptr\<close> does while \<open>virtual_mem_initialized\<close> is false.
\<close>

definition init_vmm_tables :: "vmm \<Rightarrow> (u64 \<times> vmm) result" where
  "init_vmm_tables s =
     (let (pml4_phys, p1) = palloc (vm_pmm s);
          (pdpt_phys, p2) = palloc p1;
          (pd_phys, p3) = palloc p2;
          (pt_phys, p4) = palloc p3;
          s1 = s\<lparr>vm_pmm := p4\<rparr>
      in if pml4_phys = 0 \<or> pdpt_phys = 0 \<or> pd_phys = 0 \<or> pt_phys = 0
         then Inl (Kernel_Panic ''Out of memory creating VMM'')
         else
           let s2 = memset_zero pml4_phys PAGE_SIZE s1;
               s3 = memset_zero pdpt_phys PAGE_SIZE s2;
               s4 = memset_zero pd_phys PAGE_SIZE s3;
               s5 = memset_zero pt_phys PAGE_SIZE s4;
               s6 = store64 pml4_phys ((pdpt_phys OR PTE_PRESENT) OR PTE_RW) s5;
               s7 = store64 pdpt_phys ((pd_phys OR PTE_PRESENT) OR PTE_RW) s6;
               s8 = store64 pd_phys ((pt_phys OR PTE_PRESENT) OR PTE_RW) s7
           in Inr (pml4_phys,
                for_u64 512 (\<lambda>i. store64 (pt_phys + 8 * i) (((i * PAGE_SIZE) OR PTE_PRESENT) OR PTE_RW)) s8))"

definition init_vmm_kernel_maps :: "cpu_env \<Rightarrow> BootInfo \<Rightarrow> u64 \<Rightarrow> vmm \<Rightarrow> vmm result option" where
  "init_vmm_kernel_maps env boot pml4_phys s =
     (let stack_page = read_rsp env AND NOT (PAGE_SIZE - 1);
          rip_page = read_rip env AND NOT (PAGE_SIZE - 1)
      in bind_loop (map_range (kernel_physical_address_start boot) (kernel_virtual_address boot)
                      (kernel_size boot) pml4_phys s) (\<lambda>s1.
         bind_loop (map_range (stack_page - 16 * PAGE_SIZE) (stack_page - 16 * PAGE_SIZE)
                      (32 * PAGE_SIZE) pml4_phys s1) (\<lambda>s2.
         bind_loop (map_range (rip_page - PAGE_SIZE) (rip_page - PAGE_SIZE)
                      (PAGE_SIZE * 10) pml4_phys s2) (\<lambda>s3.
         map_range (framebuffer_base boot) (framebuffer_base boot) (framebuffer_size boot) pml4_phys s3))))"

definition init_vmm_windows :: "BootInfo \<Rightarrow> u64 \<Rightarrow> vmm \<Rightarrow> vmm result option" where
  "init_vmm_windows boot pml4_phys s =
     bind_loop (map_range 0 PASSTHRU_BASE (max_physical_address (vm_pmm s)) pml4_phys s) (\<lambda>s1.
     map_range (initramfs_address boot) (initramfs_address boot) (initramfs_size boot) pml4_phys s1)"

text \<open>The body of the loop over the memory map: the inner switch repeats the outer test.\<close>

definition init_vmm_desc :: "u64 \<Rightarrow> EFI_MEMORY_DESCRIPTOR \<Rightarrow> vmm \<Rightarrow> vmm result option" where
  "init_vmm_desc pml4_phys d s =
     (if conventional d
      then map_range (PhysicalStart d) (PhysicalStart d) (NumberOfPages d * PAGE_SIZE) pml4_phys s
      else Some (Inr s))"

definition init_vmm_apic ::
  "cpu_env \<Rightarrow> (u64 \<Rightarrow> EFI_MEMORY_DESCRIPTOR) \<Rightarrow> BootInfo \<Rightarrow> u64 \<Rightarrow> vmm \<Rightarrow> vmm result option" where
  "init_vmm_apic env descs boot pml4_phys s =
     (if cpuid_1_edx env AND push_bit 9 1 \<noteq> 0 then
        if memory_descriptor_size boot = 0 then Some (Inl (Kernel_Panic ''DIVIDE BY ZERO'')) else
        let entries = memory_map_size boot div memory_descriptor_size boot;
            apic_page = drop_bit 12 (msr_1B env) AND 0xFFFFF;
            apic_base = push_bit 12 apic_page
        in bind_loop
             (fold (\<lambda>i r. bind_loop r (init_vmm_desc pml4_phys
                (descs (memory_map boot + word_of_nat i * memory_descriptor_size boot))))
                [0..<unat entries] (Some (Inr s)))
             (\<lambda>s1. map_range apic_base apic_base 0x4000 pml4_phys s1)
      else Some (Inr s))"

definition init_vmm_other :: "u64 \<Rightarrow> BootInfo \<Rightarrow> u64 \<Rightarrow> vmm \<Rightarrow> vmm result option" where
  "init_vmm_other boot_addr boot pml4_phys s =
     (let boot_page = boot_addr AND NOT (PAGE_SIZE - 1);
          map_page_start = memory_map boot AND NOT (PAGE_SIZE - 1)
      in bind_loop (map_range boot_page boot_page PAGE_SIZE pml4_phys s) (\<lambda>s1.
         map_range map_page_start map_page_start
           (memory_map_size boot + (memory_map boot AND (PAGE_SIZE - 1))) pml4_phys s1))"

definition init_vmm ::
  "cpu_env \<Rightarrow> (u64 \<Rightarrow> EFI_MEMORY_DESCRIPTOR) \<Rightarrow> u64 \<Rightarrow> BootInfo \<Rightarrow> vmm \<Rightarrow> vmm result option" where
  "init_vmm env descs boot_addr boot s =
     bind_loop (Some (init_vmm_tables s)) (\<lambda>(pml4_phys, s1).
     bind_loop (init_vmm_kernel_maps env boot pml4_phys s1) (\<lambda>s2.
     bind_loop (init_vmm_windows boot pml4_phys s2) (\<lambda>s3.
     bind_loop (init_vmm_apic env descs boot pml4_phys s3) (\<lambda>s4.
     bind_loop (init_vmm_other boot_addr boot pml4_phys s4) (\<lambda>s5.
     Some (Inr (s5\<lparr>virtual_mem_initialized := True, cr3 := pml4_phys\<rparr>)))))))"

section \<open>Ranges\<close>

text \<open>
  The abstract effect of mapping a range: the pages of the range, counted modulo the $2^{36}$
  pages of an address space, go to consecutive frames; all other pages keep their frame.
\<close>

definition range_override ::
  "u64 \<Rightarrow> u64 \<Rightarrow> nat \<Rightarrow> (u64 \<Rightarrow> u64 option) \<Rightarrow> (u64 \<Rightarrow> u64 option)" where
  "range_override phys virt n T = (\<lambda>v.
     let d = (vpn v + 68719476736 - vpn virt) mod 68719476736
     in if d < n then Some (((phys AND PAGE_MASK) + word_of_nat d * PAGE_SIZE) AND PTE_ADDR_MASK)
        else T v)"

definition range_pages :: "u64 \<Rightarrow> u64 \<Rightarrow> nat" where
  "range_pages phys sz = (unat (sz + (phys - (phys AND PAGE_MASK))) + 4095) div 4096"

lemma vpn_less [simp]: "vpn v < 68719476736"
  by (simp add: vpn_def)

lemma page_mask_eq: "PAGE_MASK = push_bit 12 (mask 52)"
  by (simp add: mask_eq_exp_minus_1 push_bit_eq_mult)

lemma page_mask_aligned [simp]: "(a AND PAGE_MASK) mod PAGE_SIZE = 0"
  unfolding mod_page_eq page_mask_eq by (simp add: bit_simps)

lemma vpn_page_mask [simp]: "vpn (a AND PAGE_MASK) = vpn a"
proof -
  have "drop_bit 12 (a AND PAGE_MASK) = drop_bit 12 a"
    unfolding page_mask_eq
    by (rule bit_word_eqI) (use bit_imp_le_length [where 'a = 64] in \<open>fastforce simp: bit_simps\<close>)
  then have "drop_bit 12 (unat (a AND PAGE_MASK)) = drop_bit 12 (unat a)"
    by (metis unat_drop_bit_eq)
  then show ?thesis by (simp add: vpn_def drop_bit_eq_div)
qed

lemma vpn_offset:
  assumes "start mod PAGE_SIZE = 0" and "j < 68719476736"
  shows "idx_path v = idx_path (start + word_of_nat j * PAGE_SIZE) \<longleftrightarrow>
    j = (vpn v + 68719476736 - vpn start) mod 68719476736"
proof -
  have "a = (b + j) mod n \<longleftrightarrow> j = (a + n - b) mod n" if "a < n" "b < n" "j < n" for a b j n :: nat
    using that by (cases "b + j < n"; cases "a < b") (auto simp: mod_if le_mod_geq)
  then show ?thesis
    unfolding idx_path_eq_iff vpn_page [OF assms(1)] using assms(2) by simp
qed

lemma run_map_override:
  assumes "run_map T (virt AND PAGE_MASK) fs 0 T'" and "length fs \<le> 68719476736"
    and "\<And>i. i < length fs \<Longrightarrow> fs ! i = ((phys AND PAGE_MASK) + word_of_nat i * PAGE_SIZE) AND PTE_ADDR_MASK"
  shows "T' = range_override phys virt (length fs) T"
proof (rule ext)
  fix v
  let ?d = "(vpn v + 68719476736 - vpn virt) mod 68719476736"
  have path: "idx_path v = idx_path ((virt AND PAGE_MASK) + word_of_nat j * PAGE_SIZE) \<longleftrightarrow> j = ?d"
    if "j < length fs" for j
    using vpn_offset [of "virt AND PAGE_MASK" j v] that assms(2) by simp
  show "T' v = range_override phys virt (length fs) T v"
  proof (cases "?d < length fs")
    case True
    then have "T' v = Some (fs ! ?d)"
      using assms(1) path [OF True] unfolding run_map_def by (metis less_zeroE)
    then show ?thesis using True assms(3) by (simp add: range_override_def Let_def)
  next
    case False
    then have "T' v = T v"
      using assms(1) path unfolding run_map_def by metis
    then show ?thesis using False by (simp add: range_override_def Let_def)
  qed
qed

section \<open>\<open>map_range\<close> ends and does what it says\<close>

definition map_pages :: "u64 \<Rightarrow> u64 \<Rightarrow> u64 \<Rightarrow> nat \<Rightarrow> vmm \<Rightarrow> vmm result" where
  "map_pages phys_page virt_page r n s = for_result n
     (\<lambda>i. map_page (phys_page + word_of_nat i * PAGE_SIZE) (virt_page + word_of_nat i * PAGE_SIZE) r) s"

lemma fold_bind_Inl: "fold (\<lambda>i r. bind_result r (f i)) xs (Inl h) = Inl h"
  by (induction xs) simp_all

lemma map_range_loop_fold:
  assumes size: "unat ms \<le> 18446744073709547520" and i: "i \<le> (unat ms + 4095) div 4096"
  shows "map_range_loop pp vp ms r (word_of_nat i * PAGE_SIZE) s =
    Some (fold (\<lambda>i r'. bind_result r' (map_page (pp + word_of_nat i * PAGE_SIZE) (vp + word_of_nat i * PAGE_SIZE) r))
      [i..<(unat ms + 4095) div 4096] (Inr s))"
  using i
proof (induction "(unat ms + 4095) div 4096 - i" arbitrary: i s)
  case 0
  then have "unat ms \<le> i * 4096" "i * 4096 < 18446744073709551616" using size by linarith+
  then have "\<not> word_of_nat i * PAGE_SIZE < ms"
    by (simp add: word_less_nat_alt unat_mult_u64 unat_of_nat_u64)
  with 0 show ?case by (simp add: map_range_loop.simps [of pp vp ms])
next
  case (Suc x)
  then have lt: "i < (unat ms + 4095) div 4096" by linarith
  then have "i * 4096 < unat ms" "i < 18446744073709551616" using size by linarith+
  then have less: "word_of_nat i * PAGE_SIZE < ms"
    using u64_less_wrap [of ms] by (simp add: word_less_nat_alt unat_mult_u64 unat_of_nat_u64)
  have nxt: "word_of_nat i * PAGE_SIZE + PAGE_SIZE = (word_of_nat (Suc i) * PAGE_SIZE :: u64)"
    by (simp add: algebra_simps)
  have IH: "map_range_loop pp vp ms r (word_of_nat (Suc i) * PAGE_SIZE) s' =
    Some (fold (\<lambda>i r'. bind_result r' (map_page (pp + word_of_nat i * PAGE_SIZE) (vp + word_of_nat i * PAGE_SIZE) r))
      [Suc i..<(unat ms + 4095) div 4096] (Inr s'))" for s'
    by (rule Suc.hyps(1)) (use Suc.hyps(2) lt in linarith)+
  show ?case
    unfolding upt_conv_Cons [OF lt]
    by (subst map_range_loop.simps) (use less in \<open>auto simp: nxt IH fold_bind_Inl split: sum.split simp del: of_nat_Suc\<close>)
qed

lemma map_range_eq:
  assumes "unat (sz + (phys - (phys AND PAGE_MASK))) \<le> 18446744073709547520"
  shows "map_range phys virt sz r s =
    Some (map_pages (phys AND PAGE_MASK) (virt AND PAGE_MASK) r (range_pages phys sz) s)"
  using map_range_loop_fold [OF assms, of 0]
  by (simp add: map_range_def Let_def map_pages_def for_result_def range_pages_def)

lemma map_pages_spec:
  assumes inv: "vm_inv r s" and n: "n \<le> 68719476736"
    and run: "map_pages (phys AND PAGE_MASK) (virt AND PAGE_MASK) r n s = Inr s'"
  shows "pt_frame r s s'"
    and "translate (phys_mem s') r = range_override phys virt n (translate (phys_mem s) r)"
proof -
  let ?pp = "phys AND PAGE_MASK" and ?vp = "virt AND PAGE_MASK"
  let ?f = "\<lambda>i. (?pp + word_of_nat i * PAGE_SIZE) AND PTE_ADDR_MASK"
  define I where "I j t \<longleftrightarrow> j \<le> n \<longrightarrow> pt_frame r s t \<and>
    run_map (translate (phys_mem s) r) ?vp (map ?f [0..<j]) 0 (translate (phys_mem t) r)" for j t
  have "I n s'"
  proof (rule for_result_invariant [OF run [unfolded map_pages_def], of I])
    show "I 0 s" by (simp add: I_def pt_frame_refl [OF inv] run_map_def)
  next
    fix j t t' assume j: "j < n" and I: "I j t"
      and st: "map_page (?pp + word_of_nat j * PAGE_SIZE) (?vp + word_of_nat j * PAGE_SIZE) r t = Inr t'"
    have t: "pt_frame r s t"
      and rm: "run_map (translate (phys_mem s) r) ?vp (map ?f [0..<j]) 0 (translate (phys_mem t) r)"
      using I j by (auto simp: I_def)
    note m = map_page_spec [OF pt_frame_inv [OF t] st]
    have "run_map (translate (phys_mem s) r) ?vp (map ?f [0..<Suc j]) 0 (translate (phys_mem t') r)"
      unfolding run_map_def
    proof (intro conjI allI impI)
      fix v assume "\<forall>i<length (map ?f [0..<Suc j]). idx_path v \<noteq> idx_path (?vp + word_of_nat i * PAGE_SIZE)"
      then show "translate (phys_mem t') r v = translate (phys_mem s) r v"
        using rm m(2) [of v] by (simp add: run_map_def less_Suc_eq)
    next
      fix v i assume i: "i < length (map ?f [0..<Suc j])" "idx_path v = idx_path (?vp + word_of_nat i * PAGE_SIZE)"
      have "idx_path (?vp + word_of_nat i * PAGE_SIZE) = idx_path (?vp + word_of_nat j * PAGE_SIZE) \<longleftrightarrow> i = j"
        by (rule run_pages_distinct) (use i j n in auto)
      then show "translate (phys_mem t') r v = (if i < 0 then None else Some (map ?f [0..<Suc j] ! i))"
        using rm m(2) [of v] i by (auto simp: run_map_def less_Suc_eq nth_append)
    qed
    then show "I (Suc j) t'" using pt_frame_trans [OF t m(1)] by (simp add: I_def)
  qed
  then have "pt_frame r s s'" 
    and rm: "run_map (translate (phys_mem s) r) ?vp (map ?f [0..<n]) 0 (translate (phys_mem s') r)"
    by (auto simp: I_def)
  then show "pt_frame r s s'" by simp
  show "translate (phys_mem s') r = range_override phys virt n (translate (phys_mem s) r)"
    using run_map_override [OF rm, of phys] n by simp
qed

section \<open>The first tables\<close>

lemma zero_range_upd:
  "\<not> a - z < n \<Longrightarrow> zero_range z n (m(a := e)) = (zero_range z n m)(a := e)"
  by (auto simp: zero_range_def fun_eq_iff)

lemma entry_unmasked:
  assumes "a mod PAGE_SIZE = 0" and "a < 0x10000000000000"
  shows "pte_next ((a OR PTE_PRESENT) OR PTE_RW) = Some a"
  using pte_next_entry [of a] addr_mask_id [OF assms] by simp

lemma fresh_root:
  fixes m :: "u64 \<Rightarrow> u64"
  assumes "r mod PAGE_SIZE = 0" and "r \<notin> F"
  defines "m0 \<equiv> zero_range r 0x1000 m"
  shows "pt_tree m0 r F" and "valid_idx p \<Longrightarrow> table_at m0 r p = (if p = [] then Some r else None)"
proof -
  show walk: "valid_idx p \<Longrightarrow> table_at m0 r p = (if p = [] then Some r else None)" for p
    by (induction p) (auto simp: m0_def assms(1))
  then have *: "valid_path p \<Longrightarrow> table_at m0 r p = (if p = [] then Some r else None)" for p
    by (simp add: valid_path_def)
  then have "tables m0 r = {r}"
    unfolding tables_def by (auto simp: * cong: conj_cong intro: exI [of _ "[]"] split: if_splits)
  with assms(1,2) show "pt_tree m0 r F" by (auto simp: pt_tree_def * split: if_splits)
qed

text \<open>Four zeroed frames chained through their first entries.\<close>

lemma chained_tables:
  fixes m :: "u64 \<Rightarrow> u64"
  assumes al: "a mod PAGE_SIZE = 0" "b mod PAGE_SIZE = 0" "c mod PAGE_SIZE = 0" "d mod PAGE_SIZE = 0"
    and di: "distinct [a, b, c, d]" "{a, b, c, d} \<inter> F = {}"
    and e: "pte_next eb = Some b" "pte_next ec = Some c" "pte_next ed = Some d"
  defines "m' \<equiv> ((zero_range d 0x1000 (zero_range c 0x1000 (zero_range b 0x1000 (zero_range a 0x1000 m))))
    (a := eb))(b := ec, c := ed)"
  shows "pt_tree m' a F" and "table_at m' a [0, 0, 0] = Some d"
    and "k < 512 \<Longrightarrow> m' (d + 8 * k) = 0"
    and "valid_idx q \<Longrightarrow> length q = 4 \<Longrightarrow> table_at m' a q = None"
proof -
  let ?F = "{b, c, d} \<union> F"
  define m0 where "m0 = zero_range a 0x1000 m"
  define m1 where "m1 = (zero_range b 0x1000 m0)(a + 8 * 0 := eb)"
  define m2 where "m2 = (zero_range c 0x1000 m1)(b + 8 * 0 := ec)"
  define m3 where "m3 = (zero_range d 0x1000 m2)(c + 8 * 0 := ed)"
  have out: "\<not> x - y < (0x1000 :: u64)" if "x \<noteq> y" "x mod PAGE_SIZE = 0" "y mod PAGE_SIZE = 0" for x y
    using entry_in_page [of x y 0] that by simp
  have ne: "a \<noteq> b" "a \<noteq> c" "a \<noteq> d" "b \<noteq> c" "b \<noteq> d" "c \<noteq> d" using di(1) by auto
  note z0 = fresh_root [OF al(1), where F = ?F and m = m, folded m0_def]
  have t0: "pt_tree m0 a ?F" using z0(1) ne di(2) by auto
  note n1 = new_table [OF t0 valid_path_simps(1) _ table_at.simps(1), of 0 b eb, folded m1_def]
  have p0: "pte_next (m0 (a + 8 * 0)) = None" using zero_range_in [OF al(1), of 0 m] by (simp add: m0_def)
  have t1: "table_at m1 a [0] = Some b" "pt_tree m1 a ({c, d} \<union> F)"
    and w1: "length q \<le> 4 \<Longrightarrow> valid_idx q \<Longrightarrow> q \<noteq> [0] \<Longrightarrow> table_at m1 a q = table_at m0 a q" for q
  proof -
    have "?F - {b} = {c, d} \<union> F" using ne di(2) by auto
    then show "table_at m1 a [0] = Some b" "pt_tree m1 a ({c, d} \<union> F)"
      "length q \<le> 4 \<Longrightarrow> valid_idx q \<Longrightarrow> q \<noteq> [0] \<Longrightarrow> table_at m1 a q = table_at m0 a q" for q
      using n1(1,2,4) p0 al e(1) by auto
  qed
  have p1: "pte_next (m1 (b + 8 * 0)) = None"
    using ne zero_range_in [OF al(2), of 0 m0] by (simp add: m1_def)
  note n2 = new_table [OF t1(2) _ _ t1(1), of 0 c ec, folded m2_def]
  have t2: "table_at m2 a [0, 0] = Some c" "pt_tree m2 a ({d} \<union> F)"
    and w2: "length q \<le> 4 \<Longrightarrow> valid_idx q \<Longrightarrow> q \<noteq> [0, 0] \<Longrightarrow> table_at m2 a q = table_at m1 a q" for q
  proof -
    have "{c, d} \<union> F - {c} = {d} \<union> F" using ne di(2) by auto
    then show "table_at m2 a [0, 0] = Some c" "pt_tree m2 a ({d} \<union> F)"
      "length q \<le> 4 \<Longrightarrow> valid_idx q \<Longrightarrow> q \<noteq> [0, 0] \<Longrightarrow> table_at m2 a q = table_at m1 a q" for q
      using n2(1,2,4) p1 al e(2) by auto
  qed
  have p2: "pte_next (m2 (c + 8 * 0)) = None"
    using ne zero_range_in [OF al(3), of 0 m1] by (simp add: m2_def)
  note n3 = new_table [OF t2(2) _ _ t2(1), of 0 d ed, folded m3_def]
  have t3: "table_at m3 a [0, 0, 0] = Some d" "pt_tree m3 a F"
    and w3: "length q \<le> 4 \<Longrightarrow> valid_idx q \<Longrightarrow> q \<noteq> [0, 0, 0] \<Longrightarrow> table_at m3 a q = table_at m2 a q" for q
  proof -
    have "{d} \<union> F - {d} = F" using ne di(2) by auto
    then show "table_at m3 a [0, 0, 0] = Some d" "pt_tree m3 a F"
      "length q \<le> 4 \<Longrightarrow> valid_idx q \<Longrightarrow> q \<noteq> [0, 0, 0] \<Longrightarrow> table_at m3 a q = table_at m2 a q" for q
      using n3(1,2,4) p2 al e(3) by auto
  qed
  have m3: "m' = m3"
    unfolding m'_def m3_def m2_def m1_def m0_def
    using out ne al by (simp add: zero_range_upd)
  show "pt_tree m' a F" "table_at m' a [0, 0, 0] = Some d" using t3 m3 by auto
  show "k < 512 \<Longrightarrow> m' (d + 8 * k) = 0" for k
    using entry_address_eq [of d c k 0] ne al by (simp add: m3 m3_def)
  show "table_at m' a q = None" if "valid_idx q" "length q = 4"
  proof -
    have "q \<noteq> []" "q \<noteq> [0]" "q \<noteq> [0, 0]" "q \<noteq> [0, 0, 0]" using that(2) by auto
    then show ?thesis
      using w1 [of q] w2 [of q] w3 [of q] z0(2) [of q] that ne di(2) by (simp add: m3)
  qed
qed

text \<open>Filling the page table.\<close>

lemma fill_table:
  assumes tree: "pt_tree m r F" and d: "table_at m r [0, 0, 0] = Some d"
  shows "j \<le> 512 \<Longrightarrow>
    (let m' = fold (\<lambda>i m. m(d + 8 * word_of_nat i := g (word_of_nat i))) [0..<j] m in
     pt_tree m' r F \<and> table_at m' r [0, 0, 0] = Some d \<and>
     (\<forall>q. valid_idx q \<longrightarrow> length q = 4 \<longrightarrow> table_at m' r q =
       (if tl q = [0, 0, 0] \<and> unat (hd q) < j then pte_next (g (hd q)) else table_at m r q)))"
proof (induction j)
  case (Suc j)
  let ?m = "fold (\<lambda>i m. m(d + 8 * word_of_nat i := g (word_of_nat i))) [0..<j] m"
  let ?i = "word_of_nat j :: u64"
  have IH: "pt_tree ?m r F" "table_at ?m r [0, 0, 0] = Some d"
    "valid_idx q \<Longrightarrow> length q = 4 \<Longrightarrow> table_at ?m r q =
       (if tl q = [0, 0, 0] \<and> unat (hd q) < j then pte_next (g (hd q)) else table_at m r q)" for q
    using Suc by (simp_all add: Let_def del: fun_upd_apply table_at.simps)
  have ui: "unat ?i = j" using Suc.prems by (simp add: unat_of_nat_u64)
  have i: "?i < 512" using Suc.prems ui by (simp add: word_less_nat_alt)
  have p: "valid_path [0, 0, 0 :: u64]" "length [0, 0, 0 :: u64] = 3" by simp_all
  note leaf = leaf_entry [OF IH(1) p IH(2) i, where e = "g ?i"]
  have keep: "table_at (?m(d + 8 * ?i := g ?i)) r [0, 0, 0] = Some d"
    using leaf(2) [of "[0, 0, 0]"] IH(2) by (simp del: table_at.simps fun_upd_apply)
  have "table_at (?m(d + 8 * ?i := g ?i)) r q =
       (if tl q = [0, 0, 0] \<and> unat (hd q) < Suc j then pte_next (g (hd q)) else table_at m r q)"
    if q: "valid_idx q" "length q = 4" for q
  proof (cases "q = ?i # [0, 0, 0]")
    case True
    then show ?thesis using leaf(1) ui by (simp del: table_at.simps fun_upd_apply)
  next
    case False
    obtain x y where xy: "q = x # y" using q(2) by (cases q) auto
    have "unat x = j \<Longrightarrow> x = ?i" by (metis ui word_unat_eq_iff)
    then show ?thesis
      using leaf(2) [of q] IH(3) [of q] q False xy by (auto simp: less_Suc_eq simp del: table_at.simps fun_upd_apply)
  qed
  then show ?case using leaf(3) keep by (simp add: Let_def del: table_at.simps fun_upd_apply)
qed (simp add: Let_def tree d del: table_at.simps)

lemma vpn_digits:
  "pd_index v = 0 \<and> pdpt_index v = 0 \<and> pml4_index v = 0 \<longleftrightarrow> vpn v < 512"
  "vpn v < 512 \<Longrightarrow> vpn v = unat (pt_index v)"
proof -
  let ?x = "unat v div 4096"
  have d: "n div 4096 div 512 = n div 2097152" "n div 4096 div 262144 = n div 1073741824"
    "n div 4096 div 134217728 = n div 549755813888" for n :: nat
    by (simp_all add: div_mult2_eq [symmetric])
  have "vpn v = unat (pt_index v) + 512 * unat (pd_index v) + 262144 * unat (pdpt_index v)
      + 134217728 * unat (pml4_index v)"
    using digits_512 [of ?x] unfolding vpn_def index_unat d .
  moreover have "unat (pt_index v) < 512" using index_less(4) [of v] by (simp add: word_less_nat_alt)
  ultimately show "pd_index v = 0 \<and> pdpt_index v = 0 \<and> pml4_index v = 0 \<longleftrightarrow> vpn v < 512"
    "vpn v < 512 \<Longrightarrow> vpn v = unat (pt_index v)"
    by (auto simp: u64_eq_iff_unat)
qed

lemma for_store64:
  assumes "\<not> virtual_mem_initialized s"
  shows "for_u64 n (\<lambda>i. store64 (p + 8 * i) (g i)) s =
    s\<lparr>phys_mem := fold (\<lambda>i m. m(p + 8 * word_of_nat i := g (word_of_nat i))) [0..<unat n] (phys_mem s)\<rparr>"
proof -
  have "fold (\<lambda>i. store64 (p + 8 * word_of_nat i) (g (word_of_nat i))) xs s =
    s\<lparr>phys_mem := fold (\<lambda>i m. m(p + 8 * word_of_nat i := g (word_of_nat i))) xs (phys_mem s)\<rparr>" for xs
    using assms by (induction xs arbitrary: s) (simp_all add: store64_def ptr_phys_def)
  then show ?thesis by (simp add: for_u64_def)
qed

lemma palloc_layout: "same_layout s (snd (palloc s))"
proof -
  have "same_layout s (snd (palloc_scan xs s))" for xs
    by (induction xs s rule: palloc_scan.induct) (auto simp: Let_def split: option.split)
  then show ?thesis by (simp add: palloc_def)
qed

lemma small_page:
  assumes "n < 512"
  shows "pte_next (((word_of_nat n * PAGE_SIZE) OR PTE_PRESENT) OR PTE_RW) = Some (word_of_nat n * PAGE_SIZE)"
    and "(word_of_nat n * PAGE_SIZE) AND PTE_ADDR_MASK = (word_of_nat n * PAGE_SIZE :: u64)"
proof -
  have u: "unat (word_of_nat n * PAGE_SIZE :: u64) = n * 4096"
    using assms by (simp add: unat_mult_u64 unat_of_nat_u64)
  have "(word_of_nat n * PAGE_SIZE :: u64) mod PAGE_SIZE = 0" by (simp add: u64_eq_iff_unat unat_mod u)
  moreover have "word_of_nat n * PAGE_SIZE < (0x10000000000000 :: u64)" using assms by (simp add: word_less_nat_alt u)
  ultimately show "pte_next (((word_of_nat n * PAGE_SIZE) OR PTE_PRESENT) OR PTE_RW) = Some (word_of_nat n * PAGE_SIZE)"
    "(word_of_nat n * PAGE_SIZE) AND PTE_ADDR_MASK = (word_of_nat n * PAGE_SIZE :: u64)"
    by (rule entry_unmasked, rule addr_mask_id)
qed

text \<open>The four tables \<open>init_vmm\<close> starts from map the first 2 MiB to themselves and nothing else.\<close>

lemma init_vmm_tables_spec:
  assumes rdy: "pmm_ready (vm_pmm s)" and man: "\<forall>a \<in> managed_frames (vm_pmm s). a < 0x10000000000000"
    and un: "\<not> virtual_mem_initialized s" and run: "init_vmm_tables s = Inr (r, s')"
  shows "vm_inv r s'" and "r AND PTE_ADDR_MASK = r"
    and "translate (phys_mem s') r = range_override 0 0 512 (\<lambda>_. None)"
    and "next_virt s' = next_virt s" and "\<not> virtual_mem_initialized s'"
    and "max_physical_address (vm_pmm s') = max_physical_address (vm_pmm s)"
proof -
  obtain a p1 b p2 c p3 d p4 where al: "palloc (vm_pmm s) = (a, p1)" "palloc p1 = (b, p2)"
    "palloc p2 = (c, p3)" "palloc p3 = (d, p4)" by (metis surj_pair)
  have nz: "a \<noteq> 0" "b \<noteq> 0" "c \<noteq> 0" "d \<noteq> 0"
    using run by (auto simp: init_vmm_tables_def al Let_def split: if_splits)
  note A = pages.alloc_some [OF rdy al(1) nz(1)]
  note B = pages.alloc_some [OF A(3) al(2) nz(2)]
  note C = pages.alloc_some [OF B(3) al(3) nz(3)]
  note D = pages.alloc_some [OF C(3) al(4) nz(4)]
  have mg: "managed_frames p4 = managed_frames (vm_pmm s)" using A(4) B(4) C(4) D(4) by simp
  have in_man: "a \<in> managed_frames (vm_pmm s)" "b \<in> managed_frames (vm_pmm s)"
    "c \<in> managed_frames (vm_pmm s)" "d \<in> managed_frames (vm_pmm s)"
    using A(6) B(4,6) C(4,6) D(4,6) A(4) by auto
  then have hi: "a < 0x10000000000000" "b < 0x10000000000000" "c < 0x10000000000000" "d < 0x10000000000000"
    using man by auto
  let ?e = "\<lambda>x. (x OR PTE_PRESENT) OR PTE_RW"
  let ?m = "((zero_range d 0x1000 (zero_range c 0x1000 (zero_range b 0x1000 (zero_range a 0x1000 (phys_mem s)))))
    (a := ?e b))(b := ?e c, c := ?e d)"
  let ?g = "\<lambda>i. ?e (i * PAGE_SIZE)"
  let ?M = "fold (\<lambda>i m. m(d + 8 * word_of_nat i := ?g (word_of_nat i))) [0..<512] ?m"
  have "distinct [a, b, c, d]" "{a, b, c, d} \<inter> free_frames p4 = {}"
    using A(1,2) B(1,2) C(1,2) D(1,2) by auto
  note ch = chained_tables [OF A(5) B(5) C(5) D(5) this entry_unmasked [OF B(5) hi(2)]
      entry_unmasked [OF C(5) hi(3)] entry_unmasked [OF D(5) hi(4)], where m = "phys_mem s"]
  have r: "r = a" and s': "s' = s\<lparr>vm_pmm := p4, phys_mem := ?M\<rparr>"
    using run un nz
    by (auto simp: init_vmm_tables_def al Let_def for_store64 memset_zero_def store64_def ptr_phys_def)
  have ftree: "pt_tree ?M a (free_frames p4)"
    and walk: "valid_idx q \<Longrightarrow> length q = 4 \<Longrightarrow> table_at ?M a q =
       (if tl q = [0, 0, 0] \<and> unat (hd q) < 512 then pte_next (?g (hd q)) else table_at ?m a q)" for q
    using fill_table [OF ch(1,2), of 512 ?g] unfolding Let_def by blast+
  show "vm_inv r s'"
    using D(3) man mg ftree unfolding vm_inv_def r s' by simp
  show "r AND PTE_ADDR_MASK = r" unfolding r by (rule addr_mask_id [OF A(5) hi(1)])
  show "next_virt s' = next_virt s" "\<not> virtual_mem_initialized s'" using un by (simp_all add: s')
  show "max_physical_address (vm_pmm s') = max_physical_address (vm_pmm s)"
    using palloc_layout [of "vm_pmm s"] palloc_layout [of p1] palloc_layout [of p2] palloc_layout [of p3]
    by (simp add: s' al same_layout_def)
  show "translate (phys_mem s') r = range_override 0 0 512 (\<lambda>_. None)"
  proof (rule ext)
    fix v
    have "unat (pt_index v) < 512" using index_less(4) [of v] by (simp add: word_less_nat_alt)
    then have "translate (phys_mem s') r v =
       (if vpn v < 512 then pte_next (?g (pt_index v)) else None)"
      using walk [of "idx_path v"] ch(4) [of "idx_path v"] vpn_digits(1) [of v]
      by (auto simp: translate_def r s' idx_path_def simp del: table_at.simps)
    moreover have "word_of_nat (vpn v) = pt_index v" if "vpn v < 512"
      using vpn_digits(2) [OF that] by simp
    moreover note small_page [of "vpn v"]
    ultimately show "translate (phys_mem s') r v = range_override 0 0 512 (\<lambda>_. None) v"
      by (simp add: range_override_def vpn_def)
  qed
qed

section \<open>The ranges of \<open>init_vmm\<close>\<close>

type_synonym mapped_range = "u64 \<times> u64 \<times> u64"

text \<open>The ranges \<open>init_vmm\<close> maps, in order, as triples of physical address, virtual address and size.\<close>

definition kernel_ranges :: "cpu_env \<Rightarrow> BootInfo \<Rightarrow> mapped_range list" where
  "kernel_ranges env boot =
     (let stack_page = read_rsp env AND NOT (PAGE_SIZE - 1); rip_page = read_rip env AND NOT (PAGE_SIZE - 1)
      in [(kernel_physical_address_start boot, kernel_virtual_address boot, kernel_size boot),
          (stack_page - 16 * PAGE_SIZE, stack_page - 16 * PAGE_SIZE, 32 * PAGE_SIZE),
          (rip_page - PAGE_SIZE, rip_page - PAGE_SIZE, PAGE_SIZE * 10),
          (framebuffer_base boot, framebuffer_base boot, framebuffer_size boot)])"

definition apic_ranges :: "cpu_env \<Rightarrow> (u64 \<Rightarrow> EFI_MEMORY_DESCRIPTOR) \<Rightarrow> BootInfo \<Rightarrow> mapped_range list" where
  "apic_ranges env descs boot =
     (let apic_base = push_bit 12 (drop_bit 12 (msr_1B env) AND 0xFFFFF);
          ds = map (\<lambda>i. descs (memory_map boot + word_of_nat i * memory_descriptor_size boot))
                 [0..<unat (memory_map_size boot div memory_descriptor_size boot)]
      in if cpuid_1_edx env AND push_bit 9 1 \<noteq> 0
         then map (\<lambda>d. (PhysicalStart d, PhysicalStart d, NumberOfPages d * PAGE_SIZE)) (filter conventional ds)
              @ [(apic_base, apic_base, 0x4000)]
         else [])"

definition late_ranges :: "cpu_env \<Rightarrow> (u64 \<Rightarrow> EFI_MEMORY_DESCRIPTOR) \<Rightarrow> u64 \<Rightarrow> BootInfo \<Rightarrow> mapped_range list" where
  "late_ranges env descs boot_addr boot =
     (let boot_page = boot_addr AND NOT (PAGE_SIZE - 1); mm_page = memory_map boot AND NOT (PAGE_SIZE - 1)
      in (initramfs_address boot, initramfs_address boot, initramfs_size boot) # apic_ranges env descs boot
         @ [(boot_page, boot_page, PAGE_SIZE),
            (mm_page, mm_page, memory_map_size boot + (memory_map boot AND (PAGE_SIZE - 1)))])"

definition init_ranges ::
  "cpu_env \<Rightarrow> (u64 \<Rightarrow> EFI_MEMORY_DESCRIPTOR) \<Rightarrow> u64 \<Rightarrow> BootInfo \<Rightarrow> u64 \<Rightarrow> mapped_range list" where
  "init_ranges env descs boot_addr boot mx =
     kernel_ranges env boot @ (0, PASSTHRU_BASE, mx) # late_ranges env descs boot_addr boot"

definition range_ok :: "mapped_range \<Rightarrow> bool" where
  "range_ok = (\<lambda>(phys, virt, sz). unat (sz + (phys - (phys AND PAGE_MASK))) \<le> 281474976710656)"

definition override_all :: "mapped_range list \<Rightarrow> (u64 \<Rightarrow> u64 option) \<Rightarrow> (u64 \<Rightarrow> u64 option)" where
  "override_all rs T = fold (\<lambda>(phys, virt, sz). range_override phys virt (range_pages phys sz)) rs T"

primrec map_ranges :: "u64 \<Rightarrow> mapped_range list \<Rightarrow> vmm \<Rightarrow> vmm result option" where
  "map_ranges r [] s = Some (Inr s)"
| "map_ranges r (x # xs) s =
     bind_loop (case x of (phys, virt, sz) \<Rightarrow> map_range phys virt sz r s) (map_ranges r xs)"

lemma bind_loop_assoc: "bind_loop (bind_loop x f) g = bind_loop x (\<lambda>y. bind_loop (f y) g)"
  by (auto simp: bind_loop_def split: option.splits sum.splits)

lemma bind_loop_return [simp]: "bind_loop x (\<lambda>y. Some (Inr y)) = x"
  by (auto simp: bind_loop_def split: option.splits sum.splits)

lemma map_ranges_fun:
  "map_ranges r [] = (\<lambda>s. Some (Inr s))"
  "map_ranges r ((phys, virt, sz) # xs) = (\<lambda>s. bind_loop (map_range phys virt sz r s) (map_ranges r xs))"
  by (simp_all add: fun_eq_iff)

lemma map_ranges_append: "map_ranges r (xs @ ys) = (\<lambda>s. bind_loop (map_ranges r xs s) (map_ranges r ys))"
proof (induction xs)
  case (Cons x xs)
  then show ?case by (cases x) (simp add: bind_loop_assoc map_ranges_fun)
qed (simp add: map_ranges_fun)

lemma map_ranges_descs:
  "fold (\<lambda>i r'. bind_loop r' (init_vmm_desc r (g i))) xs x =
   bind_loop x (map_ranges r (map (\<lambda>d. (PhysicalStart d, PhysicalStart d, NumberOfPages d * PAGE_SIZE))
     (filter conventional (map g xs))))"
proof (induction xs arbitrary: x)
  case (Cons i xs)
  then show ?case by (simp add: init_vmm_desc_def bind_loop_assoc map_ranges_fun)
qed (simp add: map_ranges_fun)

text \<open>One range: the loop ends, at worst in a panic; a map keeps the limits of physical memory.\<close>

lemma ensure_table_mx:
  "ensure_table msg t i s = Inr s' \<Longrightarrow> max_physical_address (vm_pmm s') = max_physical_address (vm_pmm s)"
  using palloc_layout [of "vm_pmm s"]
  by (auto simp: ensure_table_def Let_def memset_zero_def store64_def same_layout_def split: if_splits prod.splits)

lemma map_page_mx:
  "map_page p v r s = Inr s' \<Longrightarrow> max_physical_address (vm_pmm s') = max_physical_address (vm_pmm s)"
  by (auto simp: map_page_def Let_def bind_result_Inr_iff store64_def dest!: ensure_table_mx)

lemma ensure_table_Inl: "ensure_table msg t i s = Inl h \<Longrightarrow> h = Kernel_Panic msg"
  by (auto simp: ensure_table_def Let_def split: if_splits prod.splits)

lemma map_page_Inl: "map_page p v r s = Inl h \<Longrightarrow> \<exists>msg. h = Kernel_Panic msg"
  by (auto simp: map_page_def Let_def bind_result_def split: sum.splits dest!: ensure_table_Inl)

lemma map_pages_mx:
  assumes "map_pages p v r n s = Inr s'"
  shows "max_physical_address (vm_pmm s') = max_physical_address (vm_pmm s)"
  by (rule for_result_invariant [OF assms [unfolded map_pages_def],
        of "\<lambda>_ t. max_physical_address (vm_pmm t) = max_physical_address (vm_pmm s)"])
    (auto dest: map_page_mx)

lemma map_pages_Inl: "map_pages p v r n s = Inl h \<Longrightarrow> \<exists>msg. h = Kernel_Panic msg"
proof (induction n arbitrary: h)
  case (Suc n)
  then show ?case
    by (cases "map_pages p v r n s") (auto simp: map_pages_def dest: map_page_Inl)
qed (simp add: map_pages_def)

lemma range_okD:
  assumes "range_ok (phys, virt, sz)"
  shows "range_pages phys sz \<le> 68719476736"
    and "unat (sz + (phys - (phys AND PAGE_MASK))) \<le> 18446744073709547520"
  using assms by (simp_all add: range_ok_def range_pages_def)

lemma map_ranges_spec:
  assumes "vm_inv r s" and "\<forall>x \<in> set rs. range_ok x"
  shows "\<exists>res. map_ranges r rs s = Some res \<and> (case res of Inl h \<Rightarrow> \<exists>msg. h = Kernel_Panic msg
    | Inr s' \<Rightarrow> pt_frame r s s' \<and> max_physical_address (vm_pmm s') = max_physical_address (vm_pmm s) \<and>
        translate (phys_mem s') r = override_all rs (translate (phys_mem s) r))"
  using assms
proof (induction rs arbitrary: s)
  case Nil
  then show ?case by (simp add: pt_frame_refl override_all_def)
next
  case (Cons x rs)
  obtain phys virt sz where x: "x = (phys, virt, sz)" by (cases x)
  have ok: "range_ok (phys, virt, sz)" using Cons.prems x by auto
  let ?mp = "map_pages (phys AND PAGE_MASK) (virt AND PAGE_MASK) r (range_pages phys sz) s"
  have run: "map_range phys virt sz r s = Some ?mp" by (rule map_range_eq [OF range_okD(2) [OF ok]])
  show ?case
  proof (cases ?mp)
    case (Inl h)
    then show ?thesis using run x map_pages_Inl [OF Inl] by simp
  next
    case (Inr s1)
    note m = map_pages_spec [OF Cons.prems(1) range_okD(1) [OF ok] Inr]
    obtain res where "map_ranges r rs s1 = Some res" and "case res of Inl h \<Rightarrow> \<exists>msg. h = Kernel_Panic msg
      | Inr s' \<Rightarrow> pt_frame r s1 s' \<and> max_physical_address (vm_pmm s') = max_physical_address (vm_pmm s1) \<and>
        translate (phys_mem s') r = override_all rs (translate (phys_mem s1) r)"
      using Cons.IH [OF pt_frame_inv [OF m(1)]] Cons.prems(2) by auto
    moreover have "override_all (x # rs) T = override_all rs (range_override phys virt (range_pages phys sz) T)" for T
      by (simp add: override_all_def x)
    ultimately show ?thesis
      using run x Inr m(2) pt_frame_trans [OF m(1)] map_pages_mx [OF Inr]
      by (auto split: sum.splits)
  qed
qed

lemma init_vmm_parts:
  "init_vmm_kernel_maps env boot r = map_ranges r (kernel_ranges env boot)"
  "memory_descriptor_size boot \<noteq> 0 \<Longrightarrow> init_vmm_apic env descs boot r = map_ranges r (apic_ranges env descs boot)"
  by (auto simp: fun_eq_iff init_vmm_kernel_maps_def kernel_ranges_def Let_def init_vmm_apic_def apic_ranges_def
      map_ranges_append map_ranges_fun map_ranges_descs)

lemma init_vmm_ranges:
  assumes "memory_descriptor_size boot \<noteq> 0"
  shows "init_vmm env descs boot_addr boot s =
    bind_loop (Some (init_vmm_tables s)) (\<lambda>(r, s1).
    bind_loop (map_ranges r (kernel_ranges env boot) s1) (\<lambda>s2.
    bind_loop (map_ranges r ((0, PASSTHRU_BASE, max_physical_address (vm_pmm s2)) # late_ranges env descs boot_addr boot) s2)
      (\<lambda>s'. Some (Inr (s'\<lparr>virtual_mem_initialized := True, cr3 := r\<rparr>)))))"
  by (auto simp: init_vmm_def init_vmm_parts(1) init_vmm_parts(2) [OF assms] init_vmm_windows_def init_vmm_other_def
      late_ranges_def Let_def map_ranges_append map_ranges_fun bind_loop_assoc intro!: arg_cong2 [of _ _ _ _ bind_loop])

section \<open>How many frames a range takes\<close>

abbreviation pt_path :: "u64 \<Rightarrow> u64 list" where
  "pt_path v \<equiv> [pd_index v, pdpt_index v, pml4_index v]"

lemma pt_path_eq: "vpn v div 512 = vpn w div 512 \<Longrightarrow> pt_path v = pt_path w"
proof -
  assume eq: "vpn v div 512 = vpn w div 512"
  have "n div 4096 mod 68719476736 div 512 = n div 2097152 mod 134217728" for n :: nat
  proof -
    have "n div 4096 mod (512 * 134217728) div 512 = n div 4096 div 512 mod 134217728"
      unfolding mod_mult2_eq [of _ 512] by simp
    then show ?thesis by (simp add: div_mult2_eq [symmetric])
  qed
  then have v: "vpn u div 512 = unat u div 2097152 mod 134217728" for u by (simp add: vpn_def)
  have *: "x mod (a * (512 * b)) div a mod 512 = x div a mod 512" if "0 < a" for a b x :: nat
  proof -
    have "x mod (a * (512 * b)) div a = x div a mod (512 * b)"
      using that unfolding mod_mult2_eq [of x a "512 * b"] by simp
    then show ?thesis by (simp add: mod_mult_cong mod_mult2_eq)
  qed
  have d: "unat (pd_index u) = vpn u div 512 mod 512" "unat (pdpt_index u) = vpn u div 512 div 512 mod 512"
    "unat (pml4_index u) = vpn u div 512 div 262144 mod 512" for u
    using *[of 1 "unat u div 2097152" 262144] *[of 512 "unat u div 2097152" 512] *[of 262144 "unat u div 2097152" 1]
    unfolding v index_unat by (simp_all add: div_mult2_eq [symmetric])
  show ?thesis by (simp add: u64_eq_iff_unat d eq)
qed

lemma ensure_table_present:
  "pte_next (phys_mem s (t + 8 * i)) \<noteq> None \<Longrightarrow> ensure_table msg (page_table_ptr s t) i s = Inr s"
  by (auto simp: ensure_table_def pte_next_def split: if_splits)

lemma map_page_present:
  assumes "table_at (phys_mem s) r (pt_path virt) \<noteq> None"
  shows "\<exists>s'. map_page phys virt r s = Inr s' \<and> vm_pmm s' = vm_pmm s"
proof -
  let ?a = "pml4_index virt" and ?b = "pdpt_index virt" and ?c = "pd_index virt"
  obtain t1 t2 t3 where t: "pte_next (phys_mem s (r + 8 * ?a)) = Some t1"
    "pte_next (phys_mem s (t1 + 8 * ?b)) = Some t2" "pte_next (phys_mem s (t2 + 8 * ?c)) = Some t3"
    using assms by (auto split: option.splits)
  have "phys_mem s (r + 8 * ?a) AND PTE_ADDR_MASK = t1" "phys_mem s (t1 + 8 * ?b) AND PTE_ADDR_MASK = t2"
    "phys_mem s (t2 + 8 * ?c) AND PTE_ADDR_MASK = t3"
    using t by (auto simp: pte_next_def split: if_splits)
  then show ?thesis
    using t by (simp add: map_page_def Let_def ensure_table_present store64_def)
qed

lemma map_page_table:
  assumes "vm_inv r s" and "map_page phys virt r s = Inr s'"
  shows "table_at (phys_mem s') r (pt_path virt) \<noteq> None"
proof
  assume "table_at (phys_mem s') r (pt_path virt) = None"
  then have "translate (phys_mem s') r virt = None"
    unfolding translate_def idx_path_def by (subst table_at.simps(2)) simp
  then show False using map_page_spec(2) [OF assms, of virt] by simp
qed

definition chunks :: "u64 \<Rightarrow> nat \<Rightarrow> nat" where
  "chunks virt n = (vpn virt mod 512 + n + 511) div 512"

lemma same_chunk:
  assumes "(x + Suc i) mod 512 \<noteq> 0"
  shows "(x + Suc i) mod 68719476736 div 512 = (x + i) mod 68719476736 div (512 :: nat)"
proof -
  have m: "y mod 68719476736 div 512 = y div 512 mod 134217728" for y :: nat
    using mod_mult2_eq [of y 512 134217728] by simp
  have "(x + Suc i) div 512 = (x + i) div 512" using assms by (simp add: div_Suc)
  then show ?thesis by (simp only: m)
qed

lemma map_pages_total:
  assumes inv: "vm_inv r s" and room: "3 * chunks virt n \<le> card (vm_free s)"
  shows "\<exists>s'. map_pages (phys AND PAGE_MASK) (virt AND PAGE_MASK) r n s = Inr s' \<and>
    card (vm_free s) \<le> card (vm_free s') + 3 * chunks virt n"
proof -
  let ?pp = "phys AND PAGE_MASK" and ?vp = "virt AND PAGE_MASK"
  let ?pg = "\<lambda>i. ?vp + word_of_nat i * PAGE_SIZE"
  have vpg: "vpn (?pg i) = (vpn virt + i) mod 68719476736" for i
    using vpn_page [of ?vp i] by simp
  have "m \<le> n \<Longrightarrow> \<exists>t. map_pages ?pp ?vp r m s = Inr t \<and> vm_inv r t \<and>
      card (vm_free s) \<le> card (vm_free t) + 3 * (if m = 0 then 0 else chunks virt m) \<and>
      (0 < m \<longrightarrow> table_at (phys_mem t) r (pt_path (?pg (m - 1))) \<noteq> None)" for m
  proof (induction m)
    case 0
    then show ?case by (simp add: map_pages_def inv)
  next
    case (Suc m)
    then obtain t where t: "map_pages ?pp ?vp r m s = Inr t" "vm_inv r t"
      "card (vm_free s) \<le> card (vm_free t) + 3 * (if m = 0 then 0 else chunks virt m)"
      "0 < m \<Longrightarrow> table_at (phys_mem t) r (pt_path (?pg (m - 1))) \<noteq> None" by auto
    let ?map = "map_page (?pp + word_of_nat m * PAGE_SIZE) (?pg m) r t"
    have step: "\<exists>t'. ?map = Inr t' \<and> card (vm_free s) \<le> card (vm_free t') + 3 * chunks virt (Suc m)"
    proof (cases "0 < m \<and> (vpn virt + m) mod 512 \<noteq> 0")
      case True
      then obtain k where k: "m = Suc k" by (cases m) auto
      have "vpn (?pg m) div 512 = vpn (?pg (m - 1)) div 512"
        unfolding vpg k using same_chunk [of "vpn virt" k] True k by simp
      then have "pt_path (?pg m) = pt_path (?pg (m - 1))" by (rule pt_path_eq)
      then have "table_at (phys_mem t) r (pt_path (?pg m)) \<noteq> None" using t(4) True by metis
      from map_page_present [OF this] obtain t' where "?map = Inr t'" "vm_pmm t' = vm_pmm t" by blast
      moreover have "chunks virt m \<le> chunks virt (Suc m)" by (simp add: chunks_def div_le_mono)
      ultimately show ?thesis using t(3) True by auto
    next
      case False
      have more: "Suc (if m = 0 then 0 else chunks virt m) \<le> chunks virt (Suc m)"
      proof (cases "m = 0")
        case mz: False
        then have "(vpn virt mod 512 + m) mod 512 = 0" using False by (simp add: mod_simps)
        then obtain q where "vpn virt mod 512 + m = 512 * q" by (meson dvd_def mod_0_imp_dvd)
        then show ?thesis using mz by (simp add: chunks_def)
      qed (simp add: chunks_def)
      have "chunks virt (Suc m) \<le> chunks virt n" using Suc.prems by (simp add: chunks_def div_le_mono)
      then have "3 \<le> card (vm_free t)" using more t(3) room by linarith
      from map_page_total [OF t(2) this] obtain t' where "?map = Inr t'" "card (vm_free t) \<le> card (vm_free t') + 3" by blast
      then show ?thesis using t(3) more by auto
    qed
    then obtain t' where t': "?map = Inr t'" "card (vm_free s) \<le> card (vm_free t') + 3 * chunks virt (Suc m)" by blast
    have "vm_inv r t'" using map_page_spec(1) [OF t(2) t'(1)] by (rule pt_frame_inv)
    moreover have "table_at (phys_mem t') r (pt_path (?pg m)) \<noteq> None" by (rule map_page_table [OF t(2) t'(1)])
    ultimately show ?case using t(1) t' by (simp add: map_pages_def)
  qed
  from this [of n] show ?thesis by (auto split: if_splits)
qed

lemma chunks_bound: "chunks virt n \<le> n div 512 + 2"
proof -
  have "vpn virt mod 512 < 512" by simp
  then show ?thesis unfolding chunks_def by linarith
qed

text \<open>The page tables a list of ranges may take.\<close>

definition tables_needed :: "mapped_range list \<Rightarrow> nat" where
  "tables_needed rs = (\<Sum>(phys, virt, sz) \<leftarrow> rs. 3 * (range_pages phys sz div 512 + 2))"

lemma map_ranges_total:
  assumes "vm_inv r s" and "\<forall>x \<in> set rs. range_ok x" and "tables_needed rs \<le> card (vm_free s)"
  shows "\<exists>s'. map_ranges r rs s = Some (Inr s') \<and> card (vm_free s) \<le> card (vm_free s') + tables_needed rs"
  using assms
proof (induction rs arbitrary: s)
  case (Cons x rs)
  obtain phys virt sz where x: "x = (phys, virt, sz)" by (cases x)
  have ok: "range_ok (phys, virt, sz)" using Cons.prems x by auto
  let ?n = "range_pages phys sz"
  define k where "k = 3 * (?n div 512 + 2)"
  have need: "tables_needed (x # rs) = k + tables_needed rs" by (simp add: tables_needed_def x k_def)
  have bound: "3 * chunks virt ?n \<le> k" unfolding k_def by (rule mult_le_mono2 [OF chunks_bound])
  have "3 * chunks virt ?n \<le> card (vm_free s)" using bound Cons.prems(3) need by linarith
  from map_pages_total [OF Cons.prems(1) this] obtain s1 where
    s1: "map_pages (phys AND PAGE_MASK) (virt AND PAGE_MASK) r ?n s = Inr s1"
    and c: "card (vm_free s) \<le> card (vm_free s1) + 3 * chunks virt ?n" by blast
  have inv1: "vm_inv r s1" using map_pages_spec(1) [OF Cons.prems(1) range_okD(1) [OF ok] s1] by (rule pt_frame_inv)
  have "tables_needed rs \<le> card (vm_free s1)" using c bound Cons.prems(3) need by linarith
  from Cons.IH [OF inv1 _ this] Cons.prems(2) obtain s' where
    s': "map_ranges r rs s1 = Some (Inr s')" "card (vm_free s1) \<le> card (vm_free s') + tables_needed rs" by auto
  then show ?case
    using map_range_eq [OF range_okD(2) [OF ok]] s1 c bound need x by simp
qed (simp add: tables_needed_def)

end
