(* ===== verification/Vmm_Props.thy ===== *)
theory Vmm_Props
  imports Vmm_Init
begin

unbundle bit_operations_syntax

text \<open>
  The properties of the virtual memory manager: exact effect of \<open>map_page\<close> and \<open>unmap_page\<close> on the
  translation, all-or-nothing allocation by \<open>vallocs\<close>, termination and effect of \<open>map_range\<close>, and
  the address space \<open>init_vmm\<close> switches to. The witnesses run on a machine with 64 pages of memory.
\<close>

section \<open>A small machine\<close>

definition vm_descs :: "u64 \<Rightarrow> EFI_MEMORY_DESCRIPTOR" where
  "vm_descs = (\<lambda>_. \<lparr>desc_Type = 7, PhysicalStart = 0x1000, VirtualStart = 0, NumberOfPages = 64, Attribute = 0\<rparr>)"

definition vm_pmm0 :: pmm where
  "vm_pmm0 = projr (init_pmm vm_descs 0x8000 40 40 pmm_boot)"

lemma vm_pmm0_ready: "pmm_ready vm_pmm0" "max_pages vm_pmm0 = 65" "free_pages vm_pmm0 = 63"
proof -
  have "\<not> isl (init_pmm vm_descs 0x8000 40 40 pmm_boot)" by code_simp
  then have "init_pmm vm_descs 0x8000 40 40 pmm_boot = Inr vm_pmm0"
    unfolding vm_pmm0_def by (cases "init_pmm vm_descs 0x8000 40 40 pmm_boot") auto
  from init_pmm_spec(1) [OF this refl refl] have "pmm_inv vm_pmm0" .
  moreover have "page_used vm_pmm0 0" "bitmap_init vm_pmm0" by code_simp+
  ultimately show "pmm_ready vm_pmm0" by (simp add: pmm_ready_def free_set_def)
  show "max_pages vm_pmm0 = 65" "free_pages vm_pmm0 = 63" by code_simp+
qed

lemma vm_pmm0_managed: "\<forall>a \<in> managed_frames vm_pmm0. a < 0x10000000000000"
proof -
  have "p * PAGE_SIZE < 0x10000000000000" if "p < 65" for p :: u64
  proof -
    have "unat p < 65" using that by (simp add: word_less_nat_alt)
    then show ?thesis by (simp add: word_less_nat_alt unat_mult_u64)
  qed
  then show ?thesis by (auto simp: managed_frames_def vm_pmm0_ready(2))
qed

text \<open>The kernel running on an empty root table in the first free frame.\<close>

definition vm0 :: vmm where
  "vm0 = \<lparr>vm_pmm = snd (palloc vm_pmm0), phys_mem = (\<lambda>_. 0), cr3 = 0x2000,
          next_virt = KHEAP_BASE, virtual_mem_initialized = True\<rparr>"

lemma vm0_inv: "vm_inv 0x2000 vm0" "card (vm_free vm0) = 62"
proof -
  have f: "fst (palloc vm_pmm0) = 0x2000" by code_simp
  then have al: "palloc vm_pmm0 = (0x2000, vm_pmm vm0)" by (simp add: vm0_def prod_eq_iff)
  note pm = pages.alloc_some [OF vm_pmm0_ready(1) al]
  have "zero_range 0x2000 0x1000 (\<lambda>_. 0) = (\<lambda>_. 0)" by (simp add: zero_range_def fun_eq_iff)
  then have "pt_tree (\<lambda>_. 0) 0x2000 (vm_free vm0)"
    using fresh_root(1) [where r = "0x2000" and F = "vm_free vm0" and m = "\<lambda>_. 0"] pm(2,5) by simp
  then show "vm_inv 0x2000 vm0"
    using pm(3,4) vm_pmm0_managed by (simp add: vm_inv_def vm0_def)
  have "pmm_inv (vm_pmm vm0)" using pm(3) by (simp add: pmm_ready_def)
  from card_free_frames [OF this] unat_free_pages [OF this]
  have "card (vm_free vm0) = unat (free_pages (vm_pmm vm0))" by simp
  moreover have "free_pages (vm_pmm vm0) = 62" by code_simp
  ultimately show "card (vm_free vm0) = 62" by simp
qed

lemma vm0_room: "3 \<le> card (vm_free vm0)"
  by (simp add: vm0_inv(2))

section \<open>Mapping and unmapping\<close>

text \<open>
  C6. When \<open>map_page\<close> returns, the page of \<open>virt\<close> translates to the frame of \<open>phys\<close> and every other
  page translates as before; the tables are still a tree of used frames, the frames that were
  taken became tables, and no frame outside the free ones and the tables was written.
\<close>

theorem map_page_translates:
  assumes "vm_inv r s" and "map_page phys virt r s = Inr s'"
  shows "vm_inv r s' \<and>
    (\<forall>v. translate (phys_mem s') r v =
       (if vpn v = vpn virt then Some (phys AND PTE_ADDR_MASK) else translate (phys_mem s) r v)) \<and>
    vm_free s' = vm_free s - vm_tables r s' \<and> vm_tables r s \<subseteq> vm_tables r s' \<and>
    (\<forall>f k. f mod PAGE_SIZE = 0 \<and> k < 512 \<and> f \<notin> vm_free s \<and> f \<notin> vm_tables r s \<longrightarrow>
       phys_mem s' (f + 8 * k) = phys_mem s (f + 8 * k))"
  using map_page_spec(1) [OF assms] map_page_spec(2) [OF assms]
  by (auto simp: pt_frame_def idx_path_eq_iff)

theorem map_page_translates_witness:
  "\<exists>s'. map_page 0x7000 0xFFFFFFFE00003000 0x2000 vm0 = Inr s' \<and>
     translate (phys_mem s') 0x2000 0xFFFFFFFE00003000 = Some 0x7000"
proof -
  obtain s' where run: "map_page 0x7000 0xFFFFFFFE00003000 0x2000 vm0 = Inr s'"
    using map_page_total [OF vm0_inv(1) vm0_room] by blast
  with map_page_translates [OF vm0_inv(1) run] show ?thesis by auto
qed

text \<open>
  C7. Unmapping what \<open>map_page\<close> mapped: for a page that was not mapped before, \<open>unmap_page\<close> after
  \<open>map_page\<close> returns the mapped frame, and the translation is back to what it was.
\<close>

theorem unmap_page_inverts:
  assumes "vm_inv r s" and "map_page phys virt r s = Inr s1" and "unmap_page virt r s1 = (f, s2)"
    and "translate (phys_mem s) r virt = None" and "phys mod PAGE_SIZE = 0" and "phys < 0x10000000000000"
  shows "f = phys \<and> translate (phys_mem s2) r = translate (phys_mem s) r \<and> vm_inv r s2 \<and>
    vm_free s2 = vm_free s1"
proof -
  note m = map_page_spec [OF assms(1,2)]
  note u = unmap_page_spec [OF pt_frame_inv [OF m(1)] assms(3)]
  have "translate (phys_mem s1) r virt = Some phys"
    using m(2) [of virt] addr_mask_id [OF assms(5,6)] by simp
  then have "f = phys" by (rule u(5))
  moreover have "translate (phys_mem s2) r v = translate (phys_mem s) r v" for v
    using m(2) [of v] u(4) [of v] assms(4) by (auto simp: translate_def)
  ultimately show ?thesis using pt_frame_inv [OF u(1)] u(2) by (simp add: fun_eq_iff)
qed

theorem unmap_page_inverts_witness:
  "\<exists>s1 s2. map_page 0x7000 0x5000 0x2000 vm0 = Inr s1 \<and> unmap_page 0x5000 0x2000 s1 = (0x7000, s2) \<and>
     translate (phys_mem s2) 0x2000 = translate (phys_mem vm0) 0x2000"
proof -
  obtain s1 where run: "map_page 0x7000 0x5000 0x2000 vm0 = Inr s1"
    using map_page_total [OF vm0_inv(1) vm0_room] by blast
  obtain f s2 where un: "unmap_page 0x5000 0x2000 s1 = (f, s2)" by force
  have none: "translate (phys_mem vm0) 0x2000 0x5000 = None" by code_simp
  from unmap_page_inverts [OF vm0_inv(1) run un none] run un show ?thesis by auto
qed

section \<open>Allocating virtual pages\<close>

lemma vallocs_Inr:
  assumes "vallocs zero count s = Inr (start, s')" and "count \<noteq> 0"
  obtains ok s1 where "vallocs_loop zero (cr3 s AND PTE_ADDR_MASK) (next_virt s) (unat count) 0 s = Inr (ok, s1)"
    and "if ok then start = next_virt s \<and> s' = s1\<lparr>next_virt := next_virt s1 + count * PAGE_SIZE\<rparr>
      else start = 0 \<and> s' = s1"
  using assms unfolding vallocs_def Let_def by (auto simp: bind_result_Inr_iff split: if_splits)



text \<open>C9. With four free frames per page \<open>vallocs\<close> succeeds: it neither panics nor returns 0.\<close>

theorem vallocs_succeeds:
  assumes "vm_inv (cr3 s AND PTE_ADDR_MASK) s" and "4 * unat count \<le> card (vm_free s)" and "count \<noteq> 0"
  shows "\<exists>s'. vallocs zero count s = Inr (next_virt s, s')"
  using vallocs_loop_total [OF assms(1) refl assms(2), of zero "next_virt s" 0] assms(3)
  by (auto simp: vallocs_def Let_def)

theorem vallocs_succeeds_witness: "\<exists>s'. vallocs False 5 vm0 = Inr (KHEAP_BASE, s')"
proof -
  have f: "next_virt vm0 = KHEAP_BASE" "cr3 vm0 AND PTE_ADDR_MASK = 0x2000" by code_simp+
  show ?thesis using vallocs_succeeds [of vm0 5 False] vm0_inv by (simp add: f)
qed

text \<open>
  C10. Giving back what \<open>vallocs\<close> returned: \<open>vfrees\<close> of the run unmaps it, and the frames of the run
  are free again; only frames that became page tables stay in use.
\<close>

theorem vallocs_vfrees:
  assumes inv: "vm_inv (cr3 s AND PTE_ADDR_MASK) s" and al: "next_virt s mod PAGE_SIZE = 0" "next_virt s \<noteq> 0"
    and cnt: "0 < unat count" "unat count \<le> 68719476736"
    and run: "vallocs zero count s = Inr (start, s1)" "start \<noteq> 0"
    and fresh: "\<forall>j<unat count. translate (phys_mem s) (cr3 s AND PTE_ADDR_MASK) (next_virt s + word_of_nat j * PAGE_SIZE) = None"
  defines "s2 \<equiv> vfrees start count s1"
  shows "translate (phys_mem s2) (cr3 s AND PTE_ADDR_MASK) = translate (phys_mem s) (cr3 s AND PTE_ADDR_MASK) \<and>
    vm_free s2 = vm_free s - vm_tables (cr3 s AND PTE_ADDR_MASK) s2 \<and> vm_inv (cr3 s AND PTE_ADDR_MASK) s2"
proof -
  let ?r = "cr3 s AND PTE_ADDR_MASK"
  have nz: "count \<noteq> 0" using cnt(1) by auto
  obtain t where loop: "vallocs_loop zero ?r (next_virt s) (unat count) 0 s = Inr (True, t)"
    and start: "start = next_virt s" and s1: "s1 = t\<lparr>next_virt := next_virt t + count * PAGE_SIZE\<rparr>"
    using vallocs_Inr [OF run(1) nz] run(2) by (metis (full_types))
  have st: "vallocs_state zero ?r (next_virt s) s [] s"
    using vm_step_refl [OF inv] by (simp add: vallocs_state_def run_map_def)
  obtain fs where fs: "length fs = unat count" "vallocs_state zero ?r (next_virt s) s fs t"
    using vallocs_loop_spec [OF st inv refl al(1), of "unat count" True t] cnt(2) loop by auto
  have a: "vm_step ?r (set fs) s t" "distinct fs"
    "run_map (translate (phys_mem s) ?r) (next_virt s) fs 0 (translate (phys_mem t) ?r)"
    using fs(2) by (auto simp: vallocs_state_def)
  define u where "u = s\<lparr>next_virt := next_virt s1\<rparr>"
  have u: "vm_step ?r (set fs) u s1" "vm_inv ?r u"
    using a(1) inv s1 by (auto simp: vm_step_def vm_inv_def u_def)
  have rm: "run_map (translate (phys_mem s) ?r) (next_virt s) fs 0 (translate (phys_mem s1) ?r)"
    using a(3) s1 by simp
  have "?r = cr3 u AND PTE_ADDR_MASK" "length fs \<le> 68719476736" using fs(1) cnt(2) by (simp_all add: u_def)
  note vf = vfrees_run [OF u(1) a(2) u(2) rm this(1) al(1) this(2)]
  have s2: "s2 = vfrees (next_virt s) (word_of_nat (length fs)) s1" by (simp add: s2_def start fs(1))
  have "translate (phys_mem s2) ?r v = translate (phys_mem s) ?r v" for v
  proof (cases "\<exists>j<length fs. idx_path v = idx_path (next_virt s + word_of_nat j * PAGE_SIZE)")
    case True
    then obtain j where j: "j < length fs" "idx_path v = idx_path (next_virt s + word_of_nat j * PAGE_SIZE)" by blast
    then have "translate (phys_mem s2) ?r v = None" using vf(2) by (auto simp: run_map_def s2)
    moreover have "translate (phys_mem s) ?r v = None"
      using fresh j fs(1) by (simp add: translate_def)
    ultimately show ?thesis by simp
  next
    case False
    then show ?thesis using vf(2) by (auto simp: run_map_def s2)
  qed
  moreover have "vm_free s2 = vm_free s - vm_tables ?r s2" "vm_inv ?r s2"
    using vm_stepD(1,9) [OF vf(1)] by (auto simp: s2 u_def)
  ultimately show ?thesis by (simp add: fun_eq_iff)
qed

theorem vallocs_vfrees_witness:
  "\<exists>s1. vallocs True 2 vm0 = Inr (KHEAP_BASE, s1) \<and>
     translate (phys_mem (vfrees KHEAP_BASE 2 s1)) 0x2000 = translate (phys_mem vm0) 0x2000"
proof -
  have f: "next_virt vm0 = KHEAP_BASE" "cr3 vm0 AND PTE_ADDR_MASK = 0x2000" by code_simp+
  have "fst (projr (vallocs True 2 vm0)) = KHEAP_BASE" "\<not> isl (vallocs True 2 vm0)" by code_simp+
  then obtain s1 where run: "vallocs True 2 vm0 = Inr (KHEAP_BASE, s1)"
    by (cases "vallocs True 2 vm0") auto
  have "translate (phys_mem vm0) 0x2000 v = None" for v
    by (simp add: translate_def idx_path_def vm0_def)
  then show ?thesis
    using vallocs_vfrees [of vm0 2 True KHEAP_BASE s1, unfolded f, OF vm0_inv(1) _ _ _ _ run] run by simp
qed

section \<open>Ranges and the kernel's address space\<close>

lemma map_ranges_cases:
  assumes "vm_inv r s" and "\<forall>x \<in> set rs. range_ok x"
  obtains (panic) msg where "map_ranges r rs s = Some (Inl (Kernel_Panic msg))"
  | (mapped) s' where "map_ranges r rs s = Some (Inr s')" and "pt_frame r s s'"
      and "max_physical_address (vm_pmm s') = max_physical_address (vm_pmm s)"
      and "translate (phys_mem s') r = override_all rs (translate (phys_mem s) r)"
proof -
  obtain res where res: "map_ranges r rs s = Some res" "case res of Inl h \<Rightarrow> \<exists>msg. h = Kernel_Panic msg
    | Inr s' \<Rightarrow> pt_frame r s s' \<and> max_physical_address (vm_pmm s') = max_physical_address (vm_pmm s) \<and>
        translate (phys_mem s') r = override_all rs (translate (phys_mem s) r)"
    using map_ranges_spec [OF assms] by blast
  then show thesis using that by (cases res) auto
qed

text \<open>
  C11. \<open>map_range\<close> of a range of at most $2^{48}$ bytes, counted from the start of its first page,
  ends; it panics only for want of page tables, and otherwise the translation afterwards is the
  one before with the pages of the range sent to consecutive frames.
\<close>

theorem map_range_refines:
  assumes "vm_inv r s" and "range_ok (phys, virt, sz)"
  shows "(\<exists>msg. map_range phys virt sz r s = Some (Inl (Kernel_Panic msg))) \<or>
    (\<exists>s'. map_range phys virt sz r s = Some (Inr s') \<and> vm_inv r s' \<and>
       translate (phys_mem s') r = range_override phys virt (range_pages phys sz) (translate (phys_mem s) r))"
proof (rule map_ranges_cases [OF assms(1), of "[(phys, virt, sz)]"])
  show "\<forall>x \<in> set [(phys, virt, sz)]. range_ok x" using assms(2) by simp
qed (auto simp: map_ranges_fun override_all_def dest: pt_frame_inv)

theorem map_range_refines_witness:
  "\<exists>s'. map_range 0x6000 0x5800 0x1001 0x2000 vm0 = Some (Inr s') \<and>
     translate (phys_mem s') 0x2000 0x6123 = Some 0x7000 \<and> translate (phys_mem s') 0x2000 0x7000 = None"
proof -
  have ok: "range_ok (0x6000, 0x5800, 0x1001)" by (simp add: range_ok_def)
  have "map_range 0x6000 0x5800 0x1001 0x2000 vm0 = Some (map_pages 0x6000 0x5000 0x2000 2 vm0)"
  proof -
    have "0x6000 AND PAGE_MASK = (0x6000 :: u64)" "0x5800 AND PAGE_MASK = (0x5000 :: u64)" "range_pages 0x6000 0x1001 = 2"
      by (simp_all add: range_pages_def)
    with map_range_eq [OF range_okD(2) [OF ok], of "0x5800" "0x2000" vm0] show ?thesis by (simp only:)
  qed
  moreover have "\<not> isl (map_pages 0x6000 0x5000 0x2000 2 vm0)" by code_simp
  ultimately obtain s' where run: "map_range 0x6000 0x5800 0x1001 0x2000 vm0 = Some (Inr s')"
    by (cases "map_pages 0x6000 0x5000 0x2000 2 vm0") auto
  have "translate (phys_mem vm0) 0x2000 0x7000 = None" by code_simp
  moreover have "range_override 0x6000 0x5800 (range_pages 0x6000 0x1001) T 0x6123 = Some 0x7000"
    "range_override 0x6000 0x5800 (range_pages 0x6000 0x1001) T 0x7000 = T 0x7000" for T
    by (simp_all add: range_override_def range_pages_def vpn_def)
  ultimately show ?thesis
    using map_range_refines [OF vm0_inv(1) ok] run by auto
qed

lemma init_vmm_spec:
  assumes "pmm_ready (vm_pmm s)" and "\<forall>a \<in> managed_frames (vm_pmm s). a < 0x10000000000000"
    and "\<not> virtual_mem_initialized s" and "memory_descriptor_size boot \<noteq> 0"
    and "\<forall>x \<in> set (init_ranges env descs boot_addr boot (max_physical_address (vm_pmm s))). range_ok x"
  shows "(\<exists>msg. init_vmm env descs boot_addr boot s = Some (Inl (Kernel_Panic msg))) \<or>
    (\<exists>s'. init_vmm env descs boot_addr boot s = Some (Inr s') \<and> vm_inv (cr3 s') s' \<and>
       cr3 s' AND PTE_ADDR_MASK = cr3 s' \<and> virtual_mem_initialized s' \<and> next_virt s' = next_virt s \<and>
       translate (phys_mem s') (cr3 s') =
         override_all (init_ranges env descs boot_addr boot (max_physical_address (vm_pmm s)))
           (range_override 0 0 512 (\<lambda>_. None)))"
proof (cases "init_vmm_tables s")
  case (Inl h)
  then have "\<exists>msg. h = Kernel_Panic msg"
    by (auto simp: init_vmm_tables_def Let_def split: if_splits prod.splits)
  with Inl show ?thesis by (auto simp: init_vmm_ranges [OF assms(4)])
next
  case (Inr a)
  obtain r s1 where a: "a = (r, s1)" by (cases a)
  note t = init_vmm_tables_spec [OF assms(1-3) Inr [unfolded a]]
  let ?mx = "max_physical_address (vm_pmm s)"
  let ?ks = "kernel_ranges env boot" and ?ls = "(0, PASSTHRU_BASE, ?mx) # late_ranges env descs boot_addr boot"
  have ok: "\<forall>x \<in> set ?ks. range_ok x" "\<forall>x \<in> set ?ls. range_ok x"
    using assms(5) by (auto simp: init_ranges_def)
  from t(1) ok(1) show ?thesis
  proof (cases rule: map_ranges_cases)
    case panic
    then show ?thesis by (simp add: init_vmm_ranges [OF assms(4)] Inr a)
  next
    case (mapped s2)
    have mx: "max_physical_address (vm_pmm s2) = ?mx" using mapped(3) t(6) by simp
    have unfolded: "init_vmm env descs boot_addr boot s =
      bind_loop (map_ranges r ?ls s2) (\<lambda>s'. Some (Inr (s'\<lparr>virtual_mem_initialized := True, cr3 := r\<rparr>)))"
      using mapped(1) mx by (simp add: init_vmm_ranges [OF assms(4)] Inr a)
    have tr: "override_all ?ls (translate (phys_mem s2) r) =
      override_all (init_ranges env descs boot_addr boot ?mx) (range_override 0 0 512 (\<lambda>_. None))"
      using mapped(4) t(3) by (simp add: override_all_def init_ranges_def)
    from pt_frame_inv [OF mapped(2)] ok(2) show ?thesis
    proof (cases rule: map_ranges_cases)
      case panic
      then show ?thesis by (simp add: unfolded)
    next
      case (mapped s3)
      have "vm_inv r (s3\<lparr>virtual_mem_initialized := True, cr3 := r\<rparr>)" "next_virt s3 = next_virt s"
        using pt_frame_inv [OF mapped(2)] vm_stepD(3) [OF vm_step_pt_frame [OF mapped(2)]]
          vm_stepD(3) [OF vm_step_pt_frame [OF \<open>pt_frame r s1 s2\<close>]] t(4) by (simp_all add: vm_inv_def)
      with mapped(1,4) t(2) tr show ?thesis by (simp add: unfolded)
    qed
  qed
qed

lemma init_vmm_tables_room:
  assumes "pmm_ready (vm_pmm s)" and "4 \<le> card (vm_free s)"
  shows "\<exists>r s1. init_vmm_tables s = Inr (r, s1) \<and> card (vm_free s) = card (vm_free s1) + 4"
proof -
  have step: "\<exists>a q. palloc p = (a, q) \<and> a \<noteq> 0 \<and> pmm_ready q \<and> card (free_frames p) = Suc (card (free_frames q))"
    if "pmm_ready p" "0 < card (free_frames p)" for p
  proof -
    obtain a q where al: "palloc p = (a, q)" by force
    have nz: "a \<noteq> 0" using pages.alloc_zero_iff [OF that(1)] that(2) al by auto
    note pm = pages.alloc_some [OF that(1) al nz]
    have "card (free_frames p) = Suc (card (free_frames q))"
      using that(2) pm(1) by (simp add: pm(2) card_gt_0_iff card_Suc_Diff1)
    with al nz pm(3) show ?thesis by blast
  qed
  obtain a p1 where 1: "palloc (vm_pmm s) = (a, p1)" "a \<noteq> 0" "pmm_ready p1" "card (vm_free s) = Suc (card (free_frames p1))"
    using step [OF assms(1)] assms(2) by auto
  obtain b p2 where 2: "palloc p1 = (b, p2)" "b \<noteq> 0" "pmm_ready p2" "card (free_frames p1) = Suc (card (free_frames p2))"
    using step [OF 1(3)] 1(4) assms(2) by auto
  obtain c p3 where 3: "palloc p2 = (c, p3)" "c \<noteq> 0" "pmm_ready p3" "card (free_frames p2) = Suc (card (free_frames p3))"
    using step [OF 2(3)] 1(4) 2(4) assms(2) by auto
  obtain d p4 where 4: "palloc p3 = (d, p4)" "d \<noteq> 0" "card (free_frames p3) = Suc (card (free_frames p4))"
    using step [OF 3(3)] 1(4) 2(4) 3(4) assms(2) by auto
  have "vm_pmm (for_u64 n (\<lambda>i. store64 (p i) (g i)) t) = vm_pmm t" for n p g t
    by (rule for_u64_frame) (simp add: store64_def)
  with 1 2 3 4 show ?thesis
    by (simp add: init_vmm_tables_def Let_def memset_zero_def store64_def)
qed

lemma init_vmm_total:
  assumes "pmm_ready (vm_pmm s)" and "\<forall>a \<in> managed_frames (vm_pmm s). a < 0x10000000000000"
    and "\<not> virtual_mem_initialized s" and "memory_descriptor_size boot \<noteq> 0"
    and "\<forall>x \<in> set (init_ranges env descs boot_addr boot (max_physical_address (vm_pmm s))). range_ok x"
    and room: "4 + tables_needed (init_ranges env descs boot_addr boot (max_physical_address (vm_pmm s))) \<le> card (vm_free s)"
  shows "\<exists>s'. init_vmm env descs boot_addr boot s = Some (Inr s')"
proof -
  let ?mx = "max_physical_address (vm_pmm s)"
  let ?ks = "kernel_ranges env boot" and ?ls = "(0, PASSTHRU_BASE, ?mx) # late_ranges env descs boot_addr boot"
  obtain r s1 where tab: "init_vmm_tables s = Inr (r, s1)" and c1: "card (vm_free s) = card (vm_free s1) + 4"
    using init_vmm_tables_room [OF assms(1)] room by auto
  note t = init_vmm_tables_spec [OF assms(1-3) tab]
  have ok: "\<forall>x \<in> set ?ks. range_ok x" "\<forall>x \<in> set ?ls. range_ok x"
    using assms(5) by (auto simp: init_ranges_def)
  have sum: "tables_needed (init_ranges env descs boot_addr boot ?mx) = tables_needed ?ks + tables_needed ?ls"
    by (simp add: tables_needed_def init_ranges_def)
  have "tables_needed ?ks \<le> card (vm_free s1)" using room c1 sum by linarith
  from map_ranges_total [OF t(1) ok(1) this] obtain s2 where
    s2: "map_ranges r ?ks s1 = Some (Inr s2)" "card (vm_free s1) \<le> card (vm_free s2) + tables_needed ?ks" by blast
  have m: "pt_frame r s1 s2" "max_physical_address (vm_pmm s2) = ?mx"
    using map_ranges_spec [OF t(1) ok(1)] s2(1) t(6) by auto
  have "tables_needed ?ls \<le> card (vm_free s2)" using room c1 s2(2) sum by linarith
  from map_ranges_total [OF pt_frame_inv [OF m(1)] ok(2) this] obtain s3 where
    "map_ranges r ?ls s2 = Some (Inr s3)" by blast
  then show ?thesis using tab s2(1) m(2) by (simp add: init_vmm_ranges [OF assms(4)])
qed

text \<open>The boot of the small machine: 65 pages of memory, no APIC.\<close>

definition vm_boot :: vmm where
  "vm_boot = \<lparr>vm_pmm = vm_pmm0, phys_mem = (\<lambda>_. 0), cr3 = 0, next_virt = KHEAP_BASE, virtual_mem_initialized = False\<rparr>"

definition vm_env :: cpu_env where
  "vm_env = \<lparr>read_rsp = 0x100000, read_rip = 0x10100, cpuid_1_edx = 0, cpuid_1_ecx = 0, msr_1B = 0xFEE00900\<rparr>"

definition vm_bootinfo :: BootInfo where
  "vm_bootinfo = \<lparr>magic = BOOTINFOMAGIC, framebuffer_base = 0x80000, framebuffer_size = 0x1000, width = 16, height = 16,
     pixels_per_scanline = 16, framebuffer_pixel_format = 1, memory_map = 0x8000, memory_map_size = 40,
     memory_descriptor_size = 40, kernel_physical_address = 0x10000, kernel_physical_address_start = 0x10000,
     kernel_physical_address_end = 0x12000, kernel_virtual_address = 0x10000, kernel_size = 0x2000,
     initramfs_address = 0x14000, initramfs_size = 0x800\<rparr>"

lemma vm_boot_facts:
  "pmm_ready (vm_pmm vm_boot)" "\<forall>a \<in> managed_frames (vm_pmm vm_boot). a < 0x10000000000000"
  "\<not> virtual_mem_initialized vm_boot" "memory_descriptor_size vm_bootinfo \<noteq> 0"
  "max_physical_address (vm_pmm vm_boot) = 0x41000"
proof -
  show "pmm_ready (vm_pmm vm_boot)" "\<forall>a \<in> managed_frames (vm_pmm vm_boot). a < 0x10000000000000"
    using vm_pmm0_ready(1) vm_pmm0_managed by (simp_all add: vm_boot_def)
  show "\<not> virtual_mem_initialized vm_boot" "memory_descriptor_size vm_bootinfo \<noteq> 0"
    by (simp_all add: vm_boot_def vm_bootinfo_def)
  show "max_physical_address (vm_pmm vm_boot) = 0x41000" by code_simp
qed

lemma vm_boot_ranges:
  "kernel_ranges vm_env vm_bootinfo = [(0x10000, 0x10000, 0x2000), (0xF0000, 0xF0000, 0x20000),
     (0xF000, 0xF000, 0xA000), (0x80000, 0x80000, 0x1000)]"
  "late_ranges vm_env vm_descs 0x9000 vm_bootinfo = [(0x14000, 0x14000, 0x800), (0x9000, 0x9000, 0x1000), (0x8000, 0x8000, 40)]"
  by (simp_all add: kernel_ranges_def late_ranges_def apic_ranges_def vm_env_def vm_bootinfo_def)

lemma vm_boot_ok: "\<forall>x \<in> set (init_ranges vm_env vm_descs 0x9000 vm_bootinfo (max_physical_address (vm_pmm vm_boot))). range_ok x"
  by (simp add: vm_boot_facts(5) init_ranges_def vm_boot_ranges range_ok_def)

lemma vm_boot_room:
  "4 + tables_needed (init_ranges vm_env vm_descs 0x9000 vm_bootinfo (max_physical_address (vm_pmm vm_boot)))
   \<le> card (vm_free vm_boot)"
proof -
  have "pmm_inv (vm_pmm vm_boot)" using vm_boot_facts(1) by (simp add: pmm_ready_def)
  from card_free_frames [OF this] unat_free_pages [OF this] have "card (vm_free vm_boot) = 63"
    by (simp add: vm_boot_def vm_pmm0_ready(3))
  moreover have "tables_needed (init_ranges vm_env vm_descs 0x9000 vm_bootinfo 0x41000) = 48"
    by (simp add: tables_needed_def init_ranges_def vm_boot_ranges range_pages_def)
  ultimately show ?thesis by (simp add: vm_boot_facts(5))
qed

text \<open>
  C12. \<open>init_vmm\<close>, started on a ready physical memory manager, ends. It stops with a panic only if
  there are fewer free frames than four and the tables its ranges may need, three for every 2 MiB
  they touch. Otherwise it leaves a tree of page tables in force whose translation is that of the
  first 2 MiB to themselves, overridden by the ranges of the kernel image, the stack, the code
  around the instruction pointer, the framebuffer, the physical window, the initial ramdisk, with
  an APIC the conventional memory and the APIC registers, the boot information and the memory map,
  in this order.
\<close>

theorem init_vmm_address_space:
  assumes "pmm_ready (vm_pmm s)" and "\<forall>a \<in> managed_frames (vm_pmm s). a < 0x10000000000000"
    and "\<not> virtual_mem_initialized s" and "memory_descriptor_size boot \<noteq> 0"
    and "\<forall>x \<in> set (init_ranges env descs boot_addr boot (max_physical_address (vm_pmm s))). range_ok x"
  shows "(\<exists>msg. init_vmm env descs boot_addr boot s = Some (Inl (Kernel_Panic msg)) \<and>
       card (vm_free s) < 4 + tables_needed (init_ranges env descs boot_addr boot (max_physical_address (vm_pmm s)))) \<or>
    (\<exists>s'. init_vmm env descs boot_addr boot s = Some (Inr s') \<and> vm_inv (cr3 s') s' \<and>
       cr3 s' AND PTE_ADDR_MASK = cr3 s' \<and> virtual_mem_initialized s' \<and> next_virt s' = next_virt s \<and>
       translate (phys_mem s') (cr3 s') =
         override_all (init_ranges env descs boot_addr boot (max_physical_address (vm_pmm s)))
           (range_override 0 0 512 (\<lambda>_. None)))"
  using init_vmm_spec [OF assms] init_vmm_total [OF assms] by (cases rule: linorder_not_less [THEN iffD1, elim_format]) auto

theorem init_vmm_address_space_witness:
  "\<exists>s'. init_vmm vm_env vm_descs 0x9000 vm_bootinfo vm_boot = Some (Inr s') \<and>
     translate (phys_mem s') (cr3 s') 0x10000 = Some 0x10000"
proof -
  have "override_all (init_ranges vm_env vm_descs 0x9000 vm_bootinfo 0x41000) T 0x10000 = Some 0x10000" for T
    by (simp add: override_all_def init_ranges_def vm_boot_ranges range_override_def range_pages_def vpn_def)
  then show ?thesis
    using init_vmm_address_space [OF vm_boot_facts(1-4) vm_boot_ok] vm_boot_room by (auto simp: vm_boot_facts(5))
qed

text \<open>
  A range the page is not part of leaves its translation alone, so the last range that covers a
  page decides.
\<close>

definition in_range :: "u64 \<Rightarrow> mapped_range \<Rightarrow> bool" where
  "in_range v = (\<lambda>(phys, virt, sz). (vpn v + 68719476736 - vpn virt) mod 68719476736 < range_pages phys sz)"

lemma override_all_miss:
  "\<forall>x \<in> set rs. \<not> in_range v x \<Longrightarrow> override_all rs T v = T v"
proof (induction rs arbitrary: T)
  case (Cons x rs)
  obtain p w z where x: "x = (p, w, z)" by (cases x)
  have "override_all (x # rs) T v = override_all rs (range_override p w (range_pages p z) T) v"
    by (simp add: override_all_def x)
  also have "\<dots> = range_override p w (range_pages p z) T v" using Cons by simp
  also have "\<dots> = T v" using Cons.prems x by (auto simp: range_override_def in_range_def Let_def)
  finally show ?case .
qed (simp add: override_all_def)

lemma passthru_override:
  assumes "a mod PAGE_SIZE = 0" and "a < mx" and "mx \<le> 0x80000000"
  shows "range_override 0 PASSTHRU_BASE (range_pages 0 mx) T (get_virt_addr a) = Some a"
proof -
  obtain x where x: "unat a = 4096 * x" using assms(1) by (rule aligned_unat)
  have lt: "unat a < unat mx" "unat mx \<le> 0x80000000"
    using assms(2,3) by (simp_all add: word_less_nat_alt word_le_nat_alt)
  have w: "word_of_nat x * PAGE_SIZE = a"
    using x lt by (simp add: u64_eq_iff_unat unat_mult_u64 unat_of_nat_u64)
  have v: "x = (vpn (get_virt_addr a) + 68719476736 - vpn PASSTHRU_BASE) mod 68719476736"
  proof -
    have "PASSTHRU_BASE mod PAGE_SIZE = 0" by code_simp
    moreover have "get_virt_addr a = PASSTHRU_BASE + word_of_nat x * PAGE_SIZE"
      unfolding get_virt_addr_def w by (rule add.commute)
    moreover have "x < 68719476736" using x lt by simp
    ultimately show ?thesis using vpn_offset [of PASSTHRU_BASE x "get_virt_addr a"] by metis
  qed
  have n: "x < range_pages 0 mx" using lt x by (simp add: range_pages_def)
  have "a AND PTE_ADDR_MASK = a"
    by (rule addr_mask_id) (use assms lt in \<open>simp_all add: word_less_nat_alt\<close>)
  then show ?thesis using n w unfolding range_override_def Let_def v [symmetric] by simp
qed

text \<open>
  C13. The physical window: on a machine whose physical addresses end at or below 2 GiB, after
  \<open>init_vmm\<close> the address \<open>get_virt_addr(a)\<close> of every page frame translates to the frame \<open>a\<close> itself,
  provided none of the ranges mapped after the window covers it. This is what \<open>page_table_ptr\<close>
  relies on once the new tables are in force.
\<close>

theorem passthru_window:
  assumes "pmm_ready (vm_pmm s)" and "\<forall>a \<in> managed_frames (vm_pmm s). a < 0x10000000000000"
    and "\<not> virtual_mem_initialized s" and "memory_descriptor_size boot \<noteq> 0"
    and "\<forall>x \<in> set (init_ranges env descs boot_addr boot (max_physical_address (vm_pmm s))). range_ok x"
    and "init_vmm env descs boot_addr boot s = Some (Inr s')"
    and "max_physical_address (vm_pmm s) \<le> 0x80000000"
    and "a mod PAGE_SIZE = 0" and "a < max_physical_address (vm_pmm s)"
    and "\<forall>x \<in> set (late_ranges env descs boot_addr boot). \<not> in_range (get_virt_addr a) x"
  shows "translate (phys_mem s') (cr3 s') (get_virt_addr a) = Some a"
proof -
  let ?mx = "max_physical_address (vm_pmm s)"
  have app: "override_all (xs @ (p, w, z) # ys) T =
      override_all ys (range_override p w (range_pages p z) (override_all xs T))" for xs p w z ys T
    by (simp add: override_all_def)
  have "translate (phys_mem s') (cr3 s') = override_all (init_ranges env descs boot_addr boot ?mx)
      (range_override 0 0 512 (\<lambda>_. None))"
    using init_vmm_spec [OF assms(1-5)] assms(6) by auto
  then show ?thesis
    unfolding init_ranges_def app using override_all_miss [OF assms(10)] passthru_override [OF assms(8,9,7)] by simp
qed

theorem passthru_window_witness:
  "\<exists>s'. init_vmm vm_env vm_descs 0x9000 vm_bootinfo vm_boot = Some (Inr s') \<and>
     translate (phys_mem s') (cr3 s') 0xFFFFFFFF80003000 = Some 0x3000"
proof -
  have miss: "\<forall>x \<in> set (late_ranges vm_env vm_descs 0x9000 vm_bootinfo). \<not> in_range (get_virt_addr 0x3000) x"
    by (simp add: vm_boot_ranges in_range_def range_pages_def vpn_def get_virt_addr_def)
  obtain s' where run: "init_vmm vm_env vm_descs 0x9000 vm_bootinfo vm_boot = Some (Inr s')"
    using init_vmm_total [OF vm_boot_facts(1-4) vm_boot_ok vm_boot_room] by blast
  from passthru_window [OF vm_boot_facts(1-4) vm_boot_ok run _ _ _ miss] run
  show ?thesis by (simp add: vm_boot_facts(5) get_virt_addr_def)
qed

text \<open>
  The window is 2 GiB wide and ends at the top of the address space. With more physical memory
  the range wraps around, and the pages above 2 GiB replace the identity map of low memory.
\<close>

lemma passthru_wraps:
  "range_override 0 PASSTHRU_BASE (range_pages 0 0x80001000) (\<lambda>v. Some v) 0 = Some 0x80000000"
  by (simp add: range_override_def range_pages_def vpn_def)

end
