(* ===== verification/Str.thy ===== *)
theory Str
  imports Prelude
begin

unbundle bit_operations_syntax

text \<open>
  The memory and string routines, \<open>kernel/lib/string.c\<close>, over a byte memory: a function from 64-bit
  addresses to bytes, with the pointer arithmetic of the machine, which wraps.

  \<open>memcpy\<close> has two bodies, chosen at compile time: the \<open>rep movsb\<close> instruction, which is
  \<open>memcpy_movsb\<close>, and the loops by 32, 8 and 1 bytes, which are \<open>memcpy\<close>. Loops that run until they
  meet a NUL byte are partial functions; \<open>None\<close> is a loop that never ends.

  The lemmas show that both bodies of \<open>memcpy\<close> copy disjoint blocks, that \<open>memmove\<close> copies
  overlapping ones as well, and that the string routines, on NUL-terminated strings, end and agree
  with the operations on lists of bytes.
\<close>

section \<open>The code\<close>

type_synonym mem = "u64 \<Rightarrow> u8"

text \<open>A load of \<open>n\<close> bytes at \<open>s\<close> followed by a store of them at \<open>d\<close>.\<close>

definition block_copy :: "u64 \<Rightarrow> u64 \<Rightarrow> u64 \<Rightarrow> mem \<Rightarrow> mem" where
  "block_copy n d s m = (\<lambda>a. if a - d < n then m (s + (a - d)) else m a)"

function memcpy_32 :: "u64 \<Rightarrow> u64 \<Rightarrow> u64 \<Rightarrow> mem \<Rightarrow> u64 \<times> u64 \<times> u64 \<times> mem" where
  "memcpy_32 d s n m =
     (if 32 \<le> n then
        let m1 = block_copy 8 d s m;
            m2 = block_copy 8 (d + 8) (s + 8) m1;
            m3 = block_copy 8 (d + 16) (s + 16) m2;
            m4 = block_copy 8 (d + 24) (s + 24) m3
        in memcpy_32 (d + 32) (s + 32) (n - 32) m4
      else (d, s, n, m))"
  by auto
termination
  by (relation "measure (\<lambda>(d, s, n, m). unat n)") (auto simp: word_le_nat_alt unat_sub_u64)

function memcpy_8 :: "u64 \<Rightarrow> u64 \<Rightarrow> u64 \<Rightarrow> mem \<Rightarrow> u64 \<times> u64 \<times> u64 \<times> mem" where
  "memcpy_8 d s n m =
     (if 8 \<le> n then memcpy_8 (d + 8) (s + 8) (n - 8) (block_copy 8 d s m) else (d, s, n, m))"
  by auto
termination
  by (relation "measure (\<lambda>(d, s, n, m). unat n)") (auto simp: word_le_nat_alt unat_sub_u64)

text \<open>\<open>while (n--) *d++ = *s++;\<close>\<close>

primrec copy_up :: "nat \<Rightarrow> u64 \<Rightarrow> u64 \<Rightarrow> mem \<Rightarrow> mem" where
  "copy_up 0 d s m = m"
| "copy_up (Suc n) d s m = copy_up n (d + 1) (s + 1) (m(d := m s))"

text \<open>\<open>while (n--) *--d = *--s;\<close>\<close>

primrec copy_down :: "nat \<Rightarrow> u64 \<Rightarrow> u64 \<Rightarrow> mem \<Rightarrow> mem" where
  "copy_down 0 d s m = m"
| "copy_down (Suc n) d s m = copy_down n (d - 1) (s - 1) (m(d - 1 := m (s - 1)))"

definition memcpy :: "u64 \<Rightarrow> u64 \<Rightarrow> u64 \<Rightarrow> mem \<Rightarrow> u64 \<times> mem" where
  "memcpy dest src n m =
     (let ret = dest;
          (d1, s1, n1, m1) = memcpy_32 dest src n m;
          (d2, s2, n2, m2) = memcpy_8 d1 s1 n1 m1
      in (ret, copy_up (unat n2) d2 s2 m2))"

text \<open>
  The instruction leaves the advanced pointer in \<open>rdi\<close>, which is the operand \<open>dest\<close>, and \<open>dest\<close> is
  what the function returns.
\<close>

definition memcpy_movsb :: "u64 \<Rightarrow> u64 \<Rightarrow> u64 \<Rightarrow> mem \<Rightarrow> u64 \<times> mem" where
  "memcpy_movsb dest src n m = (dest + n, copy_up (unat n) dest src m)"

definition memmove :: "u64 \<Rightarrow> u64 \<Rightarrow> u64 \<Rightarrow> mem \<Rightarrow> u64 \<times> mem" where
  "memmove dest src n m =
     (dest, if dest < src then copy_up (unat n) dest src m
            else copy_down (unat n) (dest + n) (src + n) m)"

primrec set_up :: "nat \<Rightarrow> u64 \<Rightarrow> u8 \<Rightarrow> mem \<Rightarrow> mem" where
  "set_up 0 p b m = m"
| "set_up (Suc n) p b m = set_up n (p + 1) b (m(p := b))"

definition memset :: "u64 \<Rightarrow> u32 \<Rightarrow> u64 \<Rightarrow> mem \<Rightarrow> u64 \<times> mem" where
  "memset ptr value n m = (ptr, set_up (unat n) ptr (ucast value) m)"

primrec memcmp_loop :: "nat \<Rightarrow> u64 \<Rightarrow> u64 \<Rightarrow> mem \<Rightarrow> int" where
  "memcmp_loop 0 x y m = 0"
| "memcmp_loop (Suc n) x y m =
     (if m x \<noteq> m y then uint (m x) - uint (m y) else memcmp_loop n (x + 1) (y + 1) m)"

definition memcmp :: "u64 \<Rightarrow> u64 \<Rightarrow> u64 \<Rightarrow> mem \<Rightarrow> int" where
  "memcmp a b n m = memcmp_loop (unat n) a b m"

partial_function (option) strcpy_loop :: "u64 \<Rightarrow> u64 \<Rightarrow> mem \<Rightarrow> mem option" where
  "strcpy_loop dest src m =
     (let m1 = m(dest := m src) in if m src \<noteq> 0 then strcpy_loop (dest + 1) (src + 1) m1 else Some m1)"

definition strcpy :: "u64 \<Rightarrow> u64 \<Rightarrow> mem \<Rightarrow> (u64 \<times> mem) option" where
  "strcpy dest src m = map_option (Pair dest) (strcpy_loop dest src m)"

partial_function (option) strcmp :: "u64 \<Rightarrow> u64 \<Rightarrow> mem \<Rightarrow> int option" where
  "strcmp a b m =
     (if m a \<noteq> 0 \<and> m a = m b then strcmp (a + 1) (b + 1) m else Some (uint (m a) - uint (m b)))"

primrec strncmp_loop :: "nat \<Rightarrow> u64 \<Rightarrow> u64 \<Rightarrow> mem \<Rightarrow> int" where
  "strncmp_loop 0 a b m = 0"
| "strncmp_loop (Suc n) a b m =
     (if m a \<noteq> 0 \<and> m a = m b then strncmp_loop n (a + 1) (b + 1) m
      else uint (m a) - uint (m b))"

definition strncmp :: "u64 \<Rightarrow> u64 \<Rightarrow> u64 \<Rightarrow> mem \<Rightarrow> int" where
  "strncmp a b n m = strncmp_loop (unat n) a b m"

partial_function (option) strchr :: "u64 \<Rightarrow> u8 \<Rightarrow> mem \<Rightarrow> u64 option" where
  "strchr str c m =
     (if m str \<noteq> 0 then if m str = c then Some str else strchr (str + 1) c m
      else Some (if c = 0 then str else 0))"

partial_function (option) strlen_loop :: "u64 \<Rightarrow> u64 \<Rightarrow> mem \<Rightarrow> u64 option" where
  "strlen_loop str len m = (if m str \<noteq> 0 then strlen_loop (str + 1) (len + 1) m else Some len)"

definition strlen :: "u64 \<Rightarrow> mem \<Rightarrow> u64 option" where
  "strlen str m = (if str = 0 then Some 0 else strlen_loop str 0 m)"

partial_function (option) strrchr_loop :: "u64 \<Rightarrow> u8 \<Rightarrow> u64 \<Rightarrow> mem \<Rightarrow> u64 option" where
  "strrchr_loop str c lst m =
     (let lst1 = (if m str = c then str else lst)
      in if m str = 0 then Some lst1 else strrchr_loop (str + 1) c lst1 m)"

definition strrchr :: "u64 \<Rightarrow> u8 \<Rightarrow> mem \<Rightarrow> u64 option" where
  "strrchr str c m = (if str = 0 then Some 0 else strrchr_loop str c 0 m)"

section \<open>Blocks\<close>

lemma block_copy_0 [simp]: "block_copy 0 d s m = m"
  by (simp add: block_copy_def fun_eq_iff)

lemma block_copy_1: "block_copy 1 d s m = m(d := m s)"
  by (auto simp: block_copy_def fun_eq_iff)

lemma unat_diff: "unat ((a :: u64) - b) = (if unat b \<le> unat a then unat a - unat b else 18446744073709551616 + unat a - unat b)"
  using unat_sub_if_size [of a b] by (auto simp: word_size word_le_nat_alt)

lemma u64_less_add: "unat (a :: u64) + unat b < 18446744073709551616 \<Longrightarrow> (x < a + b) = (unat x < unat a + unat b)"
  by (simp add: word_less_nat_alt)

text \<open>A block copied in two parts, front part first, when the second part reads nothing the first wrote.\<close>

lemma block_copy_front:
  assumes nw: "unat k + unat n < 18446744073709551616"
    and safe: "\<And>x. x < n \<Longrightarrow> \<not> s + k + x - d < k"
  shows "block_copy (k + n) d s m = block_copy n (d + k) (s + k) (block_copy k d s m)"
proof
  fix a
  define x where "x = a - d"
  have a: "a - (d + k) = x - k" "a - d = x" by (simp_all add: x_def)
  show "block_copy (k + n) d s m a = block_copy n (d + k) (s + k) (block_copy k d s m) a"
  proof (cases "x < k")
    case True
    then have "\<not> x - k < n" using nw u64_less_wrap [of x] by (auto simp: word_less_nat_alt unat_diff)
    then show ?thesis using True nw by (simp add: block_copy_def a u64_less_add word_less_nat_alt)
  next
    case False
    then have le: "unat k \<le> unat x" by (simp add: word_less_nat_alt)
    then have "x - k < n \<longleftrightarrow> x < k + n" using nw by (auto simp: word_less_nat_alt unat_diff)
    moreover have "s + k + (x - k) = s + x" by simp
    moreover have "\<not> s + x - d < k" if "x - k < n" using safe [OF that] by simp
    ultimately show ?thesis using False by (auto simp: block_copy_def a)
  qed
qed

text \<open>The same with the back part first.\<close>

lemma block_copy_back:
  assumes nw: "unat k + unat n < 18446744073709551616"
    and safe: "\<And>x. x < n \<Longrightarrow> \<not> s + x - (d + n) < k"
  shows "block_copy (n + k) d s m = block_copy n d s (block_copy k (d + n) (s + n) m)"
proof
  fix a
  define x where "x = a - d"
  have a: "a - (d + n) = x - n" "a - d = x" by (simp_all add: x_def)
  show "block_copy (n + k) d s m a = block_copy n d s (block_copy k (d + n) (s + n) m) a"
  proof (cases "x < n")
    case True
    then have "x < n + k" using nw by (simp add: u64_less_add word_less_nat_alt)
    then show ?thesis using True safe [OF True] by (simp add: block_copy_def a)
  next
    case False
    then have le: "unat n \<le> unat x" by (simp add: word_less_nat_alt)
    then have "x - n < k \<longleftrightarrow> x < n + k" using nw by (auto simp: word_less_nat_alt unat_diff)
    moreover have "s + n + (x - n) = s + x" by simp
    ultimately show ?thesis using False by (simp add: block_copy_def a)
  qed
qed

definition no_wrap :: "u64 \<Rightarrow> nat \<Rightarrow> bool" where
  "no_wrap p n \<longleftrightarrow> unat p + n \<le> 18446744073709551616"

definition disjoint_blocks :: "nat \<Rightarrow> u64 \<Rightarrow> u64 \<Rightarrow> bool" where
  "disjoint_blocks n d s \<longleftrightarrow> no_wrap d n \<and> no_wrap s n \<and> (unat d + n \<le> unat s \<or> unat s + n \<le> unat d)"

lemma unat_add_if: "unat ((a :: u64) + b) =
    (if unat a + unat b < 18446744073709551616 then unat a + unat b else unat a + unat b - 18446744073709551616)"
  using unat_plus_if_size [of a b] by (auto simp: word_size)

lemma copy_up_block:
  assumes "n < 18446744073709551616" and "no_wrap s n"
    and "unat d < unat s \<or> disjoint_blocks n d s"
  shows "copy_up n d s m = block_copy (word_of_nat n) d s m"
  using assms
proof (induction n arbitrary: d s m)
  case (Suc n)
  let ?n = "word_of_nat n :: u64"
  have n: "unat ?n = n" using Suc.prems(1) by (simp add: unat_of_nat_u64)
  show ?case
  proof (cases "n = 0")
    case True
    then show ?thesis by (simp add: block_copy_1)
  next
    case False
    have s1: "unat (s + 1) = Suc (unat s)"
      using Suc.prems(2) False by (simp add: no_wrap_def unat_add_if)
    have d1: "unat (d + 1) = Suc (unat d)"
      using Suc.prems(2,3) False u64_less_wrap [of s] by (auto simp: no_wrap_def disjoint_blocks_def unat_add_if)
    have "copy_up n (d + 1) (s + 1) (m(d := m s)) = block_copy ?n (d + 1) (s + 1) (m(d := m s))"
      by (rule Suc.IH) (use Suc.prems s1 d1 in \<open>auto simp: no_wrap_def disjoint_blocks_def\<close>)
    also have "\<dots> = block_copy (1 + ?n) d s m"
      unfolding block_copy_1 [symmetric]
    proof (rule block_copy_front [symmetric])
      fix x assume "x < ?n"
      then have "unat x < n" using n by (simp add: word_less_nat_alt)
      then show "\<not> s + 1 + x - d < 1"
        using Suc.prems(2,3) s1 by (auto simp: word_less_nat_alt unat_diff unat_add_if no_wrap_def disjoint_blocks_def split: if_splits)
    qed (use n Suc.prems in simp)
    finally show ?thesis by simp
  qed
qed simp

lemma copy_down_block:
  assumes "n < 18446744073709551616" and "no_wrap s n" and "no_wrap d n" and "unat s \<le> unat d"
  shows "copy_down n (d + word_of_nat n) (s + word_of_nat n) m = block_copy (word_of_nat n) d s m"
  using assms
proof (induction n arbitrary: m)
  case (Suc n)
  let ?n = "word_of_nat n :: u64"
  have n: "unat ?n = n" using Suc.prems(1) by (simp add: unat_of_nat_u64)
  have "copy_down (Suc n) (d + word_of_nat (Suc n)) (s + word_of_nat (Suc n)) m =
      copy_down n (d + ?n) (s + ?n) (m(d + ?n := m (s + ?n)))"
    by (simp add: algebra_simps)
  also have "\<dots> = block_copy ?n d s (m(d + ?n := m (s + ?n)))"
    by (rule Suc.IH) (use Suc.prems in \<open>auto simp: no_wrap_def\<close>)
  also have "\<dots> = block_copy (?n + 1) d s m"
    unfolding block_copy_1 [symmetric]
  proof (rule block_copy_back [symmetric])
    fix x assume "x < ?n"
    then have "unat x < n" using n by (simp add: word_less_nat_alt)
    then show "\<not> s + x - (d + ?n) < 1"
      using Suc.prems n by (auto simp: word_less_nat_alt unat_diff unat_add_if no_wrap_def split: if_splits)
  qed (use n Suc.prems in simp)
  finally show ?case by (simp add: add.commute)
qed simp

lemma disjoint_front:
  assumes dj: "disjoint_blocks (unat n) d s" and k: "k \<le> n"
  shows "block_copy n d s m = block_copy (n - k) (d + k) (s + k) (block_copy k d s m)"
    and "disjoint_blocks (unat (n - k)) (d + k) (s + k)"
proof -
  have kn: "unat k \<le> unat n" "unat (n - k) = unat n - unat k"
    using k by (simp_all add: word_le_nat_alt unat_sub_u64)
  have "block_copy (k + (n - k)) d s m = block_copy (n - k) (d + k) (s + k) (block_copy k d s m)"
  proof (rule block_copy_front)
    show "unat k + unat (n - k) < 18446744073709551616" using kn u64_less_wrap [of n] by simp
    fix x assume "x < n - k"
    then have x: "unat x < unat n - unat k" using kn by (simp add: word_less_nat_alt)
    then have lt: "unat s + unat k + unat x < 18446744073709551616"
      using dj kn unfolding disjoint_blocks_def no_wrap_def by linarith
    then have sk: "unat (s + k + x) = unat s + unat k + unat x" by simp
    from dj have "unat d + unat n \<le> unat s \<or> unat s + unat n \<le> unat d" "unat d + unat n \<le> 18446744073709551616"
      by (auto simp: disjoint_blocks_def no_wrap_def)
    with x sk kn show "\<not> s + k + x - d < k"
      by (auto simp: word_less_nat_alt unat_diff)
  qed
  then show "block_copy n d s m = block_copy (n - k) (d + k) (s + k) (block_copy k d s m)" by simp
  show "disjoint_blocks (unat (n - k)) (d + k) (s + k)"
    using dj kn by (auto simp: disjoint_blocks_def no_wrap_def unat_add_if)
qed

lemma memcpy_8_block:
  assumes "disjoint_blocks (unat n) d s" and "memcpy_8 d s n m = (d', s', n', m')"
  shows "disjoint_blocks (unat n') d' s' \<and> block_copy n d s m = block_copy n' d' s' m'"
  using assms
proof (induction d s n m rule: memcpy_8.induct)
  case (1 d s n m)
  show ?case
  proof (cases "8 \<le> n")
    case True
    note f = disjoint_front [OF "1.prems"(1) True]
    have "memcpy_8 (d + 8) (s + 8) (n - 8) (block_copy 8 d s m) = (d', s', n', m')"
      using "1.prems"(2) True by (simp del: memcpy_8.simps add: memcpy_8.simps [of d])
    from "1.IH" [OF True f(2) this] f(1) show ?thesis by simp
  next
    case False
    then show ?thesis using "1.prems" by (simp del: memcpy_8.simps add: memcpy_8.simps [of d])
  qed
qed

lemma memcpy_32_block:
  assumes "disjoint_blocks (unat n) d s" and "memcpy_32 d s n m = (d', s', n', m')"
  shows "disjoint_blocks (unat n') d' s' \<and> block_copy n d s m = block_copy n' d' s' m'"
  using assms
proof (induction d s n m rule: memcpy_32.induct)
  case (1 d s n m)
  show ?case
  proof (cases "32 \<le> n")
    case True
    have le: "8 \<le> n" "8 \<le> n - 8" "8 \<le> n - 16" "8 \<le> n - 24"
      using True by (auto simp: word_le_nat_alt unat_sub_u64)
    note f1 = disjoint_front [OF "1.prems"(1) le(1)]
    have "n - 8 - 8 = n - 16" "n - 16 - 8 = n - 24" "n - 24 - 8 = n - 32" by simp_all
    note f2 = disjoint_front [OF f1(2) le(2), unfolded this add.assoc, simplified]
    note f3 = disjoint_front [OF f2(2) le(3), unfolded add.assoc, simplified]
    note f4 = disjoint_front [OF f3(2) le(4), unfolded add.assoc, simplified]
    let ?m = "block_copy 8 (d + 24) (s + 24) (block_copy 8 (d + 16) (s + 16)
      (block_copy 8 (d + 8) (s + 8) (block_copy 8 d s m)))"
    have run: "memcpy_32 (d + 32) (s + 32) (n - 32) ?m = (d', s', n', m')"
      using "1.prems"(2) True by (simp del: memcpy_32.simps add: memcpy_32.simps [of d])
    have "block_copy n d s m = block_copy (n - 32) (d + 32) (s + 32) ?m"
      using f1(1) [of m] f2(1) [of "block_copy 8 d s m"] f3(1) f4(1) by simp
    moreover have "disjoint_blocks (unat (n - 32)) (d + 32) (s + 32)" using f4(2) by simp
    ultimately show ?thesis
      using "1.IH" [OF True refl refl refl refl] run by simp
  next
    case False
    then show ?thesis using "1.prems" by (simp del: memcpy_32.simps add: memcpy_32.simps [of d])
  qed
qed

lemma copy_up_disjoint:
  "disjoint_blocks (unat n) d s \<Longrightarrow> copy_up (unat n) d s m = block_copy n d s m"
  using copy_up_block [of "unat n" s d m] u64_less_wrap [of n] by (auto simp: disjoint_blocks_def)

section \<open>Filling and comparing\<close>

lemma set_up_block:
  "n < 18446744073709551616 \<Longrightarrow> set_up n p b m = (\<lambda>a. if a - p < word_of_nat n then b else m a)"
proof (induction n arbitrary: p m)
  case (Suc n)
  let ?n = "word_of_nat n :: u64"
  have n: "unat ?n = n" "unat (1 + ?n) = Suc n" using Suc.prems by (simp_all add: unat_of_nat_u64)
  have "(a - (p + 1) < ?n \<or> a = p) \<longleftrightarrow> a - p < 1 + ?n" for a
  proof -
    have *: "(x - 1 < ?n \<or> x = 0) \<longleftrightarrow> x < 1 + ?n" for x :: u64
      using n Suc.prems unat_gt_0 [of x]
      by (cases "x = 0") (auto simp: word_less_nat_alt unat_diff Suc_le_eq)
    have "a - (p + 1) = a - p - 1" "a = p \<longleftrightarrow> a - p = 0" by simp_all
    then show ?thesis using *[of "a - p"] by presburger
  qed
  note step = this
  have "set_up (Suc n) p b m = (\<lambda>a. if a - (p + 1) < ?n then b else (m(p := b)) a)"
    unfolding set_up.simps by (rule Suc.IH) (use Suc.prems in simp)
  also have "\<dots> = (\<lambda>a. if a - p < word_of_nat (Suc n) then b else m a)"
  proof
    fix a
    show "(if a - (p + 1) < ?n then b else (m(p := b)) a) = (if a - p < word_of_nat (Suc n) then b else m a)"
      using step [of a] by (cases "a = p") auto
  qed
  finally show ?case .
qed (simp add: fun_eq_iff)

lemma memcmp_loop_zero_iff:
  "memcmp_loop n x y m = 0 \<longleftrightarrow> (\<forall>i<n. m (x + word_of_nat i) = m (y + word_of_nat i))"
proof (induction n arbitrary: x y)
  case (Suc n)
  have "(\<forall>i<Suc n. P i) \<longleftrightarrow> P 0 \<and> (\<forall>i<n. P (Suc i))" for P by (auto simp: less_Suc_eq_0_disj)
  then show ?case using Suc by (simp add: add.assoc [symmetric] word_uint_eq_iff)
qed simp

section \<open>NUL-terminated strings\<close>

primrec cstr_at :: "mem \<Rightarrow> u64 \<Rightarrow> u8 list \<Rightarrow> bool" where
  "cstr_at m p [] \<longleftrightarrow> m p = 0"
| "cstr_at m p (b # bs) \<longleftrightarrow> b \<noteq> 0 \<and> m p = b \<and> cstr_at m (p + 1) bs"

text \<open>The difference of the first bytes in which two strings differ, the NUL included.\<close>

fun byte_cmp :: "u8 list \<Rightarrow> u8 list \<Rightarrow> int" where
  "byte_cmp [] [] = 0"
| "byte_cmp [] (b # bs) = - uint b"
| "byte_cmp (a # as) [] = uint a"
| "byte_cmp (a # as) (b # bs) = (if a = b then byte_cmp as bs else uint a - uint b)"

lemma byte_cmp_zero_iff: "0 \<notin> set as \<Longrightarrow> 0 \<notin> set bs \<Longrightarrow> byte_cmp as bs = 0 \<longleftrightarrow> as = bs"
  by (induction as bs rule: byte_cmp.induct) (auto simp: word_uint_eq_iff)

lemma cstr_at_nonzero: "cstr_at m p bs \<Longrightarrow> 0 \<notin> set bs"
  by (induction bs arbitrary: p) auto

lemma strlen_loop_cstr: "cstr_at m p bs \<Longrightarrow> strlen_loop p l m = Some (l + word_of_nat (length bs))"
proof (induction bs arbitrary: p l)
  case Nil
  then show ?case by (simp add: strlen_loop.simps [of p])
next
  case (Cons b bs)
  then show ?case by (simp add: strlen_loop.simps [of p] add.assoc)
qed

lemma strcmp_cstr: "cstr_at m p as \<Longrightarrow> cstr_at m q bs \<Longrightarrow> strcmp p q m = Some (byte_cmp as bs)"
proof (induction as bs arbitrary: p q rule: byte_cmp.induct)
  case (4 a as b bs)
  then show ?case by (simp add: strcmp.simps [of p])
qed (simp_all add: strcmp.simps)

lemma strncmp_cstr:
  "cstr_at m p as \<Longrightarrow> cstr_at m q bs \<Longrightarrow> strncmp_loop n p q m = byte_cmp (take n as) (take n bs)"
proof (induction n arbitrary: p q as bs)
  case (Suc n)
  show ?case
  proof (cases as; cases bs)
    fix a as' b bs' assume "as = a # as'" "bs = b # bs'"
    then show ?thesis using Suc.IH [of "p + 1" as' "q + 1" bs'] Suc.prems by simp
  qed (use Suc.prems in auto)
qed simp

lemma strchr_cstr:
  "cstr_at m p bs \<Longrightarrow> strchr p c m =
     Some (if c \<in> set bs \<or> c = 0 then p + word_of_nat (length (takeWhile (\<lambda>b. b \<noteq> c) bs)) else 0)"
proof (induction bs arbitrary: p)
  case (Cons b bs)
  then show ?case by (auto simp: strchr.simps [of p] add.assoc)
qed (simp add: strchr.simps)

text \<open>The position of the last occurrence.\<close>

fun last_index :: "'a \<Rightarrow> 'a list \<Rightarrow> nat" where
  "last_index c [] = 0"
| "last_index c (x # xs) = (if c \<in> set xs then Suc (last_index c xs) else 0)"

lemma last_index_last:
  "c \<in> set xs \<Longrightarrow> last_index c xs < length xs \<and> xs ! last_index c xs = c \<and> c \<notin> set (drop (Suc (last_index c xs)) xs)"
  by (induction xs) auto

lemma strrchr_cstr:
  "cstr_at m p bs \<Longrightarrow> c \<noteq> 0 \<Longrightarrow> strrchr_loop p c l m =
     Some (if c \<in> set bs then p + word_of_nat (last_index c bs) else l)"
proof (induction bs arbitrary: p l)
  case (Cons b bs)
  then show ?case by (auto simp: strrchr_loop.simps [of p] add.assoc Let_def)
qed (simp add: strrchr_loop.simps Let_def)

text \<open>\<open>strcpy\<close> writes the string and its NUL, and nothing else.\<close>

lemma strcpy_loop_cstr:
  assumes "cstr_at m s bs" and "disjoint_blocks (Suc (length bs)) d s"
  shows "strcpy_loop d s m = Some (copy_up (Suc (length bs)) d s m)"
  using assms
proof (induction bs arbitrary: d s m)
  case Nil
  then show ?case by (simp add: strcpy_loop.simps [of d s] Let_def del: fun_upd_apply)
next
  case (Cons b bs)
  let ?m = "m(d := m s)"
  have bd: "unat d + Suc (Suc (length bs)) \<le> 18446744073709551616"
    "unat s + Suc (Suc (length bs)) \<le> 18446744073709551616"
    "unat d + Suc (Suc (length bs)) \<le> unat s \<or> unat s + Suc (Suc (length bs)) \<le> unat d"
    using Cons.prems(2) by (auto simp: disjoint_blocks_def no_wrap_def)
  then have d: "disjoint_blocks (Suc (length bs)) (d + 1) (s + 1)"
    by (auto simp: disjoint_blocks_def no_wrap_def unat_add_if)
  have keep: "cstr_at ?m p xs" if "cstr_at m p xs" "unat p + length xs < 18446744073709551616"
    "unat d < unat p \<or> unat p + length xs < unat d" for p xs
    using that
  proof (induction xs arbitrary: p)
    case (Cons x xs)
    then have "unat (p + 1) = Suc (unat p)" by (simp add: unat_add_if)
    with Cons show ?case by (auto simp: u64_eq_iff_unat)
  qed auto
  have "cstr_at ?m (s + 1) bs"
    by (rule keep) (use Cons.prems(1) bd in \<open>auto simp: unat_add_if\<close>)
  from Cons.IH [OF this d] have "strcpy_loop (d + 1) (s + 1) ?m = Some (copy_up (length (b # bs)) (d + 1) (s + 1) ?m)"
    by (simp only: list.size(4) One_nat_def add_Suc_right add_0_right)
  moreover have "m s \<noteq> 0" using Cons.prems(1) by simp
  ultimately show ?case
    unfolding strcpy_loop.simps [of d s] Let_def copy_up.simps(2) [of "length (b # bs)"] by (simp only: if_True not_False_eq_True)
qed

section \<open>Properties\<close>

text \<open>
  C14. Both bodies of \<open>memcpy\<close>, the loops by 32, 8 and 1 bytes and \<open>rep movsb\<close>, copy disjoint blocks
  exactly: byte \<open>i\<close> of the destination becomes byte \<open>i\<close> of the source and no other byte changes. The
  loops return \<open>dest\<close>; the instruction returns the address after the destination.
\<close>

theorem memcpy_copies:
  assumes "disjoint_blocks (unat n) dest src"
  shows "memcpy dest src n m = (dest, block_copy n dest src m) \<and>
    memcpy_movsb dest src n m = (dest + n, block_copy n dest src m)"
proof -
  obtain d1 s1 n1 m1 where 1: "memcpy_32 dest src n m = (d1, s1, n1, m1)" by (cases "memcpy_32 dest src n m")
  obtain d2 s2 n2 m2 where 2: "memcpy_8 d1 s1 n1 m1 = (d2, s2, n2, m2)" by (cases "memcpy_8 d1 s1 n1 m1")
  note b1 = memcpy_32_block [OF assms 1]
  note b2 = memcpy_8_block [OF conjunct1 [OF b1] 2]
  have "copy_up (unat n2) d2 s2 m2 = block_copy n dest src m"
    using b1 b2 copy_up_disjoint by simp
  then show ?thesis
    using copy_up_disjoint [OF assms] 1 2
    by (simp add: memcpy_def memcpy_movsb_def del: memcpy_8.simps memcpy_32.simps)
qed

theorem memcpy_copies_witness:
  "memcpy 0x1000 0x2000 45 (\<lambda>a. ucast a) = (0x1000, block_copy 45 0x1000 0x2000 (\<lambda>a. ucast a))"
  using memcpy_copies [of 45 "0x1000" "0x2000" "\<lambda>a. ucast a"]
  by (simp add: disjoint_blocks_def no_wrap_def del: memcpy_8.simps memcpy_32.simps)

text \<open>
  C15. \<open>memmove\<close> copies blocks that may overlap: for blocks that do not wrap around the address
  space, every destination byte becomes the byte the source had before the call.
\<close>

theorem memmove_overlap:
  assumes "unat dest + unat n \<le> 18446744073709551616" and "unat src + unat n \<le> 18446744073709551616"
  shows "memmove dest src n m = (dest, \<lambda>a. if a - dest < n then m (src + (a - dest)) else m a)"
proof -
  have n: "unat n < 18446744073709551616" by (rule u64_less_wrap)
  have "snd (memmove dest src n m) = block_copy n dest src m"
  proof (cases "dest < src")
    case True
    then show ?thesis
      using copy_up_block [OF n, of src dest m] assms(2) by (simp add: memmove_def no_wrap_def word_less_nat_alt)
  next
    case False
    then show ?thesis
      using copy_down_block [OF n, of src dest m] assms by (simp add: memmove_def no_wrap_def word_less_nat_alt)
  qed
  then show ?thesis by (simp add: memmove_def block_copy_def)
qed

theorem memmove_overlap_witness:
  "snd (memmove 0x1002 0x1000 8 (\<lambda>a. ucast a)) 0x1005 = 3"
  using memmove_overlap [of "0x1002" 8 "0x1000" "\<lambda>a. ucast a"] by simp

text \<open>
  C16. On NUL-terminated strings the scanning routines end and agree with the lists of bytes:
  \<open>strlen\<close> is the length, \<open>strcmp\<close> and \<open>strncmp\<close> are the difference of the first differing bytes, 0
  exactly for equal strings (prefixes), \<open>strchr\<close> finds the first and \<open>strrchr\<close> the last occurrence of
  a byte, or NULL when there is none.
\<close>

theorem string_scans:
  assumes "cstr_at m p as" and "cstr_at m q bs" and "p \<noteq> 0" and "c \<noteq> 0"
  shows "strlen p m = Some (word_of_nat (length as)) \<and>
    strcmp p q m = Some (byte_cmp as bs) \<and> (byte_cmp as bs = 0 \<longleftrightarrow> as = bs) \<and>
    strncmp p q n m = byte_cmp (take (unat n) as) (take (unat n) bs) \<and>
    (strncmp p q n m = 0 \<longleftrightarrow> take (unat n) as = take (unat n) bs) \<and>
    strchr p c m = Some (if c \<in> set as then p + word_of_nat (length (takeWhile (\<lambda>b. b \<noteq> c) as)) else 0) \<and>
    strrchr p c m = Some (if c \<in> set as then p + word_of_nat (last_index c as) else 0)"
proof -
  have z: "0 \<notin> set as" "0 \<notin> set bs" using assms(1,2) by (auto dest: cstr_at_nonzero)
  then have "0 \<notin> set (take k as)" "0 \<notin> set (take k bs)" for k by (auto dest: in_set_takeD)
  then show ?thesis
    using strlen_loop_cstr [OF assms(1), of 0] strcmp_cstr [OF assms(1,2)] strncmp_cstr [OF assms(1,2)]
      strchr_cstr [OF assms(1), of c] strrchr_cstr [OF assms(1,4), of 0] z assms(3,4)
    by (simp add: strlen_def strrchr_def strncmp_def byte_cmp_zero_iff)
qed

definition demo_mem :: mem where
  "demo_mem = (\<lambda>_. 0)(0x100 := 47, 0x101 := 97, 0x102 := 47, 0x103 := 98, 0x200 := 47, 0x201 := 97, 0x202 := 98)"

theorem string_scans_witness:
  "strlen 0x100 demo_mem = Some 4 \<and> strcmp 0x100 0x200 demo_mem = Some (- 51) \<and>
   strncmp 0x100 0x200 2 demo_mem = 0 \<and> strchr 0x100 47 demo_mem = Some 0x100 \<and>
   strrchr 0x100 47 demo_mem = Some 0x102"
proof -
  have "cstr_at demo_mem 0x100 [47, 97, 47, 98]" "cstr_at demo_mem 0x200 [47, 97, 98]"
    by (simp_all add: demo_mem_def)
  from string_scans [OF this, of 47 2] show ?thesis by simp
qed

text \<open>
  C17. \<open>strcpy\<close> of a string to a destination that neither overlaps it nor wraps ends, returns the
  destination, leaves the string at both places and changes no byte outside the destination block.
\<close>

theorem strcpy_copies:
  assumes "cstr_at m src bs" and "disjoint_blocks (Suc (length bs)) dest src"
  shows "strcpy dest src m = Some (dest, block_copy (word_of_nat (Suc (length bs))) dest src m) \<and>
    cstr_at (block_copy (word_of_nat (Suc (length bs))) dest src m) dest bs"
proof -
  let ?n = "Suc (length bs)"
  have dj: "?n < 18446744073709551616 \<and> no_wrap src ?n \<and> no_wrap dest ?n"
    using assms(2) by (auto simp: disjoint_blocks_def no_wrap_def)
  then have "copy_up ?n dest src m = block_copy (word_of_nat ?n) dest src m"
    using copy_up_block [of ?n src dest m] assms(2) by blast
  then have run: "strcpy dest src m = Some (dest, block_copy (word_of_nat ?n) dest src m)"
    using strcpy_loop_cstr [OF assms] by (simp only: strcpy_def option.map)
  have "cstr_at (block_copy (word_of_nat ?n) dest src m) (dest + word_of_nat i) xs"
    if "cstr_at m (src + word_of_nat i) xs" "i + length xs < ?n" for i xs
    using that
  proof (induction xs arbitrary: i)
    case Nil
    then have "(word_of_nat i :: u64) < word_of_nat ?n" using dj by (simp add: word_less_nat_alt unat_of_nat_u64 del: of_nat_Suc)
    then show ?case using Nil by (simp add: block_copy_def del: of_nat_Suc)
  next
    case (Cons x xs)
    then have "(word_of_nat i :: u64) < word_of_nat ?n" using dj by (simp add: word_less_nat_alt unat_of_nat_u64 del: of_nat_Suc)
    then have "block_copy (word_of_nat ?n) dest src m (dest + word_of_nat i) = x"
      using Cons.prems by (simp add: block_copy_def del: of_nat_Suc)
    note head = this
    have nxt: "p + word_of_nat i + 1 = p + (word_of_nat (Suc i) :: u64)" for p by (simp add: algebra_simps)
    have "cstr_at (block_copy (word_of_nat ?n) dest src m) (dest + word_of_nat (Suc i)) xs"
      by (rule Cons.IH) (use Cons.prems nxt [of src] in \<open>simp_all del: of_nat_Suc\<close>)
    with head Cons.prems(1) show ?case
      unfolding cstr_at.simps nxt by blast
  qed
  from this [of 0 bs] assms(1) run show ?thesis by simp
qed

theorem strcpy_copies_witness:
  "\<exists>m. strcpy 0x300 0x200 demo_mem = Some (0x300, m) \<and> cstr_at m 0x300 [47, 97, 98]"
proof -
  have "cstr_at demo_mem 0x200 [47, 97, 98]" by (simp add: demo_mem_def)
  from strcpy_copies [OF this, of "0x300"] show ?thesis by (simp add: disjoint_blocks_def no_wrap_def)
qed

end
