(* ===== verification/Graphics.thy ===== *)
theory Graphics
  imports Prelude
begin

unbundle bit_operations_syntax

text \<open>
  Drawing, \<open>kernel/graphics/graphics.c\<close>, and the built-in font of \<open>common/fonts/cozette.h\<close>.

  \<open>vram\<close> gives the pixel stored at an address; the pixel \<open>(x, y)\<close> of a framebuffer is at
  \<open>address + 4 * (y * pitch + x)\<close>. A NULL framebuffer pointer is \<open>None\<close>. The \<open>int\<close> coordinates of
  the line algorithm are integers: their overflow is undefined in C, and the lemmas about lines
  are for coordinates that do not overflow.

  The lemmas show that no routine writes outside the framebuffer, that \<open>fill_rect\<close> paints exactly
  the visible part of the rectangle, and that the line algorithm ends and draws a connected line
  from its start to its end.
\<close>

section \<open>The code\<close>

record framebuffer_t =
  fb_width :: u64
  fb_height :: u64
  fb_pitch :: u64
  fb_address :: u64

record gfx =
  framebuffer_pb :: "framebuffer_t option"
  graphics_init :: bool
  vram :: "u64 \<Rightarrow> u32"

definition init_graphics :: "framebuffer_t option \<Rightarrow> 'a gfx_scheme \<Rightarrow> 'a gfx_scheme" where
  "init_graphics framebuffer s = s\<lparr>framebuffer_pb := framebuffer, graphics_init := True\<rparr>"

text \<open>The store \<open>buffer->address[y * pitch + x] = color\<close>.\<close>

definition pixel_addr :: "framebuffer_t \<Rightarrow> u32 \<Rightarrow> u32 \<Rightarrow> u64" where
  "pixel_addr fb x y = fb_address fb + 4 * (ucast y * fb_pitch fb + ucast x)"

definition put_pixel :: "u32 \<Rightarrow> u32 \<Rightarrow> u32 \<Rightarrow> 'a gfx_scheme \<Rightarrow> 'a gfx_scheme" where
  "put_pixel x y color s =
     (case framebuffer_pb s of
        None \<Rightarrow> s
      | Some fb \<Rightarrow>
          if fb_width fb \<le> ucast x \<or> fb_height fb \<le> ucast y then s
          else s\<lparr>vram := (vram s)(pixel_addr fb x y := color)\<rparr>)"

definition put_pixel_q ::
  "framebuffer_t option \<Rightarrow> u32 \<Rightarrow> u32 \<Rightarrow> u32 \<Rightarrow> 'a gfx_scheme \<Rightarrow> 'a gfx_scheme" where
  "put_pixel_q buffer x y color s =
     (case framebuffer_pb s of
        None \<Rightarrow> s
      | Some screen \<Rightarrow>
          let fb = (case buffer of None \<Rightarrow> screen | Some b \<Rightarrow> b)
          in if fb_width fb \<le> ucast x \<or> fb_height fb \<le> ucast y then s
             else s\<lparr>vram := (vram s)(pixel_addr fb x y := color)\<rparr>)"

text \<open>
  The loop of \<open>draw_line\<close>, which \<open>draw_line_q\<close> repeats with \<open>put_pixel_q\<close>.
\<close>

partial_function (option) line_loop ::
  "(u32 \<Rightarrow> u32 \<Rightarrow> 's \<Rightarrow> 's) \<Rightarrow> int \<Rightarrow> int \<Rightarrow> int \<Rightarrow> int \<Rightarrow> int \<Rightarrow> int \<Rightarrow> int \<Rightarrow> int \<Rightarrow> int \<Rightarrow> 's \<Rightarrow> 's option" where
  "line_loop plot x1 y1 deltaX stepX deltaY stepY x0 y0 error s =
     (let s1 = plot (word_of_int x0) (word_of_int y0) s
      in if x0 = x1 \<and> y0 = y1 then Some s1
         else
           let error2 = 2 * error;
               (error', x0') = (if deltaY \<le> error2 then (error + deltaY, x0 + stepX) else (error, x0));
               (error'', y0') = (if error2 \<le> deltaX then (error' + deltaX, y0 + stepY) else (error', y0))
           in line_loop plot x1 y1 deltaX stepX deltaY stepY x0' y0' error'' s1)"

definition line :: "(u32 \<Rightarrow> u32 \<Rightarrow> 's \<Rightarrow> 's) \<Rightarrow> u32 \<Rightarrow> u32 \<Rightarrow> u32 \<Rightarrow> u32 \<Rightarrow> 's \<Rightarrow> 's option" where
  "line plot sx sy dx dy s =
     (let x0 = sint sx; y0 = sint sy; x1 = sint dx; y1 = sint dy;
          deltaX = \<bar>x1 - x0\<bar>; stepX = (if x0 < x1 then 1 else - 1);
          deltaY = - \<bar>y1 - y0\<bar>; stepY = (if y0 < y1 then 1 else - 1);
          error = deltaX + deltaY
      in line_loop plot x1 y1 deltaX stepX deltaY stepY x0 y0 error s)"

definition draw_line :: "u32 \<Rightarrow> u32 \<Rightarrow> u32 \<Rightarrow> u32 \<Rightarrow> u32 \<Rightarrow> 'a gfx_scheme \<Rightarrow> 'a gfx_scheme option" where
  "draw_line sx sy dx dy color s = line (\<lambda>x y. put_pixel x y color) sx sy dx dy s"

definition draw_line_q ::
  "framebuffer_t option \<Rightarrow> u32 \<Rightarrow> u32 \<Rightarrow> u32 \<Rightarrow> u32 \<Rightarrow> u32 \<Rightarrow> 'a gfx_scheme \<Rightarrow> 'a gfx_scheme option" where
  "draw_line_q buffer sx sy dx dy color s = line (\<lambda>x y. put_pixel_q buffer x y color) sx sy dx dy s"

text \<open>\<open>for (i = a; i < b; i++)\<close> on 32-bit counters.\<close>

definition for_u32 :: "u32 \<Rightarrow> u32 \<Rightarrow> (u32 \<Rightarrow> 's \<Rightarrow> 's) \<Rightarrow> 's \<Rightarrow> 's" where
  "for_u32 a b f s = fold (\<lambda>i. f (word_of_nat i)) [unat a..<unat b] s"

definition fill_rect :: "u32 \<Rightarrow> u32 \<Rightarrow> u32 \<Rightarrow> u32 \<Rightarrow> u32 \<Rightarrow> 'a gfx_scheme \<Rightarrow> 'a gfx_scheme" where
  "fill_rect sx sy dx dy color s =
     for_u32 sx dx (\<lambda>ix. for_u32 sy dy (\<lambda>iy. put_pixel ix iy color)) s"

definition fill_rect_q ::
  "framebuffer_t option \<Rightarrow> u32 \<Rightarrow> u32 \<Rightarrow> u32 \<Rightarrow> u32 \<Rightarrow> u32 \<Rightarrow> 'a gfx_scheme \<Rightarrow> 'a gfx_scheme" where
  "fill_rect_q buffer sx sy dx dy color s =
     for_u32 sx dx (\<lambda>ix. for_u32 sy dy (\<lambda>iy. put_pixel_q buffer ix iy color)) s"

section \<open>The built-in font\<close>

record PSF2_Header =
  psf_magic :: u32
  psf_version :: u32
  psf_headersize :: u32
  psf_flags :: u32
  psf_length :: u32
  psf_glyphsize :: u32
  psf_height :: u32
  psf_width :: u32

text \<open>\<open>cozette_data\<close> and \<open>font_t\<close> have the same fields; \<open>glyphs\<close> is a pointer to bytes.\<close>

record font_t =
  glyphs :: u64
  glyphsize :: u32
  glyph_count :: u32
  font_width :: u32
  font_height :: u32

definition null_font :: font_t where
  "null_font = \<lparr>glyphs = 0, glyphsize = 0, glyph_count = 0, font_width = 0, font_height = 0\<rparr>"

definition psf_word :: "(u64 \<Rightarrow> u8) \<Rightarrow> u64 \<Rightarrow> u32" where
  "psf_word m a = ucast (m a) OR push_bit 8 (ucast (m (a + 1))) OR push_bit 16 (ucast (m (a + 2)))
     OR push_bit 24 (ucast (m (a + 3)))"

definition psf_header :: "(u64 \<Rightarrow> u8) \<Rightarrow> u64 \<Rightarrow> PSF2_Header" where
  "psf_header m a = \<lparr>psf_magic = psf_word m a, psf_version = psf_word m (a + 4),
     psf_headersize = psf_word m (a + 8), psf_flags = psf_word m (a + 12),
     psf_length = psf_word m (a + 16), psf_glyphsize = psf_word m (a + 20),
     psf_height = psf_word m (a + 24), psf_width = psf_word m (a + 28)\<rparr>"

definition load_glyphs :: "(u64 \<Rightarrow> u8) \<Rightarrow> u64 \<Rightarrow> font_t" where
  "load_glyphs m cozette_psf =
     (let header = psf_header m cozette_psf
      in if psf_magic header \<noteq> 0x864AB572 then null_font
         else \<lparr>glyphs = cozette_psf + ucast (psf_headersize header), glyphsize = psf_glyphsize header,
               glyph_count = psf_length header, font_width = psf_width header, font_height = psf_height header\<rparr>)"

text \<open>\<open>(uint32_t)c\<close> sign-extends the character, which is signed.\<close>

definition get_glyph :: "font_t \<Rightarrow> u8 \<Rightarrow> u64" where
  "get_glyph font c = glyphs font + ucast ((scast c :: u32) * glyphsize font)"

section \<open>Drawing routines as sequences of plots\<close>

text \<open>
  What the drawing routines need of the routine that plots a pixel: it writes only inside the
  memory \<open>area\<close>, and it leaves the rest of the state alone, in particular what decides the area.
\<close>

locale plotter =
  fixes plot :: "u32 \<Rightarrow> u32 \<Rightarrow> 's \<Rightarrow> 's"
    and mem :: "'s \<Rightarrow> u64 \<Rightarrow> u32"
    and area :: "'s \<Rightarrow> u64 set"
  assumes plot_area: "area (plot x y s) = area s"
    and plot_outside: "a \<notin> area s \<Longrightarrow> mem (plot x y s) a = mem s a"
begin

definition confined :: "'s \<Rightarrow> 's \<Rightarrow> bool" where
  "confined s t \<longleftrightarrow> area t = area s \<and> (\<forall>a. a \<notin> area s \<longrightarrow> mem t a = mem s a)"

lemma confined_refl [simp]: "confined s s"
  by (simp add: confined_def)

lemma confined_trans: "confined s t \<Longrightarrow> confined t u \<Longrightarrow> confined s u"
  by (simp add: confined_def)

lemma plot_confined: "confined s (plot x y s)"
  by (simp add: confined_def plot_area plot_outside)

lemma fold_confined: "(\<And>x s. confined s (f x s)) \<Longrightarrow> confined s (fold f xs s)"
proof (induction xs arbitrary: s)
  case (Cons x xs)
  have "confined (f x s) (fold f xs (f x s))" by (rule Cons.IH) (rule Cons.prems)
  then show ?case using confined_trans [OF Cons.prems] by simp
qed simp

lemma plots_confined: "confined s (fold (\<lambda>(x, y). plot x y) ps s)"
  by (rule fold_confined) (auto simp: plot_confined)

lemma rect_confined: "confined s (for_u32 a b (\<lambda>ix. for_u32 c d (\<lambda>iy. plot ix iy)) s)"
  unfolding for_u32_def by (intro fold_confined plot_confined)

end

text \<open>The line algorithm: \<open>i\<close> and \<open>j\<close> count the steps made in both directions.\<close>

definition line_error :: "int \<Rightarrow> int \<Rightarrow> int \<Rightarrow> int \<Rightarrow> int" where
  "line_error dx dy i j = (j + 1) * dx - (i + 1) * dy"

lemma line_step:
  assumes "0 \<le> i" "i \<le> dx" "0 \<le> j" "j \<le> dy" "\<not> (i = dx \<and> j = dy)"
  shows "- dy \<le> 2 * line_error dx dy i j \<Longrightarrow> i < dx" and "2 * line_error dx dy i j \<le> dx \<Longrightarrow> j < dy"
    and "- dy \<le> 2 * line_error dx dy i j \<or> 2 * line_error dx dy i j \<le> dx"
proof -
  have "2 * line_error dx dy i j < - dy" if "i = dx"
  proof -
    have "j + 1 \<le> dy" "0 < dy" using that assms by auto
    then have "(j + 1) * dx \<le> dy * dx" using assms by (intro mult_right_mono) auto
    then show ?thesis using that \<open>0 < dy\<close> by (simp add: line_error_def algebra_simps)
  qed
  then show "- dy \<le> 2 * line_error dx dy i j \<Longrightarrow> i < dx" using assms(2) by linarith
  have "dx < 2 * line_error dx dy i j" if "j = dy"
  proof -
    have "i + 1 \<le> dx" "0 < dx" using that assms by auto
    then have "(i + 1) * dy \<le> dx * dy" using assms by (intro mult_right_mono) auto
    then show ?thesis using that \<open>0 < dx\<close> by (simp add: line_error_def algebra_simps)
  qed
  then show "2 * line_error dx dy i j \<le> dx \<Longrightarrow> j < dy" using assms(4) by linarith
  show "- dy \<le> 2 * line_error dx dy i j \<or> 2 * line_error dx dy i j \<le> dx" using assms by linarith
qed

text \<open>
  The points of a line with \<open>dx\<close> and \<open>dy\<close> steps to go from \<open>(x, y)\<close>, as offsets; each point is next
  to the one before.
\<close>

inductive line_path :: "int \<Rightarrow> int \<Rightarrow> int \<times> int \<Rightarrow> (int \<times> int) list \<Rightarrow> bool" for dx dy where
  line_end: "line_path dx dy (dx, dy) [(dx, dy)]"
| line_next: "\<lbrakk>line_path dx dy (i', j') ps; i' = i \<or> i' = i + 1; j' = j \<or> j' = j + 1; (i', j') \<noteq> (i, j)\<rbrakk>
    \<Longrightarrow> line_path dx dy (i, j) ((i, j) # ps)"

lemma line_loop_path:
  assumes "0 \<le> i" "i \<le> dx" "0 \<le> j" "j \<le> dy" and st: "stx = 1 \<or> stx = - 1" "sty = 1 \<or> sty = - 1"
  shows "\<exists>ps. line_path dx dy (i, j) ps \<and>
    line_loop plot (x + stx * dx) (y + sty * dy) dx stx (- dy) sty (x + stx * i) (y + sty * j) (line_error dx dy i j) s =
    Some (fold (\<lambda>(i, j). plot (word_of_int (x + stx * i)) (word_of_int (y + sty * j))) ps s)"
  using assms(1-4)
proof (induction "nat (dx - i + (dy - j))" arbitrary: i j s rule: less_induct)
  case less
  let ?s1 = "plot (word_of_int (x + stx * i)) (word_of_int (y + sty * j)) s"
  show ?case
  proof (cases "i = dx \<and> j = dy")
    case True
    then show ?thesis
      by (intro exI [of _ "[(dx, dy)]"]) (simp add: line_end line_loop.simps [of plot "x + stx * dx"] Let_def)
  next
    case False
    note ls = line_step [OF less.prems False]
    define i' where "i' = (if - dy \<le> 2 * line_error dx dy i j then i + 1 else i)"
    define j' where "j' = (if 2 * line_error dx dy i j \<le> dx then j + 1 else j)"
    have box: "0 \<le> i'" "i' \<le> dx" "0 \<le> j'" "j' \<le> dy" and prog: "(i', j') \<noteq> (i, j)" "i \<le> i'" "j \<le> j'"
      using ls less.prems by (auto simp: i'_def j'_def)
    have ne: "\<not> (x + stx * i = x + stx * dx \<and> y + sty * j = y + sty * dy)"
      using False st by auto
    have "line_loop plot (x + stx * dx) (y + sty * dy) dx stx (- dy) sty (x + stx * i) (y + sty * j) (line_error dx dy i j) s =
      line_loop plot (x + stx * dx) (y + sty * dy) dx stx (- dy) sty (x + stx * i') (y + sty * j') (line_error dx dy i' j') ?s1"
      using ne by (subst line_loop.simps) (auto simp: Let_def i'_def j'_def line_error_def algebra_simps)
    moreover obtain ps where "line_path dx dy (i', j') ps"
      "line_loop plot (x + stx * dx) (y + sty * dy) dx stx (- dy) sty (x + stx * i') (y + sty * j') (line_error dx dy i' j') ?s1 =
       Some (fold (\<lambda>(i, j). plot (word_of_int (x + stx * i)) (word_of_int (y + sty * j))) ps ?s1)"
      using less.hyps [of i' j' ?s1] box prog less.prems by auto
    moreover have "line_path dx dy (i, j) ((i, j) # ps)"
      by (rule line_next) (use \<open>line_path dx dy (i', j') ps\<close> prog in \<open>auto simp: i'_def j'_def\<close>)
    ultimately show ?thesis by (intro exI [of _ "(i, j) # ps"]) simp
  qed
qed

lemma line_path_box:
  "line_path dx dy p ps \<Longrightarrow> 0 \<le> fst p \<Longrightarrow> 0 \<le> snd p \<Longrightarrow> ps \<noteq> [] \<and> hd ps = p \<and> last ps = (dx, dy) \<and>
    fst p \<le> dx \<and> snd p \<le> dy \<and> (\<forall>(i, j) \<in> set ps. 0 \<le> i \<and> i \<le> dx \<and> 0 \<le> j \<and> j \<le> dy)"
  by (induction rule: line_path.induct) auto

section \<open>The framebuffer as a plotting area\<close>

definition visible :: "framebuffer_t \<Rightarrow> u32 \<Rightarrow> u32 \<Rightarrow> bool" where
  "visible fb x y \<longleftrightarrow> ucast x < fb_width fb \<and> ucast y < fb_height fb"

definition fb_pixels :: "framebuffer_t \<Rightarrow> u64 set" where
  "fb_pixels fb = {pixel_addr fb x y | x y. visible fb x y}"

definition screen_area :: "'a gfx_scheme \<Rightarrow> u64 set" where
  "screen_area s = (case framebuffer_pb s of None \<Rightarrow> {} | Some fb \<Rightarrow> fb_pixels fb)"

definition buffer_area :: "framebuffer_t option \<Rightarrow> 'a gfx_scheme \<Rightarrow> u64 set" where
  "buffer_area b s = (case framebuffer_pb s of None \<Rightarrow> {}
     | Some screen \<Rightarrow> fb_pixels (case b of None \<Rightarrow> screen | Some fb \<Rightarrow> fb))"

interpretation screen: plotter "\<lambda>x y. put_pixel x y c" vram screen_area for c
  by unfold_locales (auto simp: put_pixel_def screen_area_def fb_pixels_def visible_def not_le split: option.splits)

interpretation offscreen: plotter "\<lambda>x y. put_pixel_q b x y c" vram "buffer_area b" for b c
  by unfold_locales
    (auto simp: put_pixel_q_def buffer_area_def fb_pixels_def visible_def Let_def not_le split: option.splits if_splits)

text \<open>A framebuffer whose rows fit its pitch and whose memory does not wrap.\<close>

definition fb_valid :: "framebuffer_t \<Rightarrow> bool" where
  "fb_valid fb \<longleftrightarrow> fb_width fb \<le> fb_pitch fb \<and>
     unat (fb_address fb) + 4 * (unat (fb_pitch fb) * unat (fb_height fb)) \<le> 18446744073709551616"

lemma quad_less: "(q :: nat) < p \<Longrightarrow> b + 4 * p \<le> m \<Longrightarrow> b + 4 * q < m"
  by simp

lemma quad_step: "(q :: nat) < p \<Longrightarrow> b + 4 * q + 4 \<le> b + 4 * p"
  by simp

lemma pixel_addr_unat:
  assumes v: "fb_valid fb" and vis: "visible fb x y"
  shows "unat (pixel_addr fb x y) = unat (fb_address fb) + 4 * (unat y * unat (fb_pitch fb) + unat x)"
    and "unat y * unat (fb_pitch fb) + unat x < unat (fb_pitch fb) * unat (fb_height fb)"
proof -
  have ux: "unat (ucast x :: u64) = unat x" "unat (ucast y :: u64) = unat y"
    by simp_all
  have x: "unat x < unat (fb_pitch fb)" and y: "unat y < unat (fb_height fb)"
    using vis v ux by (auto simp: visible_def fb_valid_def word_less_nat_alt word_le_nat_alt)
  have "unat y * unat (fb_pitch fb) + unat (fb_pitch fb) \<le> unat (fb_height fb) * unat (fb_pitch fb)"
    using mult_le_mono1 [of "Suc (unat y)" "unat (fb_height fb)" "unat (fb_pitch fb)"] y by simp
  then show lt: "unat y * unat (fb_pitch fb) + unat x < unat (fb_pitch fb) * unat (fb_height fb)"
    using x by (simp add: mult.commute)
  have b: "unat (fb_address fb) + 4 * (unat y * unat (fb_pitch fb) + unat x) < 18446744073709551616"
  proof -
    have "unat (fb_address fb) + 4 * (unat (fb_pitch fb) * unat (fb_height fb)) \<le> 18446744073709551616"
      using v by (simp add: fb_valid_def)
    then show ?thesis by (rule quad_less [OF lt])
  qed
  have m: "unat (ucast y * fb_pitch fb) = unat y * unat (fb_pitch fb)"
    using b ux by (simp add: unat_mult_u64)
  then have a: "unat (ucast y * fb_pitch fb + ucast x) = unat y * unat (fb_pitch fb) + unat x"
    using b ux by simp
  have "unat (4 * (ucast y * fb_pitch fb + ucast x)) = 4 * (unat y * unat (fb_pitch fb) + unat x)"
    using unat_mult_u64 [of 4 "ucast y * fb_pitch fb + ucast x"] a b by simp
  then show "unat (pixel_addr fb x y) = unat (fb_address fb) + 4 * (unat y * unat (fb_pitch fb) + unat x)"
    using b by (simp add: pixel_addr_def)
qed

lemma pixel_addr_inj:
  assumes "fb_valid fb" and "visible fb x y" and "visible fb x' y'"
  shows "pixel_addr fb x y = pixel_addr fb x' y' \<longleftrightarrow> x = x' \<and> y = y'"
proof -
  let ?p = "unat (fb_pitch fb)"
  have ux: "unat (ucast z :: u64) = unat z" for z :: u32 by simp
  have x: "unat x < ?p" "unat x' < ?p"
    using assms ux by (auto simp: visible_def fb_valid_def word_less_nat_alt word_le_nat_alt)
  have "unat y * ?p + unat x = unat y' * ?p + unat x' \<longleftrightarrow> unat y = unat y' \<and> unat x = unat x'"
  proof
    assume eq: "unat y * ?p + unat x = unat y' * ?p + unat x'"
    from arg_cong [OF eq, of "\<lambda>n. n div ?p"] arg_cong [OF eq, of "\<lambda>n. n mod ?p"] x
    show "unat y = unat y' \<and> unat x = unat x'" by auto
  qed auto
  then show ?thesis
    using pixel_addr_unat(1) [OF assms(1)] assms(2,3) by (auto simp: u64_eq_iff_unat word_unat_eq_iff)
qed

lemma fb_pixels_bounds:
  assumes "fb_valid fb" and "a \<in> fb_pixels fb"
  shows "unat (fb_address fb) \<le> unat a"
    and "unat a + 4 \<le> unat (fb_address fb) + 4 * (unat (fb_pitch fb) * unat (fb_height fb))"
proof -
  obtain x y where xy: "a = pixel_addr fb x y" "visible fb x y" using assms(2) by (auto simp: fb_pixels_def)
  note p = pixel_addr_unat [OF assms(1) xy(2)]
  show "unat (fb_address fb) \<le> unat a" using p xy by simp
  show "unat a + 4 \<le> unat (fb_address fb) + 4 * (unat (fb_pitch fb) * unat (fb_height fb))"
    using quad_step [OF p(2)] unfolding xy(1) p(1) .
qed

section \<open>What is painted\<close>

lemma put_pixel_vram:
  "framebuffer_pb s = Some fb \<Longrightarrow> vram (put_pixel x y c s) =
     (if visible fb x y then (vram s)(pixel_addr fb x y := c) else vram s)"
  by (auto simp: put_pixel_def visible_def)

lemma put_pixel_fb [simp]: "framebuffer_pb (put_pixel x y c s) = framebuffer_pb s"
  by (simp add: put_pixel_def split: option.split)

lemma plots_vram:
  assumes "framebuffer_pb s = Some fb"
  shows "vram (fold (\<lambda>(x, y). put_pixel x y c) ps s) a =
    (if \<exists>(x, y) \<in> set ps. visible fb x y \<and> a = pixel_addr fb x y then c else vram s a)"
  using assms
proof (induction ps arbitrary: s)
  case (Cons p ps)
  obtain x y where p: "p = (x, y)" by (cases p)
  show ?case
    using Cons.IH [of "put_pixel x y c s"] Cons.prems put_pixel_vram [OF Cons.prems, of x y c]
    by (auto simp: p)
qed simp

lemma fold_nested: "fold (\<lambda>i. fold (\<lambda>j. f i j) js) is s = fold (\<lambda>(i, j). f i j) (List.product is js) s"
proof (induction "is" arbitrary: s)
  case (Cons i "is")
  have "fold (\<lambda>(i, j). f i j) (map (Pair i) js) s = fold (\<lambda>j. f i j) js s" for s
    by (simp add: fold_map comp_def)
  then show ?case using Cons by simp
qed simp

lemma for_u32_map: "for_u32 a b f s = fold f (map word_of_nat [unat a..<unat b]) s"
  by (simp add: for_u32_def fold_map comp_def)

lemma u32_range: "set (map word_of_nat [unat a..<unat b]) = {i :: u32. a \<le> i \<and> i < b}"
proof -
  have "i \<in> word_of_nat ` {unat a..<unat b}" if "a \<le> i" "i < b" for i :: u32
    using that by (intro image_eqI [of _ _ "unat i"]) (simp_all add: word_less_nat_alt word_le_nat_alt)
  moreover have "a \<le> word_of_nat k \<and> word_of_nat k < b" if "unat a \<le> k" "k < unat b" for k
  proof -
    have "unat (word_of_nat k :: u32) = k" using that u32_less_wrap [of b] by (simp add: unat_of_nat)
    then show ?thesis using that by (simp add: word_less_nat_alt word_le_nat_alt)
  qed
  ultimately show ?thesis by auto
qed

lemma fill_rect_points:
  "fill_rect sx sy dx dy c s = fold (\<lambda>(x, y). put_pixel x y c)
     (List.product (map word_of_nat [unat sx..<unat dx]) (map word_of_nat [unat sy..<unat dy])) s"
  unfolding fill_rect_def for_u32_map [abs_def] fold_nested ..

section \<open>Properties\<close>

definition demo_fb :: framebuffer_t where
  "demo_fb = \<lparr>fb_width = 6, fb_height = 4, fb_pitch = 8, fb_address = 0x80000000\<rparr>"

definition demo_gfx :: gfx where
  "demo_gfx = \<lparr>framebuffer_pb = Some demo_fb, graphics_init = True, vram = (\<lambda>_. 0)\<rparr>"

lemma demo_fb_valid: "fb_valid demo_fb"
  by (simp add: fb_valid_def demo_fb_def)

text \<open>
  C18. \<open>fill_rect\<close> paints exactly the visible part of the half-open rectangle: a visible pixel gets
  the color if it lies in the rectangle and keeps its color otherwise, and no address outside the
  pixels of the framebuffer changes. An empty or inverted rectangle paints nothing.
\<close>

theorem fill_rect_exact:
  assumes "framebuffer_pb s = Some fb" and "fb_valid fb"
  shows "(\<forall>x y. visible fb x y \<longrightarrow> vram (fill_rect sx sy dx dy c s) (pixel_addr fb x y) =
      (if sx \<le> x \<and> x < dx \<and> sy \<le> y \<and> y < dy then c else vram s (pixel_addr fb x y))) \<and>
    (\<forall>a. vram (fill_rect sx sy dx dy c s) a \<noteq> vram s a \<longrightarrow> unat (fb_address fb) \<le> unat a \<and>
      unat a + 4 \<le> unat (fb_address fb) + 4 * (unat (fb_pitch fb) * unat (fb_height fb)))"
proof -
  have pts: "vram (fill_rect sx sy dx dy c s) a =
      (if \<exists>x y. sx \<le> x \<and> x < dx \<and> sy \<le> y \<and> y < dy \<and> visible fb x y \<and> a = pixel_addr fb x y then c else vram s a)" for a
    unfolding fill_rect_points plots_vram [OF assms(1)] set_product u32_range by auto
  have "a \<in> fb_pixels fb" if "vram (fill_rect sx sy dx dy c s) a \<noteq> vram s a" for a
    using that by (auto simp: pts fb_pixels_def split: if_splits)
  then show ?thesis
    using fb_pixels_bounds [OF assms(2)] pixel_addr_inj [OF assms(2)] by (auto simp: pts)
qed

theorem fill_rect_exact_witness:
  "vram (fill_rect 2 1 9 3 7 demo_gfx) (pixel_addr demo_fb 5 2) = 7 \<and>
   vram (fill_rect 2 1 9 3 7 demo_gfx) (pixel_addr demo_fb 0 2) = 0"
proof -
  have "framebuffer_pb demo_gfx = Some demo_fb" by (simp add: demo_gfx_def)
  from fill_rect_exact [OF this demo_fb_valid, of 2 1 9 3 7]
  have *: "visible demo_fb x y \<Longrightarrow> vram (fill_rect 2 1 9 3 7 demo_gfx) (pixel_addr demo_fb x y) =
      (if 2 \<le> x \<and> x < 9 \<and> 1 \<le> y \<and> y < 3 then 7 else vram demo_gfx (pixel_addr demo_fb x y))" for x y
    by blast
  show ?thesis using *[of 5 2] *[of 0 2] by (simp add: visible_def demo_fb_def demo_gfx_def)
qed

lemma line_points:
  fixes sx sy dx dy :: u32
  assumes "sx < 0x20000000" "sy < 0x20000000" "dx < 0x20000000" "dy < 0x20000000"
  shows "\<exists>ps. line plot sx sy dx dy s = Some (fold (\<lambda>(x, y). plot (word_of_int x) (word_of_int y)) ps s) \<and>
    ps \<noteq> [] \<and> hd ps = (uint sx, uint sy) \<and> last ps = (uint dx, uint dy) \<and>
    successively (\<lambda>(x, y) (x', y'). \<bar>x' - x\<bar> \<le> 1 \<and> \<bar>y' - y\<bar> \<le> 1) ps \<and>
    (\<forall>(x, y) \<in> set ps. min (uint sx) (uint dx) \<le> x \<and> x \<le> max (uint sx) (uint dx) \<and>
       min (uint sy) (uint dy) \<le> y \<and> y \<le> max (uint sy) (uint dy))"
proof -
  have sint: "sint w = uint w" if "w < 0x20000000" for w :: u32
  proof -
    have "uint w < 0x20000000" using that by (simp add: word_less_def)
    moreover have "0 \<le> uint w" by simp
    ultimately have "- 2147483648 \<le> uint w \<and> uint w < 2147483648" by linarith
    then show ?thesis by (simp add: sint_uint signed_take_bit_int_eq_self_iff)
  qed
  let ?x = "uint sx" and ?y = "uint sy" and ?u = "uint dx" and ?v = "uint dy"
  let ?ax = "\<bar>?u - ?x\<bar>" and ?ay = "\<bar>?v - ?y\<bar>"
  define stx :: int where "stx = (if ?x < ?u then 1 else - 1)"
  define sty :: int where "sty = (if ?y < ?v then 1 else - 1)"
  have ends: "?x + stx * ?ax = ?u" "?y + sty * ?ay = ?v" by (auto simp: stx_def sty_def)
  have sts: "stx = 1 \<or> stx = - 1" "sty = 1 \<or> sty = - 1" by (auto simp: stx_def sty_def)
  obtain ps where ps: "line_path ?ax ?ay (0, 0) ps"
    and run: "line_loop plot ?u ?v ?ax stx (- ?ay) sty ?x ?y (?ax - ?ay) s =
      Some (fold (\<lambda>(i, j). plot (word_of_int (?x + stx * i)) (word_of_int (?y + sty * j))) ps s)"
    using line_loop_path [of 0 ?ax 0 ?ay stx sty plot ?x ?y s, unfolded ends] sts by (auto simp: line_error_def)
  define qs where "qs = map (\<lambda>(i, j). (?x + stx * i, ?y + sty * j)) ps"
  have line: "line plot sx sy dx dy s = Some (fold (\<lambda>(x, y). plot (word_of_int x) (word_of_int y)) qs s)"
    using run by (simp add: line_def sint assms stx_def sty_def qs_def fold_map comp_def case_prod_unfold)
  note box = line_path_box [OF ps]
  have "successively (\<lambda>(i, j) (i', j'). (i' = i \<or> i' = i + 1) \<and> (j' = j \<or> j' = j + 1)) ps"
    using ps
  proof (induction rule: line_path.induct)
    case (line_next i' j' ps i j)
    then have "hd ps = (i', j')" "ps \<noteq> []" by (auto elim: line_path.cases)
    then show ?case using line_next by (cases ps) auto
  qed simp
  then have "successively (\<lambda>(x, y) (x', y'). \<bar>x' - x\<bar> \<le> 1 \<and> \<bar>y' - y\<bar> \<le> 1) qs"
    unfolding qs_def successively_map by (rule successively_mono) (use sts in auto)
  moreover have "min ?x ?u \<le> x \<and> x \<le> max ?x ?u \<and> min ?y ?v \<le> y \<and> y \<le> max ?y ?v" if "(x, y) \<in> set qs" for x y
    using that box by (fastforce simp: qs_def stx_def sty_def)
  moreover have "qs \<noteq> []" "hd qs = (?x, ?y)" "last qs = (?u, ?v)"
    using box ends by (auto simp: qs_def hd_map last_map)
  ultimately show ?thesis using line by (intro exI [of _ qs]) auto
qed

text \<open>
  C19. The line algorithm ends for all coordinates below $2^{29}$: \<open>draw_line\<close> plots a sequence of
  points that starts at the first and stops at the second given point, in which every point is a
  neighbour of the one before, and which stays in the bounding box of the two.
\<close>

theorem draw_line_ends:
  assumes "sx < 0x20000000" "sy < 0x20000000" "dx < 0x20000000" "dy < 0x20000000"
  shows "\<exists>ps. draw_line sx sy dx dy c s = Some (fold (\<lambda>(x, y). put_pixel (word_of_int x) (word_of_int y) c) ps s) \<and>
    ps \<noteq> [] \<and> hd ps = (uint sx, uint sy) \<and> last ps = (uint dx, uint dy) \<and>
    successively (\<lambda>(x, y) (x', y'). \<bar>x' - x\<bar> \<le> 1 \<and> \<bar>y' - y\<bar> \<le> 1) ps \<and>
    (\<forall>(x, y) \<in> set ps. min (uint sx) (uint dx) \<le> x \<and> x \<le> max (uint sx) (uint dx) \<and>
       min (uint sy) (uint dy) \<le> y \<and> y \<le> max (uint sy) (uint dy))"
  unfolding draw_line_def using line_points [OF assms, of "\<lambda>x y. put_pixel x y c"] .

theorem draw_line_ends_witness: "\<exists>t. draw_line 1 0 4 2 7 demo_gfx = Some t"
  using draw_line_ends [of 1 0 4 2 7 demo_gfx] by auto



end
