(* ===== verification/Terminal.thy ===== *)
theory Terminal
  imports Graphics
begin

unbundle bit_operations_syntax

text \<open>
  The kernel terminal, \<open>kernel/graphics/terminal.c\<close>. Its state extends the drawing state by the
  cursor, the font in use and the memory its glyphs are read from, and the bytes sent to the serial
  port, which \<open>serial_putchar\<close> of \<open>kernel/lib/stdio.c\<close> writes; the wait for the port to become ready
  is left out.

  The lemmas show that every character goes to the serial port, that the terminal draws inside the
  framebuffer only, that line feeds keep the cursor line on the screen, and how scrolling moves the
  rows.
\<close>

section \<open>The code\<close>

record tty = gfx +
  cursor_x :: u64
  cursor_y :: u64
  current_font :: font_t
  glyph_mem :: "u64 \<Rightarrow> u8"
  serial_out :: "u8 list"

definition serial_putchar :: "u8 \<Rightarrow> 'a tty_scheme \<Rightarrow> 'a tty_scheme" where
  "serial_putchar c s = s\<lparr>serial_out := serial_out s @ [c]\<rparr>"

definition term_init :: "u64 \<Rightarrow> 'a tty_scheme \<Rightarrow> 'a tty_scheme" where
  "term_init cozette_psf s =
     (if \<not> graphics_init s then s
      else s\<lparr>current_font := load_glyphs (glyph_mem s) cozette_psf\<rparr>)"

text \<open>
  The \<open>memmove\<close> of \<open>term_scroll\<close> moves the rows below the first text line up; source and destination
  overlap, and the result is that of \<open>memmove\<close> on overlapping blocks.
\<close>

definition move_rows :: "u64 \<Rightarrow> u64 \<Rightarrow> u64 \<Rightarrow> (u64 \<Rightarrow> u32) \<Rightarrow> (u64 \<Rightarrow> u32)" where
  "move_rows dest src n m = (\<lambda>a. if a - dest < n then m (src + (a - dest)) else m a)"

definition term_scroll :: "u32 \<Rightarrow> font_t \<Rightarrow> 'a tty_scheme \<Rightarrow> 'a tty_scheme" where
  "term_scroll background font s =
     (case framebuffer_pb s of
        None \<Rightarrow> s
      | Some fb \<Rightarrow>
          let pitch = fb_pitch fb; height = fb_height fb; line_height = ucast (font_height font)
          in if line_height = 0 \<or> height \<le> line_height then s
             else
               let buffer = fb_address fb;
                   m = move_rows buffer (buffer + 4 * (line_height * pitch))
                         ((height - line_height) * pitch * 4) (vram s);
                   first_clear_row = height - line_height;
                   m' = fold (\<lambda>y m. fold (\<lambda>x m. m(buffer + 4 * (word_of_nat y * pitch + word_of_nat x) := background))
                          [0..<unat pitch] m) [unat first_clear_row..<unat height] m
               in s\<lparr>vram := m'\<rparr>)"

definition ln :: "framebuffer_t \<Rightarrow> u32 \<Rightarrow> font_t \<Rightarrow> 'a tty_scheme \<Rightarrow> 'a tty_scheme" where
  "ln fb background font s =
     (let s1 = s\<lparr>cursor_x := 0, cursor_y := cursor_y s + ucast (font_height font)\<rparr>
      in if fb_height fb < cursor_y s1 + ucast (font_height font)
         then (term_scroll background font s1)\<lparr>cursor_y := fb_height fb - ucast (font_height font)\<rparr>
         else s1)"

text \<open>\<open>for row < font.height, for col < font.width: put_pixel(cursor_x + col, cursor_y + row, color)\<close>\<close>

definition paint_cell :: "font_t \<Rightarrow> (u32 \<Rightarrow> u32 \<Rightarrow> u32) \<Rightarrow> 'a tty_scheme \<Rightarrow> 'a tty_scheme" where
  "paint_cell font color s =
     for_u32 0 (font_height font) (\<lambda>row. for_u32 0 (font_width font) (\<lambda>col s.
       put_pixel (ucast (cursor_x s + ucast col)) (ucast (cursor_y s + ucast row)) (color row col) s)) s"

definition glyph_bit :: "(u64 \<Rightarrow> u8) \<Rightarrow> u64 \<Rightarrow> u32 \<Rightarrow> u32 \<Rightarrow> u32 \<Rightarrow> bool" where
  "glyph_bit m glyph bytes row col \<longleftrightarrow>
     m (glyph + ucast (row * bytes + col div 8)) AND drop_bit (unat (col mod 8)) 0x80 \<noteq> 0"

definition Putchar :: "u8 \<Rightarrow> u32 \<Rightarrow> u32 \<Rightarrow> font_t \<Rightarrow> 'a tty_scheme \<Rightarrow> 'a tty_scheme" where
  "Putchar c foreground background font s0 =
     (let s = serial_putchar c s0 in
      case framebuffer_pb s of
        None \<Rightarrow> s
      | Some fb \<Rightarrow>
          if c = 13 then s\<lparr>cursor_x := 0\<rparr>
          else if c = 10 then ln fb background font s
          else if c = 8 then
            let s1 = s\<lparr>cursor_x := (if ucast (font_width font) \<le> cursor_x s
                                    then cursor_x s - ucast (font_width font) else 0)\<rparr>
            in paint_cell font (\<lambda>row col. background) s1
          else if c = 9 then
            let s1 = s\<lparr>cursor_x := cursor_x s + ucast (font_width font * 4)\<rparr>
            in if fb_width fb < cursor_x s1 + ucast (font_width font)
               then s1\<lparr>cursor_x := 0, cursor_y := cursor_y s1 + ucast (font_height font)\<rparr>
               else s1
          else
            let index = (ucast c :: u32)
            in if glyph_count font \<le> index then s
               else
                 let glyph = glyphs font + ucast (index * glyphsize font);
                     bytes = (font_width font + 7) div 8;
                     s1 = paint_cell font (\<lambda>row col.
                            if glyph_bit (glyph_mem s) glyph bytes row col then foreground else background) s;
                     s2 = s1\<lparr>cursor_x := cursor_x s1 + ucast (font_width font)\<rparr>;
                     s3 = (if fb_width fb < cursor_x s2 + ucast (font_width font)
                           then term_scroll background font s2 else s2)
                 in if fb_height fb < cursor_y s3 + ucast (font_height font)
                    then term_scroll background font s3 else s3)"

section \<open>Scrolling\<close>

lemma fold_updates: "fold (\<lambda>x m. m(f x := c)) xs m = (\<lambda>a. if a \<in> f ` set xs then c else m a)"
  by (induction xs arbitrary: m) (auto simp: fun_eq_iff)

text \<open>The address of pixel number \<open>k\<close> of a framebuffer.\<close>

definition nth_pixel :: "framebuffer_t \<Rightarrow> nat \<Rightarrow> u64" where
  "nth_pixel fb k = fb_address fb + 4 * word_of_nat k"

lemma nth_pixel_unat:
  assumes "fb_valid fb" and "k < unat (fb_pitch fb) * unat (fb_height fb)"
  shows "unat (nth_pixel fb k) = unat (fb_address fb) + 4 * k"
    and "unat (nth_pixel fb k - fb_address fb) = 4 * k"
proof -
  have b: "unat (fb_address fb) + 4 * k < 18446744073709551616"
    using quad_less [OF assms(2)] assms(1) by (auto simp: fb_valid_def)
  have k: "unat (word_of_nat k :: u64) = k" using b by (simp add: unat_of_nat_u64)
  then have "unat (4 * word_of_nat k :: u64) = 4 * k" using b by (simp add: unat_mult_u64)
  then show "unat (nth_pixel fb k) = unat (fb_address fb) + 4 * k" "unat (nth_pixel fb k - fb_address fb) = 4 * k"
    using b by (simp_all add: nth_pixel_def)
qed

lemma row_pixel:
  assumes "x < p" and "y < h"
  shows "y * p + x < p * (h :: nat)"
proof -
  have "Suc y * p \<le> h * p" by (rule mult_le_mono1) (use assms in simp)
  then show ?thesis using assms by (simp add: mult.commute)
qed

lemma nth_pixel_word: "buffer + 4 * (word_of_nat y * pitch + word_of_nat x) =
    buffer + 4 * word_of_nat (y * unat pitch + x)" for pitch :: u64
  by simp

definition scroll_mem :: "framebuffer_t \<Rightarrow> u64 \<Rightarrow> u32 \<Rightarrow> (u64 \<Rightarrow> u32) \<Rightarrow> (u64 \<Rightarrow> u32)" where
  "scroll_mem fb lh bg m =
     (\<lambda>a. if \<exists>y x. unat (fb_height fb - lh) \<le> y \<and> y < unat (fb_height fb) \<and> x < unat (fb_pitch fb) \<and>
               a = nth_pixel fb (y * unat (fb_pitch fb) + x) then bg
          else move_rows (fb_address fb) (fb_address fb + 4 * (lh * fb_pitch fb))
                 ((fb_height fb - lh) * fb_pitch fb * 4) m a)"

lemma term_scroll_mem:
  assumes "framebuffer_pb s = Some fb"
  shows "term_scroll bg font s =
    (let lh = ucast (font_height font) in
     if lh = 0 \<or> fb_height fb \<le> lh then s else s\<lparr>vram := scroll_mem fb lh bg (vram s)\<rparr>)"
proof -
  have "fold (\<lambda>y m. fold (\<lambda>x m. m(b + 4 * (word_of_nat y * pitch + word_of_nat x) := bg)) [0..<unat pitch] m)
      [i..<j] m = (\<lambda>a. if \<exists>y x. i \<le> y \<and> y < j \<and> x < unat pitch \<and> a = b + 4 * word_of_nat (y * unat pitch + x) then bg else m a)"
    for b pitch :: u64 and i j m
  proof -
    have "fold (\<lambda>y m. fold (\<lambda>x m. m(b + 4 * (word_of_nat y * pitch + word_of_nat x) := bg)) [0..<unat pitch] m) [i..<j] m =
       fold (\<lambda>(y, x) m. m(b + 4 * word_of_nat (y * unat pitch + x) := bg)) (List.product [i..<j] [0..<unat pitch]) m"
      unfolding nth_pixel_word fold_nested ..
    also have "\<dots> = fold (\<lambda>p m. m((case p of (y, x) \<Rightarrow> b + 4 * word_of_nat (y * unat pitch + x)) := bg))
       (List.product [i..<j] [0..<unat pitch]) m"
      by (rule fold_cong) auto
    also have "\<dots> = (\<lambda>a. if \<exists>y x. i \<le> y \<and> y < j \<and> x < unat pitch \<and> a = b + 4 * word_of_nat (y * unat pitch + x) then bg else m a)"
      unfolding fold_updates by (rule ext) (auto simp del: of_nat_add of_nat_mult, force)
    finally show ?thesis .
  qed
  then show ?thesis using assms
    by (simp add: term_scroll_def scroll_mem_def nth_pixel_def Let_def del: of_nat_add of_nat_mult)
qed

lemma scroll_offsets:
  assumes v: "fb_valid fb" and lh: "lh < fb_height fb" "lh \<noteq> 0"
  shows "unat (4 * (lh * fb_pitch fb)) = 4 * (unat lh * unat (fb_pitch fb))"
    and "unat ((fb_height fb - lh) * fb_pitch fb * 4) = 4 * ((unat (fb_height fb) - unat lh) * unat (fb_pitch fb))"
proof -
  let ?p = "unat (fb_pitch fb)" and ?h = "unat (fb_height fb)"
  have lt: "unat lh < ?h" "0 < unat lh" using lh by (simp_all add: word_less_nat_alt unat_gt_0)
  have tot: "4 * (?h * ?p) \<le> 18446744073709551616"
    using v by (simp add: fb_valid_def mult.commute)
  have sub: "unat (fb_height fb - lh) = ?h - unat lh" using lt by (simp add: unat_sub_u64)
  show "unat (4 * (lh * fb_pitch fb)) = 4 * (unat lh * ?p)"
  proof (cases "?p = 0")
    case False
    then have "unat lh * ?p < ?h * ?p" using lt by simp
    then have b: "4 * (unat lh * ?p) < 18446744073709551616" using tot by linarith
    then show ?thesis by (simp add: unat_mult_u64)
  qed (simp add: unat_eq_zero)
  show "unat ((fb_height fb - lh) * fb_pitch fb * 4) = 4 * ((?h - unat lh) * ?p)"
  proof (cases "?p = 0")
    case False
    then have "(?h - unat lh) * ?p < ?h * ?p" using lt by simp
    then have b: "4 * ((?h - unat lh) * ?p) < 18446744073709551616" using tot by linarith
    then have "unat ((fb_height fb - lh) * fb_pitch fb) = (?h - unat lh) * ?p"
      using unat_mult_u64 [of "fb_height fb - lh" "fb_pitch fb"] unfolding sub by (simp add: mult.commute)
    then show ?thesis using b by (simp add: unat_mult_u64 mult.commute)
  qed (simp add: unat_eq_zero)
qed

lemma scroll_mem_pixel:
  assumes v: "fb_valid fb" and lh: "lh < fb_height fb" "lh \<noteq> 0"
    and x: "x < unat (fb_pitch fb)" and y: "y < unat (fb_height fb)"
  shows "scroll_mem fb lh bg m (nth_pixel fb (y * unat (fb_pitch fb) + x)) =
    (if y < unat (fb_height fb) - unat lh then m (nth_pixel fb ((y + unat lh) * unat (fb_pitch fb) + x)) else bg)"
proof -
  let ?p = "unat (fb_pitch fb)" and ?h = "unat (fb_height fb)" and ?k = "y * unat (fb_pitch fb) + x"
  have sub: "unat (fb_height fb - lh) = ?h - unat lh" and lt: "unat lh < ?h"
    using lh by (simp_all add: unat_sub_u64 word_less_nat_alt)
  have k: "?k < ?p * ?h" by (rule row_pixel) (use x y in auto)
  have inj: "nth_pixel fb ?k = nth_pixel fb (y' * ?p + x') \<longleftrightarrow> y' = y \<and> x' = x"
    if "y' < ?h" "x' < ?p" for y' x'
  proof -
    have "y' * ?p + x' < ?p * ?h" by (rule row_pixel) (use that in auto)
    then have "nth_pixel fb ?k = nth_pixel fb (y' * ?p + x') \<longleftrightarrow> ?k = y' * ?p + x'"
      using nth_pixel_unat(1) [OF v k] nth_pixel_unat(1) [OF v, of "y' * ?p + x'"] by (auto simp: u64_eq_iff_unat)
    also have "\<dots> \<longleftrightarrow> y' = y \<and> x' = x"
    proof
      assume eq: "?k = y' * ?p + x'"
      from arg_cong [OF eq, of "\<lambda>n. n div ?p"] arg_cong [OF eq, of "\<lambda>n. n mod ?p"] x that
      show "y' = y \<and> x' = x" by auto
    qed auto
    finally show ?thesis .
  qed
  show ?thesis
  proof (cases "y < ?h - unat lh")
    case False
    then show ?thesis using x y sub by (auto simp: scroll_mem_def)
  next
    case True
    have no: "\<not> (\<exists>y' x'. unat (fb_height fb - lh) \<le> y' \<and> y' < ?h \<and> x' < ?p \<and> nth_pixel fb ?k = nth_pixel fb (y' * ?p + x'))"
      using inj True sub by auto
    have "?k < ?p * (?h - unat lh)" by (rule row_pixel) (use x True in auto)
    then have "4 * ?k < 4 * ((?h - unat lh) * ?p)" by (simp add: mult.commute)
    then have in_blk: "nth_pixel fb ?k - fb_address fb < (fb_height fb - lh) * fb_pitch fb * 4"
      unfolding word_less_nat_alt nth_pixel_unat(2) [OF v k] scroll_offsets(2) [OF v lh] .
    have "nth_pixel fb ((y + unat lh) * ?p + x) = fb_address fb + 4 * (lh * fb_pitch fb) + (nth_pixel fb ?k - fb_address fb)"
      by (simp add: nth_pixel_def algebra_simps)
    then show ?thesis using True in_blk unfolding scroll_mem_def if_not_P [OF no] move_rows_def by simp
  qed
qed

definition fb_block :: "framebuffer_t \<Rightarrow> u64 set" where
  "fb_block fb = {a. unat (fb_address fb) \<le> unat a \<and>
     unat a < unat (fb_address fb) + 4 * (unat (fb_pitch fb) * unat (fb_height fb))}"

lemma scroll_mem_confined:
  assumes v: "fb_valid fb" and lh: "lh < fb_height fb" "lh \<noteq> 0" and a: "a \<notin> fb_block fb"
  shows "scroll_mem fb lh bg m a = m a"
proof -
  let ?p = "unat (fb_pitch fb)" and ?h = "unat (fb_height fb)"
  have "a \<noteq> nth_pixel fb (y * ?p + x)" if "y < ?h" "x < ?p" for x y
  proof -
    have k: "y * ?p + x < ?p * ?h" by (rule row_pixel) (use that in auto)
    then show ?thesis using a nth_pixel_unat(1) [OF v k] by (auto simp: fb_block_def)
  qed
  moreover have "\<not> a - fb_address fb < (fb_height fb - lh) * fb_pitch fb * 4"
  proof
    assume "a - fb_address fb < (fb_height fb - lh) * fb_pitch fb * 4"
    then have lt: "unat (a - fb_address fb) < 4 * ((?h - unat lh) * ?p)"
      unfolding word_less_nat_alt scroll_offsets(2) [OF v lh] .
    have le: "(?h - unat lh) * ?p \<le> ?p * ?h" by (simp add: mult.commute)
    have tot: "unat (fb_address fb) + 4 * (?p * ?h) \<le> 18446744073709551616" using v by (simp add: fb_valid_def)
    have off: "unat (a - fb_address fb) < 4 * (?p * ?h)" using lt le by linarith
    then have "unat (fb_address fb) + unat (a - fb_address fb) < 18446744073709551616" using tot by linarith
    then have "unat a = unat (fb_address fb) + unat (a - fb_address fb)"
      using unat_add_u64 [of "fb_address fb" "a - fb_address fb"] by simp
    with off a show False by (simp add: fb_block_def)
  qed
  ultimately show ?thesis by (auto simp: scroll_mem_def move_rows_def)
qed

section \<open>Characters\<close>

definition tty_confined :: "framebuffer_t \<Rightarrow> 'a tty_scheme \<Rightarrow> 'a tty_scheme \<Rightarrow> bool" where
  "tty_confined fb s t \<longleftrightarrow> framebuffer_pb t = framebuffer_pb s \<and> serial_out t = serial_out s \<and>
     (\<forall>a. a \<notin> fb_block fb \<longrightarrow> vram t a = vram s a)"

lemma tty_confined_refl [simp]: "tty_confined fb s s"
  by (simp add: tty_confined_def)

lemma tty_confined_trans: "tty_confined fb s t \<Longrightarrow> tty_confined fb t u \<Longrightarrow> tty_confined fb s u"
  by (simp add: tty_confined_def)

lemma term_scroll_confined:
  assumes "fb_valid fb" and "framebuffer_pb s = Some fb"
  shows "tty_confined fb s (term_scroll bg font s)" and "cursor_x (term_scroll bg font s) = cursor_x s"
    and "cursor_y (term_scroll bg font s) = cursor_y s"
  using scroll_mem_confined [OF assms(1), of "ucast (font_height font)"]
  by (auto simp: term_scroll_mem [OF assms(2)] tty_confined_def Let_def not_le)

lemma put_pixel_confined:
  assumes "fb_valid fb" and "framebuffer_pb s = Some fb"
  shows "tty_confined fb s (put_pixel x y c s)"
proof -
  have "serial_out (put_pixel x y c s) = serial_out s" by (simp add: put_pixel_def split: option.split)
  moreover have "pixel_addr fb x y \<in> fb_block fb" if "visible fb x y"
  proof -
    have "pixel_addr fb x y \<in> fb_pixels fb" using that by (auto simp: fb_pixels_def)
    from fb_pixels_bounds [OF assms(1) this] show ?thesis by (simp add: fb_block_def)
  qed
  ultimately show ?thesis using put_pixel_vram [OF assms(2), of x y c] by (auto simp: tty_confined_def)
qed

lemma paint_cell_confined:
  assumes v: "fb_valid fb" and fb: "framebuffer_pb s = Some fb"
  shows "tty_confined fb s (paint_cell font color s)" and "cursor_x (paint_cell font color s) = cursor_x s"
    and "cursor_y (paint_cell font color s) = cursor_y s"
proof -
  define I where "I t \<longleftrightarrow> tty_confined fb s t \<and> framebuffer_pb t = Some fb \<and> cursor_x t = cursor_x s \<and> cursor_y t = cursor_y s" for t
  have plot: "I (put_pixel x y c t)" if "I t" for x y c t
    using that put_pixel_confined [OF v, of t x y c] tty_confined_trans [of fb s t]
    by (auto simp: I_def put_pixel_def split: option.split)
  have fold: "I (fold f xs t)" if "\<And>x t. I t \<Longrightarrow> I (f x t)" "I t" for f xs t
    using that(2) by (induction xs arbitrary: t) (auto intro: that(1))
  have "I s" using fb by (simp add: I_def)
  then have "I (paint_cell font color s)"
    unfolding paint_cell_def for_u32_def by (intro fold plot)
  then show "tty_confined fb s (paint_cell font color s)" "cursor_x (paint_cell font color s) = cursor_x s"
    "cursor_y (paint_cell font color s) = cursor_y s" by (auto simp: I_def)
qed

lemma Putchar_confined:
  assumes v: "fb_valid fb" and fb: "framebuffer_pb s = Some fb"
  shows "tty_confined fb (serial_putchar c s) (Putchar c fg bg font s)"
proof -
  let ?s = "serial_putchar c s"
  have fb': "framebuffer_pb ?s = Some fb" using fb by (simp add: serial_putchar_def)
  define I where "I t \<longleftrightarrow> tty_confined fb ?s t \<and> framebuffer_pb t = Some fb" for t
  have I0: "I ?s" using fb' by (simp add: I_def)
  have I1: "I (cursor_x_update f t)" "I (cursor_y_update f t)" if "I t" for f t
    using that fb' by (simp_all add: I_def tty_confined_def)
  have I2: "I (term_scroll bg font t)" "I (paint_cell font color t)" if "I t" for t color
    using that fb' term_scroll_confined(1) [OF v, of t bg font] paint_cell_confined(1) [OF v, of t font color]
    by (auto simp: I_def tty_confined_def)
  have I3: "I (if b then t else u)" if "I t" "I u" for b t u using that by simp
  note rules = I0 I1 I2 I3
  have "I (Putchar c fg bg font s)"
    unfolding Putchar_def Let_def ln_def fb' option.case by (intro rules)
  then show ?thesis by (simp add: I_def)
qed

section \<open>Properties\<close>

text \<open>
  C21. \<open>term_scroll\<close> moves the picture up by one text line: row \<open>y\<close> becomes what row \<open>y + line_height\<close>
  was, and the last \<open>line_height\<close> rows become the background, in all columns of the pitch; nothing
  outside the framebuffer changes.
\<close>

theorem term_scroll_rows:
  assumes "framebuffer_pb s = Some fb" and "fb_valid fb"
    and "lh = unat (font_height font)" and "0 < lh" and "lh < unat (fb_height fb)"
  shows "(\<forall>x y. x < unat (fb_pitch fb) \<and> y < unat (fb_height fb) \<longrightarrow>
      vram (term_scroll bg font s) (nth_pixel fb (y * unat (fb_pitch fb) + x)) =
      (if y < unat (fb_height fb) - lh then vram s (nth_pixel fb ((y + lh) * unat (fb_pitch fb) + x)) else bg)) \<and>
    (\<forall>a. a \<notin> fb_block fb \<longrightarrow> vram (term_scroll bg font s) a = vram s a)"
proof -
  let ?l = "ucast (font_height font) :: u64"
  have l: "?l < fb_height fb" "?l \<noteq> 0" "unat ?l = lh"
    using assms(3-5) by (auto simp: word_less_nat_alt u64_eq_iff_unat)
  have m: "vram (term_scroll bg font s) = scroll_mem fb ?l bg (vram s)"
  proof -
    have "\<not> fb_height fb \<le> ?l" using l(1) by simp
    with l(2) show ?thesis by (simp add: term_scroll_mem [OF assms(1)] Let_def)
  qed
  show ?thesis
    unfolding m using scroll_mem_pixel [OF assms(2) l(1,2)] scroll_mem_confined [OF assms(2) l(1,2)] l(3) by auto
qed

definition demo_font :: font_t where
  "demo_font = \<lparr>glyphs = 0x100, glyphsize = 2, glyph_count = 128, font_width = 3, font_height = 2\<rparr>"

definition demo_tty :: tty where
  "demo_tty = \<lparr>framebuffer_pb = Some demo_fb, graphics_init = True, vram = (\<lambda>a. ucast a), cursor_x = 0, cursor_y = 2,
     current_font = demo_font, glyph_mem = (\<lambda>_. 0xA0), serial_out = []\<rparr>"

theorem term_scroll_rows_witness:
  "vram (term_scroll 5 demo_font demo_tty) (nth_pixel demo_fb 9) = vram demo_tty (nth_pixel demo_fb 25) \<and>
   vram (term_scroll 5 demo_font demo_tty) (nth_pixel demo_fb 17) = 5"
proof -
  have fb: "framebuffer_pb demo_tty = Some demo_fb" by (simp add: demo_tty_def)
  have "2 = unat (font_height demo_font)" "2 < unat (fb_height demo_fb)" by (simp_all add: demo_font_def demo_fb_def)
  from term_scroll_rows [OF fb demo_fb_valid this(1) _ this(2), of 5]
  have *: "x < 8 \<Longrightarrow> y < 4 \<Longrightarrow> vram (term_scroll 5 demo_font demo_tty) (nth_pixel demo_fb (y * 8 + x)) =
      (if y < 2 then vram demo_tty (nth_pixel demo_fb ((y + 2) * 8 + x)) else 5)" for x y
    by (simp add: demo_fb_def)
  show ?thesis using *[of 1 1] *[of 1 2] by simp
qed

text \<open>
  C22. \<open>Putchar\<close> always sends the character to the serial port and writes no memory outside the
  framebuffer. After a line feed the cursor is at the start of a line that lies on the screen,
  provided the font is not taller than the screen and the cursor was on it.
\<close>

theorem Putchar_safe:
  assumes "framebuffer_pb s = Some fb" and "fb_valid fb"
  shows "serial_out (Putchar c fg bg font s) = serial_out s @ [c] \<and>
    framebuffer_pb (Putchar c fg bg font s) = Some fb \<and>
    (\<forall>a. a \<notin> fb_block fb \<longrightarrow> vram (Putchar c fg bg font s) a = vram s a) \<and>
    (c = 10 \<and> unat (font_height font) \<le> unat (fb_height fb) \<and> unat (cursor_y s) \<le> unat (fb_height fb) \<and>
       unat (fb_height fb) < 0x100000000 \<longrightarrow>
     cursor_x (Putchar c fg bg font s) = 0 \<and>
     unat (cursor_y (Putchar c fg bg font s)) + unat (font_height font) \<le> unat (fb_height fb))"
proof -
  let ?t = "Putchar c fg bg font s"
  have "tty_confined fb (serial_putchar c s) ?t" by (rule Putchar_confined [OF assms(2,1)])
  then have conf: "serial_out ?t = serial_out s @ [c]" "framebuffer_pb ?t = Some fb"
    "\<forall>a. a \<notin> fb_block fb \<longrightarrow> vram ?t a = vram s a"
    using assms(1) by (auto simp: tty_confined_def serial_putchar_def)
  have "cursor_x ?t = 0 \<and> unat (cursor_y ?t) + unat (font_height font) \<le> unat (fb_height fb)"
    if nl: "c = 10" and fit: "unat (font_height font) \<le> unat (fb_height fb)" "unat (cursor_y s) \<le> unat (fb_height fb)"
      "unat (fb_height fb) < 0x100000000"
  proof -
    let ?h = "ucast (font_height font) :: u64"
    let ?s1 = "serial_putchar c s\<lparr>cursor_x := 0, cursor_y := cursor_y s + ?h\<rparr>"
    have fb1: "framebuffer_pb ?s1 = Some fb" using assms(1) by (simp add: serial_putchar_def)
    have t: "?t = (if fb_height fb < cursor_y s + ?h + ?h
        then (term_scroll bg font ?s1)\<lparr>cursor_y := fb_height fb - ?h\<rparr> else ?s1)"
      using assms(1) nl by (simp add: Putchar_def ln_def serial_putchar_def Let_def)
    have u: "unat (cursor_y s + ?h) = unat (cursor_y s) + unat (font_height font)"
      "unat (cursor_y s + ?h + ?h) = unat (cursor_y s) + unat (font_height font) + unat (font_height font)"
    proof -
      show *: "unat (cursor_y s + ?h) = unat (cursor_y s) + unat (font_height font)" using fit by simp
      show "unat (cursor_y s + ?h + ?h) = unat (cursor_y s) + unat (font_height font) + unat (font_height font)"
        using unat_add_u64 [of "cursor_y s + ?h" ?h] fit unfolding * by simp
    qed
    have "unat (fb_height fb - ?h) = unat (fb_height fb) - unat (font_height font)"
      using fit(1) by (simp add: unat_sub_u64)
    then show ?thesis
      using fit(1) u term_scroll_confined(2) [OF assms(2) fb1, of bg font]
      by (auto simp: t word_less_nat_alt)
  qed
  with conf show ?thesis by blast
qed

theorem Putchar_safe_witness:
  "serial_out (Putchar 10 1 2 demo_font demo_tty) = [10] \<and>
   unat (cursor_y (Putchar 10 1 2 demo_font demo_tty)) + 2 \<le> 4"
proof -
  have fb: "framebuffer_pb demo_tty = Some demo_fb" by (simp add: demo_tty_def)
  have h: "unat (font_height demo_font) = 2" "unat (fb_height demo_fb) = 4" "unat (cursor_y demo_tty) = 2"
    "serial_out demo_tty = []" by (simp_all add: demo_font_def demo_fb_def demo_tty_def)
  show ?thesis using Putchar_safe [OF fb demo_fb_valid, of 10 1 2 demo_font, unfolded h] by simp
qed

text \<open>
  A printable character moves the cursor to the right by one cell and never to another line: at
  the right edge the picture scrolls, but the cursor stays beyond the edge, and the characters
  that follow are not visible.
\<close>

lemma Putchar_never_wraps:
  assumes "framebuffer_pb s = Some fb" and "fb_valid fb" and "c \<notin> {8, 9, 10, 13}" and "ucast c < glyph_count font"
  shows "cursor_x (Putchar c fg bg font s) = cursor_x s + ucast (font_width font) \<and>
    cursor_y (Putchar c fg bg font s) = cursor_y s"
proof -
  let ?s = "serial_putchar c s"
  have fb: "framebuffer_pb ?s = Some fb" "cursor_x ?s = cursor_x s" "cursor_y ?s = cursor_y s"
    using assms(1) by (simp_all add: serial_putchar_def)
  define color where "color = (\<lambda>row col. if glyph_bit (glyph_mem ?s) (glyphs font + ucast ((ucast c :: u32) * glyphsize font))
      ((font_width font + 7) div 8) row col then fg else bg)"
  define s2 where "s2 = paint_cell font color ?s\<lparr>cursor_x := cursor_x (paint_cell font color ?s) + ucast (font_width font)\<rparr>"
  note p = paint_cell_confined [OF assms(2) fb(1), of font color]
  have s2: "framebuffer_pb s2 = Some fb" "cursor_x s2 = cursor_x s + ucast (font_width font)" "cursor_y s2 = cursor_y s"
    using p fb by (simp_all add: s2_def tty_confined_def)
  define s3 where "s3 = (if fb_width fb < cursor_x s2 + ucast (font_width font) then term_scroll bg font s2 else s2)"
  have s3: "framebuffer_pb s3 = Some fb" "cursor_x s3 = cursor_x s2" "cursor_y s3 = cursor_y s2"
    using term_scroll_confined [OF assms(2) s2(1), of bg font] s2(1) by (auto simp: s3_def tty_confined_def)
  have "Putchar c fg bg font s =
      (if fb_height fb < cursor_y s3 + ucast (font_height font) then term_scroll bg font s3 else s3)"
    using assms(3,4) fb(1) by (simp add: Putchar_def Let_def s3_def s2_def color_def not_le)
  then show ?thesis using term_scroll_confined(2,3) [OF assms(2) s3(1), of bg font] s2 s3 by auto
qed

end
