(* ===== verification/Stdio.thy ===== *)
theory Stdio
  imports Terminal
begin

unbundle bit_operations_syntax

text \<open>
  Formatted output, \<open>kernel/lib/stdio.c\<close>: the serial port routines, \<open>print\<close> and its number printers on
  the terminal, and \<open>format\<close> into a buffer.

  A format string is the list of its bytes before the NUL; a step of the format pointer over the
  NUL is \<open>Format_Overread\<close>. The variable arguments are a list; an argument of the wrong kind or a
  missing one is \<open>Bad_Vararg\<close>.
\<close>

section \<open>Serial port\<close>

definition hex_char :: "u64 \<Rightarrow> u8" where
  "hex_char d = (if d < 10 then 48 + ucast d else 55 + ucast d)"

text \<open>\<open>serial_init\<close> is a sequence of port writes, value first.\<close>

definition serial_init :: "(u8 \<times> u16) list" where
  "serial_init = [(0x00, 0x3F9), (0x80, 0x3FB), (0x03, 0x3F8), (0x00, 0x3F9), (0x03, 0x3FB), (0xC7, 0x3FA), (0x0B, 0x3FC)]"

definition serial_print :: "u8 list \<Rightarrow> 'a tty_scheme \<Rightarrow> 'a tty_scheme" where
  "serial_print str s = fold serial_putchar str s"

text \<open>The digits from the last to the first, as the loop stores them from the end of the buffer.\<close>

definition uint64_to_hex :: "u64 \<Rightarrow> u8 list" where
  "uint64_to_hex value =
     [48, 120] @ rev (map (\<lambda>i. hex_char (drop_bit (4 * i) value AND 0xF)) [0..<16])"

definition serial_print_hex :: "u64 \<Rightarrow> 'a tty_scheme \<Rightarrow> 'a tty_scheme" where
  "serial_print_hex value s = serial_putchar 10 (serial_print (uint64_to_hex value) s)"

text \<open>\<open>while (N > 0) { str[i++] = N % 10 + '0'; N /= 10; }\<close>\<close>

function dec_digits :: "u64 \<Rightarrow> u8 list" where
  "dec_digits n = (if 0 < n then ucast (n mod 10 + 48) # dec_digits (n div 10) else [])"
  by auto
termination
  by (relation "measure unat") (auto simp: unat_div word_less_nat_alt)

declare dec_digits.simps [simp del]

text \<open>The variable \<open>sign\<close> is the low 32 bits of \<open>N\<close> as an \<open>int\<close>; the test \<open>N < 0\<close> is never true.\<close>

definition serial_print_dec :: "u64 \<Rightarrow> 'a tty_scheme \<Rightarrow> 'a tty_scheme" where
  "serial_print_dec N s =
     (let sign = sint (ucast N :: u32);
          str = dec_digits N @ (if sign < 0 then [45] else [])
      in serial_print (rev str) s)"

section \<open>Printing on the terminal\<close>

definition print_init :: "u64 \<Rightarrow> 'a tty_scheme \<Rightarrow> 'a tty_scheme" where
  "print_init cozette_psf s = (if \<not> graphics_init s then s else term_init cozette_psf s)"

definition putc :: "u8 \<Rightarrow> 'a tty_scheme \<Rightarrow> 'a tty_scheme" where
  "putc c s = Putchar c 0xffffffff 0x00102030 (current_font s) s"

function print_uint :: "u32 \<Rightarrow> 'a tty_scheme \<Rightarrow> 'a tty_scheme" where
  "print_uint value s =
     putc (48 + ucast (value mod 10)) (if 10 \<le> value then print_uint (value div 10) s else s)"
  by auto
termination
  by (relation "measure (\<lambda>(v, s). unat v)") (auto simp: unat_div word_le_nat_alt)

declare print_uint.simps [simp del]

definition print_int :: "u32 \<Rightarrow> 'a tty_scheme \<Rightarrow> 'a tty_scheme" where
  "print_int value s =
     (if sint value < 0 then print_uint (0 - value) (putc 45 s) else print_uint value s)"

definition print_hex :: "u32 \<Rightarrow> 'a tty_scheme \<Rightarrow> 'a tty_scheme" where
  "print_hex value s =
     fold (\<lambda>i. putc (hex_char (ucast (drop_bit (4 * i) value AND 0xF)))) (rev [0..<8]) (putc 120 (putc 48 s))"

definition print_char :: "u8 list \<Rightarrow> 'a tty_scheme \<Rightarrow> 'a tty_scheme" where
  "print_char to_print s = fold putc to_print s"

definition print_u64 :: "u64 \<Rightarrow> 'a tty_scheme \<Rightarrow> 'a tty_scheme" where
  "print_u64 value s = (if value = 0 then putc 48 s else fold putc (rev (dec_digits value)) s)"

definition print_u64_hex :: "u64 \<Rightarrow> 'a tty_scheme \<Rightarrow> 'a tty_scheme" where
  "print_u64_hex value s =
     fold (\<lambda>i. putc (hex_char (drop_bit (4 * i) value AND 0xF))) (rev [0..<16]) (putc 120 (putc 48 s))"

datatype va = VInt u32 | VLong u64 | VStr "u8 list"

datatype stdio_error = Format_Overread | Bad_Vararg

text \<open>
  The loop of \<open>print\<close> at a position of the format. After \<open>%lx\<close> the pointer has moved by two and moves
  by one more at the end of the switch; after an unknown conversion it moves by two.
\<close>

function print_loop :: "u8 list \<Rightarrow> va list \<Rightarrow> 'a tty_scheme \<Rightarrow> stdio_error + 'a tty_scheme" where
  "print_loop [] args s = Inr s"
| "print_loop (c # cs) args s =
     (if c \<noteq> 37 then print_loop cs args (putc c s)
      else case cs of [] \<Rightarrow> Inr s | d # ds \<Rightarrow>
        if d = 100 then (case args of VInt v # as \<Rightarrow> print_loop ds as (print_int v s) | _ \<Rightarrow> Inl Bad_Vararg)
        else if d = 117 then (case args of VInt v # as \<Rightarrow> print_loop ds as (print_uint v s) | _ \<Rightarrow> Inl Bad_Vararg)
        else if d = 110 then (case args of VLong v # as \<Rightarrow> print_loop ds as (print_u64 v s) | _ \<Rightarrow> Inl Bad_Vararg)
        else if d = 115 then (case args of VStr v # as \<Rightarrow> print_loop ds as (print_char v s) | _ \<Rightarrow> Inl Bad_Vararg)
        else if d = 120 then (case args of VInt v # as \<Rightarrow> print_loop ds as (print_hex v s) | _ \<Rightarrow> Inl Bad_Vararg)
        else if d = 108 then
          (if ds \<noteq> [] \<and> hd ds = 120 then
             (case args of VLong v # as \<Rightarrow>
                let s1 = print_u64_hex v s; es = tl ds
                in if es = [] then Inl Format_Overread else print_loop (tl es) as s1
              | _ \<Rightarrow> Inl Bad_Vararg)
           else if ds = [] then Inl Format_Overread
           else print_loop (tl ds) args (putc 108 (putc 37 s)))
        else if d = 37 then print_loop ds args s
        else if ds = [] then Inl Format_Overread
        else print_loop (tl ds) args (putc d (putc 37 s)))"
  by pat_completeness auto
termination
  by (relation "measure (\<lambda>(f, a, s). length f)") (auto simp: less_Suc_eq_le intro: order_trans [OF diff_le_self])

definition print :: "u8 list \<Rightarrow> va list \<Rightarrow> 'a tty_scheme \<Rightarrow> stdio_error + 'a tty_scheme" where
  "print format args s = (if framebuffer_pb s = None then Inr s else print_loop format args s)"

section \<open>Formatting into a buffer\<close>

record fmt_out =
  out_ptr :: u64
  remaining :: u64
  out_mem :: "u64 \<Rightarrow> u8"

definition append_char :: "u8 \<Rightarrow> fmt_out \<Rightarrow> fmt_out" where
  "append_char c o1 =
     (if remaining o1 \<le> 1 then o1
      else o1\<lparr>out_mem := (out_mem o1)(out_ptr o1 := c), out_ptr := out_ptr o1 + 1, remaining := remaining o1 - 1\<rparr>)"

definition append_string :: "u8 list \<Rightarrow> fmt_out \<Rightarrow> fmt_out" where
  "append_string str o1 = fold append_char str o1"

definition append_int :: "u32 \<Rightarrow> fmt_out \<Rightarrow> fmt_out" where
  "append_int value o1 =
     (let (o2, n) = (if sint value < 0 then (append_char 45 o1, 0 - value) else (o1, value))
      in if n = 0 then append_char 48 o2
         else fold append_char (rev (dec_digits (ucast n))) o2)"

text \<open>A lone \<open>%\<close> at the end makes the switch read the NUL and the pointer step over it.\<close>

fun format_loop :: "u8 list \<Rightarrow> va list \<Rightarrow> fmt_out \<Rightarrow> stdio_error + fmt_out" where
  "format_loop [] args o1 = Inr o1"
| "format_loop (c # cs) args o1 =
     (if c \<noteq> 37 then format_loop cs args (append_char c o1)
      else case cs of [] \<Rightarrow> Inl Format_Overread | d # ds \<Rightarrow>
        if d = 100 then (case args of VInt v # as \<Rightarrow> format_loop ds as (append_int v o1) | _ \<Rightarrow> Inl Bad_Vararg)
        else if d = 115 then (case args of VStr v # as \<Rightarrow> format_loop ds as (append_string v o1) | _ \<Rightarrow> Inl Bad_Vararg)
        else if d = 37 then format_loop ds args (append_char 37 o1)
        else format_loop ds args (append_char d (append_char 37 o1)))"

definition format :: "u64 \<Rightarrow> u64 \<Rightarrow> u8 list \<Rightarrow> va list \<Rightarrow> (u64 \<Rightarrow> u8) \<Rightarrow> stdio_error + (u64 \<Rightarrow> u8)" where
  "format buffer sz fmt args m =
     (if sz = 0 then Inr m
      else case format_loop fmt args \<lparr>out_ptr = buffer, remaining = sz, out_mem = m\<rparr> of
          Inl e \<Rightarrow> Inl e
        | Inr o1 \<Rightarrow> Inr ((out_mem o1)(out_ptr o1 := 0)))"

definition print_hex_pub :: "u32 \<Rightarrow> 'a tty_scheme \<Rightarrow> 'a tty_scheme" where
  "print_hex_pub num s = print_hex num s"

section \<open>Numbers as text\<close>

fun dec_text :: "nat \<Rightarrow> u8 list" where
  "dec_text n = (if n < 10 then [] else dec_text (n div 10)) @ [word_of_nat (48 + n mod 10)]"

declare dec_text.simps [simp del]

definition int_text :: "int \<Rightarrow> u8 list" where
  "int_text i = (if i < 0 then 45 # dec_text (nat (- i)) else dec_text (nat i))"

definition hex_text :: "nat \<Rightarrow> nat \<Rightarrow> u8 list" where
  "hex_text k n = [48, 120] @ map (\<lambda>i. let d = n div 16 ^ i mod 16 in word_of_nat (if d < 10 then 48 + d else 55 + d)) (rev [0..<k])"

text \<open>The number that a text of decimal digits denotes.\<close>

definition dec_value :: "u8 list \<Rightarrow> nat" where
  "dec_value ds = foldl (\<lambda>a c. 10 * a + (unat c - 48)) 0 ds"

lemma dec_value_dec_text: "dec_value (dec_text n) = n"
proof (induction n rule: dec_text.induct)
  case (1 n)
  have "48 + n mod 10 < 256" using mod_less_divisor [of 10 n] by linarith
  then have d: "unat (word_of_nat (48 + n mod 10) :: u8) = 48 + n mod 10"
    by (simp add: unat_of_nat del: of_nat_add)
  show ?case
  proof (cases "n < 10")
    case True then show ?thesis using d by (subst dec_text.simps) (simp add: dec_value_def del: of_nat_add)
  next
    case False
    with 1 have "dec_value (dec_text (n div 10)) = n div 10" by simp
    then show ?thesis using False d by (subst dec_text.simps) (simp add: dec_value_def del: of_nat_add)
  qed
qed

lemma dec_text_digits: "\<forall>c \<in> set (dec_text n). 48 \<le> unat c \<and> unat c \<le> 57"
proof (induction n rule: dec_text.induct)
  case (1 n)
  have "n mod 10 < 10" by simp
  then have "unat (word_of_nat (48 + n mod 10) :: u8) = 48 + n mod 10" "48 + n mod 10 \<le> 57"
    by (simp_all add: unat_of_nat del: of_nat_add)
  then show ?case using 1 by (subst dec_text.simps) (auto simp del: of_nat_add)
qed

lemma dec_digits_text: "0 < n \<Longrightarrow> rev (dec_digits n) = dec_text (unat n)"
proof (induction n rule: dec_digits.induct)
  case (1 n)
  have c: "ucast (n mod 10 + 48) = (word_of_nat (48 + unat n mod 10) :: u8)"
  proof -
    have m: "unat (n mod 10) = unat n mod 10" by (simp add: unat_mod)
    have "unat n mod 10 < 10" by simp
    then have "unat (n mod 10 + 48) = 48 + unat n mod 10" using m by simp
    then show ?thesis by (metis of_nat_unat)
  qed
  show ?case
  proof (cases "n div 10 = 0")
    case True
    then have "unat n div 10 = 0" using unat_div [of n 10] by simp
    then have "unat n < 10" by simp
    then show ?thesis using 1(2) True c by (subst dec_digits.simps, subst dec_text.simps) (simp add: dec_digits.simps)
  next
    case False
    then have "0 < n div 10" by (simp add: word_neq_0_conv)
    moreover have "unat (n div 10) = unat n div 10" by (simp add: unat_div)
    moreover have "\<not> unat n < 10" using False \<open>unat (n div 10) = unat n div 10\<close>
      by (metis div_less unat_eq_zero)
    ultimately show ?thesis using 1 c by (subst dec_digits.simps, subst dec_text.simps) simp
  qed
qed

section \<open>What a state change emits\<close>

text \<open>
  From \<open>s\<close> to \<open>t\<close> the bytes \<open>bs\<close> went to the serial port, the screen stayed the same object, and no
  memory outside it was written.
\<close>

definition emits :: "framebuffer_t \<Rightarrow> 'a tty_scheme \<Rightarrow> u8 list \<Rightarrow> 'a tty_scheme \<Rightarrow> bool" where
  "emits fb s bs t \<longleftrightarrow> framebuffer_pb s = Some fb \<and> framebuffer_pb t = Some fb \<and>
     serial_out t = serial_out s @ bs \<and> (\<forall>a. a \<notin> fb_block fb \<longrightarrow> vram t a = vram s a)"

lemma emits_refl: "framebuffer_pb s = Some fb \<Longrightarrow> emits fb s [] s"
  by (simp add: emits_def)

lemma emits_trans: "emits fb s bs t \<Longrightarrow> emits fb t cs u \<Longrightarrow> emits fb s (bs @ cs) u"
  by (auto simp: emits_def)

lemma emits_fb: "emits fb s bs t \<Longrightarrow> framebuffer_pb t = Some fb"
  by (simp add: emits_def)

lemma putc_emits:
  assumes "fb_valid fb" and "framebuffer_pb s = Some fb"
  shows "emits fb s [c] (putc c s)"
  using Putchar_confined [OF assms, where c = c and fg = "0xffffffff" and bg = "0x00102030" and font = "current_font s"] assms(2)
  by (auto simp: emits_def putc_def tty_confined_def serial_putchar_def)

lemma putc_after:
  assumes "fb_valid fb" and "emits fb s bs t"
  shows "emits fb s (bs @ [c]) (putc c t)"
  using emits_trans [OF assms(2) putc_emits [OF assms(1) emits_fb [OF assms(2)]]] .

lemma fold_putc_emits:
  assumes "fb_valid fb" and "emits fb s bs t"
  shows "emits fb s (bs @ map f cs) (fold (\<lambda>c. putc (f c)) cs t)"
  using assms(2)
proof (induction cs arbitrary: bs t)
  case (Cons c cs)
  from Cons.IH [OF putc_after [OF assms(1) Cons.prems, of "f c"]] show ?case by simp
qed simp

lemma hex_char_word: "hex_char d = word_of_nat (if unat d < 10 then 48 + unat d else 55 + unat d)" if "d < 16"
  by (simp add: hex_char_def word_less_nat_alt)

lemma nibble:
  fixes v :: "'a::len word"
  assumes "4 < LENGTH('a)"
  shows "unat (drop_bit (4 * i) v AND 0xF) = unat v div 16 ^ i mod 16"
proof -
  have "drop_bit (4 * i) v AND 0xF = take_bit 4 (drop_bit (4 * i) v)"
    by (simp add: take_bit_eq_mask mask_eq_exp_minus_1)
  then have "unat (drop_bit (4 * i) v AND 0xF) = take_bit 4 (drop_bit (4 * i) (unat v))"
    by (simp add: unsigned_take_bit_eq unat_drop_bit_eq)
  then show ?thesis by (simp add: take_bit_eq_mod drop_bit_eq_div power_mult)
qed


lemma hex_char_nibble:
  "hex_char (ucast (drop_bit (4 * i) v AND 0xF)) =
     (let d = unat v div 16 ^ i mod 16 in word_of_nat (if d < 10 then 48 + d else 55 + d))"
  "hex_char (drop_bit (4 * i) w AND 0xF) =
     (let d = unat w div 16 ^ i mod 16 in word_of_nat (if d < 10 then 48 + d else 55 + d))" for v :: u32 and w :: u64
proof -
  have *: "hex_char d = (let d = n mod 16 in word_of_nat (if d < 10 then 48 + d else 55 + d))"
    if "unat d = n mod 16" for d n
    using hex_char_word [of d] that by (simp add: word_less_nat_alt Let_def)
  show "hex_char (ucast (drop_bit (4 * i) v AND 0xF)) =
     (let d = unat v div 16 ^ i mod 16 in word_of_nat (if d < 10 then 48 + d else 55 + d))"
    by (rule *) (simp add: nibble)
  show "hex_char (drop_bit (4 * i) w AND 0xF) =
     (let d = unat w div 16 ^ i mod 16 in word_of_nat (if d < 10 then 48 + d else 55 + d))"
    by (rule *) (simp add: nibble)
qed

lemma print_uint_emits:
  assumes "fb_valid fb"
  shows "framebuffer_pb s = Some fb \<Longrightarrow> emits fb s (dec_text (unat v)) (print_uint v s)"
proof (induction v s rule: print_uint.induct)
  case (1 v s)
  have c: "48 + ucast (v mod 10) = (word_of_nat (48 + unat v mod 10) :: u8)"
    using of_nat_unat [of "v mod 10", where 'a = "8 word"] by (simp add: unat_mod)
  let ?t = "if 10 \<le> v then print_uint (v div 10) s else s"
  have "emits fb s (if unat v < 10 then [] else dec_text (unat v div 10)) ?t"
    using 1 emits_refl [OF 1(2)] by (simp add: word_le_nat_alt unat_div)
  from putc_after [OF assms this, of "48 + ucast (v mod 10)"]
  show ?case unfolding c by (subst print_uint.simps, subst dec_text.simps) (simp add: c)
qed

lemma sint_negative:
  fixes v :: "32 word"
  assumes "sint v < 0"
  shows "int (unat (0 - v)) = - sint v"
proof -
  have "uint (- v) = (- sint v) mod 2 ^ 32"
    by (simp add: uint_word_ariths uint_sint [of v] take_bit_eq_mod mod_minus_eq)
  moreover have "- sint v < 2 ^ 32" using sint_ge [of v] by simp
  ultimately show ?thesis using assms by simp
qed

lemma nat_sint:
  fixes v :: "32 word"
  assumes "\<not> sint v < 0"
  shows "nat (sint v) = unat v"
proof -
  have "uint v = sint v" using assms uint_sint [of v] sint_lt [of v] by (simp add: take_bit_int_eq_self)
  then show ?thesis by (metis unat_eq_nat_uint)
qed

lemma print_int_emits:
  assumes "fb_valid fb" and "framebuffer_pb s = Some fb"
  shows "emits fb s (int_text (sint v)) (print_int v s)"
proof (cases "sint v < 0")
  case True
  have n: "nat (- sint v) = unat (0 - v)" using sint_negative [OF True] by linarith
  have "emits fb s ([45] @ dec_text (unat (0 - v))) (print_uint (0 - v) (putc 45 s))"
    using putc_emits [OF assms, of 45] print_uint_emits [OF assms(1), of "putc 45 s"] emits_trans emits_fb by blast
  then show ?thesis using True n by (simp add: print_int_def int_text_def)
next
  case False
  then have "nat (sint v) = unat v" by (rule nat_sint)
  then show ?thesis using print_uint_emits [OF assms, of v] False by (simp add: print_int_def int_text_def)
qed

lemma print_u64_emits:
  assumes "fb_valid fb" and "framebuffer_pb s = Some fb"
  shows "emits fb s (dec_text (unat v)) (print_u64 v s)"
proof (cases "v = 0")
  case True
  then show ?thesis using putc_emits [OF assms, of 48] by (simp add: print_u64_def dec_text.simps)
next
  case False
  then have "0 < v" by (simp add: word_neq_0_conv)
  then show ?thesis
    using False fold_putc_emits [OF assms(1) emits_refl [OF assms(2)], of "\<lambda>c. c"]
    by (simp add: print_u64_def dec_digits_text)
qed

lemma putc_0x_emits:
  assumes "fb_valid fb" and "framebuffer_pb s = Some fb"
  shows "emits fb s [48, 120] (putc 120 (putc 48 s))"
  using putc_after [OF assms(1) putc_emits [OF assms, of 48], of 120] by simp

lemma print_hex_emits:
  assumes "fb_valid fb" and "framebuffer_pb s = Some fb"
  shows "emits fb s (hex_text 8 (unat v)) (print_hex v s)"
    and "emits fb s (hex_text 16 (unat w)) (print_u64_hex w s)"
proof -
  note e = fold_putc_emits [OF assms(1) putc_0x_emits [OF assms]]
  show "emits fb s (hex_text 8 (unat v)) (print_hex v s)"
    using e [where cs = "rev [0..<8]" and f = "\<lambda>i. hex_char (ucast (drop_bit (4 * i) v AND 0xF))"]
    by (simp add: hex_text_def print_hex_def hex_char_nibble del: upt_rec_numeral)
  show "emits fb s (hex_text 16 (unat w)) (print_u64_hex w s)"
    using e [where cs = "rev [0..<16]" and f = "\<lambda>i. hex_char (drop_bit (4 * i) w AND 0xF)"]
    by (simp add: hex_text_def print_u64_hex_def hex_char_nibble del: upt_rec_numeral)
qed

lemma print_char_emits:
  assumes "fb_valid fb" and "framebuffer_pb s = Some fb"
  shows "emits fb s cs (print_char cs s)"
  using fold_putc_emits [OF assms(1) emits_refl [OF assms(2)], of "\<lambda>c. c"] by (simp add: print_char_def)

section \<open>The buffer of \<open>format\<close>\<close>

text \<open>The text a format denotes, whatever the size of the buffer.\<close>

fun format_text :: "u8 list \<Rightarrow> va list \<Rightarrow> stdio_error + u8 list" where
  "format_text [] args = Inr []"
| "format_text [c] args = (if c = 37 then Inl Format_Overread else Inr [c])"
| "format_text (c # d # cs) args =
     (if c \<noteq> 37 then map_sum id ((@) [c]) (format_text (d # cs) args)
      else if d = 100 then (case args of VInt v # as \<Rightarrow> map_sum id ((@) (int_text (sint v))) (format_text cs as) | _ \<Rightarrow> Inl Bad_Vararg)
      else if d = 115 then (case args of VStr v # as \<Rightarrow> map_sum id ((@) v) (format_text cs as) | _ \<Rightarrow> Inl Bad_Vararg)
      else map_sum id ((@) (if d = 37 then [37] else [37, d])) (format_text cs args))"

definition store :: "u64 \<Rightarrow> u8 list \<Rightarrow> (u64 \<Rightarrow> u8) \<Rightarrow> (u64 \<Rightarrow> u8)" where
  "store p bs m = (\<lambda>a. if unat (a - p) < length bs then bs ! unat (a - p) else m a)"

lemma store_snoc:
  assumes "length bs < 18446744073709551616"
  shows "(store p bs m)(p + word_of_nat (length bs) := c) = store p (bs @ [c]) m"
proof
  fix a
  have "a = p + word_of_nat (length bs) \<longleftrightarrow> unat (a - p) = length bs"
  proof -
    have "a = p + word_of_nat (length bs) \<longleftrightarrow> a - p = word_of_nat (length bs)"
      by (auto simp: diff_eq_eq add.commute)
    then show ?thesis using assms by (simp add: u64_eq_iff_unat unat_of_nat_u64)
  qed
  then show "((store p bs m)(p + word_of_nat (length bs) := c)) a = store p (bs @ [c]) m a"
    by (auto simp: store_def nth_append)
qed

lemma fold_append_char:
  "fold append_char bs o1 = (let t = take (unat (remaining o1) - 1) bs in
     o1\<lparr>out_ptr := out_ptr o1 + word_of_nat (length t), remaining := remaining o1 - word_of_nat (length t),
       out_mem := store (out_ptr o1) t (out_mem o1)\<rparr>)"
proof (induction bs rule: rev_induct)
  case Nil
  have "store p [] m = m" for p m by (simp add: store_def)
  then show ?case by (simp add: Let_def)
next
  case (snoc c bs)
  let ?r = "unat (remaining o1)"
  define t where "t = take (?r - 1) bs"
  have st: "fold append_char bs o1 = o1\<lparr>out_ptr := out_ptr o1 + word_of_nat (length t),
      remaining := remaining o1 - word_of_nat (length t), out_mem := store (out_ptr o1) t (out_mem o1)\<rparr>"
    using snoc by (simp add: Let_def t_def del: length_take)
  have sn: "fold append_char (bs @ [c]) o1 = append_char c (fold append_char bs o1)" by simp
  have r64: "?r < 18446744073709551616" using unsigned_less [of "remaining o1"] by simp
  have rem: "unat (remaining o1 - word_of_nat (length t)) = ?r - length t"
  proof -
    have "length t \<le> ?r" by (auto simp: t_def)
    then show ?thesis using r64 by (simp add: unat_sub_u64 unat_of_nat_u64 word_le_nat_alt)
  qed
  show ?case
  proof (cases "length bs < ?r - 1")
    case True
    then have t: "t = bs" "take (?r - 1) (bs @ [c]) = bs @ [c]" by (simp_all add: t_def)
    have "\<not> remaining o1 - word_of_nat (length bs) \<le> 1"
      using rem True unfolding t by (simp add: word_le_nat_alt)
    moreover have "length bs < 18446744073709551616" using True r64 by linarith
    ultimately show ?thesis unfolding sn st t
      by (simp add: append_char_def Let_def store_snoc algebra_simps)
  next
    case False
    then have t: "take (?r - 1) (bs @ [c]) = t" "length t = ?r - 1" by (simp_all add: t_def)
    have "remaining o1 - word_of_nat (length t) \<le> 1"
      unfolding word_le_nat_alt rem using t(2) by simp
    then show ?thesis unfolding sn st t(1) by (simp add: append_char_def Let_def)
  qed
qed

lemma append_int_text: "append_int v o1 = fold append_char (int_text (sint v)) o1"
proof -
  have *: "(if n = 0 then append_char 48 o2 else fold append_char (rev (dec_digits (ucast n))) o2) =
      fold append_char (dec_text (unat n)) o2" for n :: u32 and o2
  proof (cases "n = 0")
    case False
    then have "0 < (ucast n :: u64)" by (simp add: word_less_nat_alt unat_gt_0)
    then show ?thesis using False by (simp add: dec_digits_text)
  qed (simp add: dec_text.simps)
  show ?thesis
  proof (cases "sint v < 0")
    case True
    define n where "n = 0 - v"
    have "nat (- sint v) = unat n" using sint_negative [OF True] unfolding n_def by linarith
    then show ?thesis using True * [of n] unfolding append_int_def int_text_def n_def [symmetric] by simp
  next
    case False
    then show ?thesis using * [of v] by (simp add: append_int_def int_text_def Let_def nat_sint)
  qed
qed

lemma format_loop_text:
  "format_loop fmt args o1 = map_sum id (\<lambda>bs. fold append_char bs o1) (format_text fmt args)"
proof (induction fmt args arbitrary: o1 rule: format_text.induct)
  case (3 c d cs args)
  have c: "map_sum h f (map_sum id g x) = map_sum h (\<lambda>bs. f (g bs)) x"
    for f :: "u8 list \<Rightarrow> fmt_out" and g :: "u8 list \<Rightarrow> u8 list" and h and x :: "stdio_error + u8 list"
    by (cases x) auto
  show ?case
    using 3 by (auto simp: c append_int_text append_string_def split: list.split va.split)
qed auto


section \<open>Properties\<close>

text \<open>
  A conversion of \<open>print\<close> as its author wrote it: a piece of the format, the argument it takes and
  the text it stands for. The byte after \<open>%lx\<close> is part of its piece, because \<open>print\<close> swallows it, and
  \<open>%%\<close> stands for nothing.
\<close>

datatype piece = Lit u8 | Dec u32 | Unsigned u32 | Long u64 | Text "u8 list" | Hex u32 | Long_Hex u64 u8 | Percent

fun piece_ok :: "piece \<Rightarrow> bool" where
  "piece_ok (Lit c) = (c \<noteq> 37)" | "piece_ok _ = True"

fun piece_fmt :: "piece \<Rightarrow> u8 list" where
  "piece_fmt (Lit c) = [c]"
| "piece_fmt (Dec v) = [37, 100]"
| "piece_fmt (Unsigned v) = [37, 117]"
| "piece_fmt (Long v) = [37, 110]"
| "piece_fmt (Text v) = [37, 115]"
| "piece_fmt (Hex v) = [37, 120]"
| "piece_fmt (Long_Hex v c) = [37, 108, 120, c]"
| "piece_fmt Percent = [37, 37]"

fun piece_args :: "piece \<Rightarrow> va list" where
  "piece_args (Dec v) = [VInt v]"
| "piece_args (Unsigned v) = [VInt v]"
| "piece_args (Hex v) = [VInt v]"
| "piece_args (Long v) = [VLong v]"
| "piece_args (Long_Hex v c) = [VLong v]"
| "piece_args (Text v) = [VStr v]"
| "piece_args _ = []"

fun piece_text :: "piece \<Rightarrow> u8 list" where
  "piece_text (Lit c) = [c]"
| "piece_text (Dec v) = int_text (sint v)"
| "piece_text (Unsigned v) = dec_text (unat v)"
| "piece_text (Long v) = dec_text (unat v)"
| "piece_text (Text v) = v"
| "piece_text (Hex v) = hex_text 8 (unat v)"
| "piece_text (Long_Hex v c) = hex_text 16 (unat v)"
| "piece_text Percent = []"

fun run_piece :: "piece \<Rightarrow> 'a tty_scheme \<Rightarrow> 'a tty_scheme" where
  "run_piece (Lit c) s = putc c s"
| "run_piece (Dec v) s = print_int v s"
| "run_piece (Unsigned v) s = print_uint v s"
| "run_piece (Long v) s = print_u64 v s"
| "run_piece (Text v) s = print_char v s"
| "run_piece (Hex v) s = print_hex v s"
| "run_piece (Long_Hex v c) s = print_u64_hex v s"
| "run_piece Percent s = s"

lemma print_loop_piece:
  "piece_ok p \<Longrightarrow> print_loop (piece_fmt p @ cs) (piece_args p @ as) s = print_loop cs as (run_piece p s)"
  by (cases p) (simp_all add: Let_def)

lemma run_piece_emits:
  assumes "fb_valid fb" and "framebuffer_pb s = Some fb"
  shows "emits fb s (piece_text p) (run_piece p s)"
  by (cases p) (simp_all add: putc_emits [OF assms] print_int_emits [OF assms] print_uint_emits [OF assms]
    print_u64_emits [OF assms] print_hex_emits [OF assms] print_char_emits [OF assms] emits_refl [OF assms(2)])

lemma print_loop_pieces:
  assumes "fb_valid fb" and "framebuffer_pb s = Some fb" and "\<forall>p \<in> set ps. piece_ok p"
  shows "\<exists>t. print_loop (concat (map piece_fmt ps)) (concat (map piece_args ps)) s = Inr t \<and>
    emits fb s (concat (map piece_text ps)) t"
  using assms(2,3)
proof (induction ps arbitrary: s)
  case Nil
  then show ?case by (auto intro: emits_refl)
next
  case (Cons p ps)
  have t: "emits fb s (piece_text p) (run_piece p s)" by (rule run_piece_emits [OF assms(1) Cons.prems(1)])
  from Cons.IH [OF emits_fb [OF t]] Cons.prems(2) obtain u where
    "print_loop (concat (map piece_fmt ps)) (concat (map piece_args ps)) (run_piece p s) = Inr u"
    "emits fb (run_piece p s) (concat (map piece_text ps)) u"
    by auto
  then show ?case using Cons.prems(2) emits_trans [OF t] by (auto simp: print_loop_piece)
qed

text \<open>
  C23. \<open>print\<close> on a format made of plain bytes and the conversions \<open>%d %u %n %s %x\<close>, \<open>%lx\<close> followed by
  one byte, and \<open>%%\<close>, with matching arguments, ends without reading past the format, sends exactly
  the text of the pieces to the serial port and writes no memory outside the framebuffer. Without a
  framebuffer it does nothing.
\<close>

theorem print_pieces:
  assumes "\<forall>p \<in> set ps. piece_ok p" and "\<forall>fb. framebuffer_pb s = Some fb \<longrightarrow> fb_valid fb"
  shows "case framebuffer_pb s of
      None \<Rightarrow> print (concat (map piece_fmt ps)) (concat (map piece_args ps)) s = Inr s
    | Some fb \<Rightarrow> \<exists>t. print (concat (map piece_fmt ps)) (concat (map piece_args ps)) s = Inr t \<and>
        emits fb s (concat (map piece_text ps)) t"
  using print_loop_pieces [OF _ _ assms(1), where s = s] assms(2) by (auto simp: print_def split: option.split)

theorem print_pieces_witness:
  "\<exists>t. print [65, 37, 100, 37, 108, 120, 32] [VInt 0xFFFFFFF6, VLong 0xAB] demo_tty = Inr t \<and>
     serial_out t = [65] @ [45, 49, 48] @ hex_text 16 0xAB"
proof -
  have fb: "framebuffer_pb demo_tty = Some demo_fb" by (simp add: demo_tty_def)
  have t: "int_text (sint (0xFFFFFFF6 :: u32)) = [45, 49, 48]" by (simp add: int_text_def dec_text.simps)
  show ?thesis
    using print_pieces [where ps = "[Lit 65, Dec 0xFFFFFFF6, Long_Hex 0xAB 32]" and s = demo_tty] demo_fb_valid fb t
    by (auto simp: emits_def demo_tty_def)
qed

text \<open>
  C24. The numbers read back: \<open>print_u64\<close>, \<open>print_uint\<close> and \<open>print_int\<close> emit decimal digits whose value is
  the argument, for every 64-bit or 32-bit value; \<open>print_int\<close> puts a minus sign before the digits of a
  negative argument, the least one included.
\<close>

theorem printed_numbers_read_back:
  assumes "fb_valid fb" and "framebuffer_pb s = Some fb"
  shows "(\<exists>ds. emits fb s ds (print_u64 w s) \<and> dec_value ds = unat w \<and> (\<forall>c \<in> set ds. 48 \<le> c \<and> c \<le> 57)) \<and>
    (\<exists>ds. emits fb s ds (print_uint v s) \<and> dec_value ds = unat v \<and> (\<forall>c \<in> set ds. 48 \<le> c \<and> c \<le> 57)) \<and>
    (\<exists>ds. emits fb s ((if sint v < 0 then [45] else []) @ ds) (print_int v s) \<and>
       int (dec_value ds) = \<bar>sint v\<bar> \<and> (\<forall>c \<in> set ds. 48 \<le> c \<and> c \<le> 57))"
proof -
  have i: "int_text (sint v) = (if sint v < 0 then [45] else []) @ dec_text (nat \<bar>sint v\<bar>)"
    by (simp add: int_text_def)
  have digits: "\<forall>c \<in> set (dec_text n). 48 \<le> c \<and> c \<le> 57" for n
    using dec_text_digits [of n] by (simp add: word_le_nat_alt)
  show ?thesis
  proof (intro conjI exI)
    show "emits fb s (dec_text (unat w)) (print_u64 w s)" by (rule print_u64_emits [OF assms])
    show "emits fb s (dec_text (unat v)) (print_uint v s)" by (rule print_uint_emits [OF assms])
    show "emits fb s ((if sint v < 0 then [45] else []) @ dec_text (nat \<bar>sint v\<bar>)) (print_int v s)"
      using print_int_emits [OF assms, of v] unfolding i .
  qed (simp_all add: dec_value_dec_text digits)
qed

theorem printed_numbers_read_back_witness:
  "(\<exists>ds. serial_out (print_u64 0xFFFFFFFFFFFFFFFF demo_tty) = ds \<and> dec_value ds = 18446744073709551615) \<and>
   (\<exists>ds. serial_out (print_int 0x80000000 demo_tty) = 45 # ds \<and> int (dec_value ds) = 2147483648)"
proof -
  have fb: "framebuffer_pb demo_tty = Some demo_fb" "serial_out demo_tty = []" by (simp_all add: demo_tty_def)
  show ?thesis
    using printed_numbers_read_back [OF demo_fb_valid fb(1), where w = "0xFFFFFFFFFFFFFFFF" and v = "0x80000000"] fb(2)
    by (auto simp: emits_def)
qed

text \<open>
  C25. \<open>format\<close> never writes outside the buffer of \<open>size\<close> bytes: when it ends, the buffer holds the
  longest prefix of the text that leaves room for the NUL, then the NUL, and every other byte of
  memory is as before. It fails exactly when the text of the format is not defined.
\<close>

theorem format_bounded:
  "format buffer sz fmt args m =
     (if sz = 0 then Inr m else
      map_sum id (\<lambda>bs. store buffer (take (unat sz - 1) bs @ [0]) m) (format_text fmt args))"
proof (cases "sz = 0")
  case False
  have 1: "length (take (unat sz - 1) bs) < 18446744073709551616" for bs :: "u8 list"
    using unsigned_less [of sz, where 'a = nat] by (auto simp: min_def)
  show ?thesis
    using False by (cases "format_text fmt args")
      (simp_all add: format_def format_loop_text fold_append_char Let_def store_snoc [OF 1, simplified One_nat_def] del: length_take)
qed (simp add: format_def)

text \<open>
  Deviations of \<open>print\<close> and \<open>serial_print_dec\<close>: \<open>%lx\<close> at the end of the format runs past its NUL, so does an
  unknown conversion, and \<open>%%\<close> prints nothing; zero is printed as the empty text and a number with bit 31
  set as negative.
\<close>

lemma print_overreads:
  assumes "framebuffer_pb s = Some fb"
  shows "print [37, 108, 120] [VLong v] s = Inl Format_Overread"
    and "print [37, 99] [] s = Inl Format_Overread"
    and "print [37, 37] [] s = Inr s"
  using assms by (simp_all add: print_def Let_def)

lemma serial_print_dec_deviates:
  "serial_out (serial_print_dec 0 s) = serial_out s"
  "serial_out (serial_print_dec 0x80000000 s) = serial_out s @ 45 # dec_text 0x80000000"
proof -
  have f: "serial_out (fold serial_putchar bs s) = serial_out s @ bs" for bs and s :: "'z tty_scheme"
    by (induction bs arbitrary: s) (auto simp: serial_putchar_def)
  show "serial_out (serial_print_dec 0 s) = serial_out s"
    by (simp add: serial_print_dec_def serial_print_def dec_digits.simps)
  show "serial_out (serial_print_dec 0x80000000 s) = serial_out s @ 45 # dec_text 0x80000000"
    using dec_digits_text [of "0x80000000"] by (simp add: serial_print_dec_def serial_print_def f serial_putchar_def)
qed

end
