(* ===== verification/Kmalloc.thy ===== *)
theory Kmalloc
  imports Vmm_Props
begin

unbundle bit_operations_syntax

text \<open>
  The kernel heap, \<open>kernel/lib/kmalloc.c\<close>. The heap lives in virtual memory that \<open>vallocs\<close> maps, and
  \<open>kmem\<close> is that memory as 64-bit words at addresses divisible by 8; chunk headers and the data of
  the callers share it. The free list is threaded through the headers, as in the code, with
  \<open>NULL = 0\<close>. Messages are left out.

  A heap is described by the list of its blocks, each free or used with its length. The lemmas show
  that the headers always describe such a list, that \<open>kmalloc\<close> is first fit on it and \<open>kfree\<close>
  merges on it, and that neither touches the data of a block in use.
\<close>

section \<open>The code\<close>

abbreviation KMALLOC_STATE_FREE :: u64 where "KMALLOC_STATE_FREE \<equiv> 0xA1A1A1A1"
abbreviation KMALLOC_STATE_USED :: u64 where "KMALLOC_STATE_USED \<equiv> 0xBFBFBFBF"
abbreviation KMALLOC_ALIGNMENT :: u64 where "KMALLOC_ALIGNMENT \<equiv> 16"
abbreviation KMALLOC_MIN_SPLIT :: u64 where "KMALLOC_MIN_SPLIT \<equiv> 32"
abbreviation sizeof_chunk :: u64 where "sizeof_chunk \<equiv> 32"

type_synonym kmemory = "u64 \<Rightarrow> u64"

record kheap =
  khead :: u64
  heap_start :: u64
  heap_end :: u64
  kmem :: kmemory
  kvm :: vmm

text \<open>The fields of \<open>kmalloc_chunk_t\<close>.\<close>

abbreviation (input) chunk_state :: "kmemory \<Rightarrow> u64 \<Rightarrow> u64" where "chunk_state m c \<equiv> m c"
abbreviation (input) chunk_length :: "kmemory \<Rightarrow> u64 \<Rightarrow> u64" where "chunk_length m c \<equiv> m (c + 8)"
abbreviation (input) chunk_next :: "kmemory \<Rightarrow> u64 \<Rightarrow> u64" where "chunk_next m c \<equiv> m (c + 16)"
abbreviation (input) chunk_prev :: "kmemory \<Rightarrow> u64 \<Rightarrow> u64" where "chunk_prev m c \<equiv> m (c + 24)"

definition align_up :: "u64 \<Rightarrow> u64 \<Rightarrow> u64" where
  "align_up v alignment = (v + alignment - 1) AND NOT (alignment - 1)"

definition kmalloc_init :: "kheap \<Rightarrow> kheap" where
  "kmalloc_init s = s\<lparr>khead := 0, heap_start := 0, heap_end := 0\<rparr>"

definition kmerge_next :: "u64 \<Rightarrow> kmemory \<Rightarrow> kmemory" where
  "kmerge_next chunk m =
     (if chunk = 0 then m
      else if chunk_state m chunk \<noteq> KMALLOC_STATE_FREE then m
      else let nxt = chunk_next m chunk
        in if nxt = 0 then m
           else if chunk_state m nxt \<noteq> KMALLOC_STATE_FREE then m
           else
             let m1 = m(chunk + 8 := chunk_length m chunk + chunk_length m nxt);
                 m2 = m1(chunk + 16 := chunk_next m1 nxt)
             in if chunk_next m2 chunk \<noteq> 0 then m2(chunk_next m2 chunk + 24 := chunk) else m2)"

text \<open>\<open>while (last->next) last = last->next;\<close>\<close>

partial_function (option) last_chunk :: "kmemory \<Rightarrow> u64 \<Rightarrow> u64 option" where
  "last_chunk m c = (if chunk_next m c = 0 then Some c else last_chunk m (chunk_next m c))"

text \<open>The return value is whether memory was added.\<close>

definition kmalloc_grow :: "u64 \<Rightarrow> kheap \<Rightarrow> (bool \<times> kheap) result option" where
  "kmalloc_grow sz s =
     (let bytes = align_up sz PAGE_SIZE; pages = bytes div PAGE_SIZE
      in case vallocs True pages (kvm s) of
           Inl h \<Rightarrow> Some (Inl h)
         | Inr (address, v) \<Rightarrow>
             let s1 = s\<lparr>kvm := v\<rparr> in
             if address = 0 then Some (Inr (False, s1))
             else if khead s1 = 0 then
               Some (Inr (True, s1\<lparr>heap_start := address, heap_end := address + bytes, khead := address,
                 kmem := (kmem s1)(address := KMALLOC_STATE_FREE, address + 8 := bytes,
                                   address + 16 := 0, address + 24 := 0)\<rparr>))
             else if address \<noteq> heap_end s1 then
               Some (Inr (False, s1\<lparr>kvm := vfrees address pages (kvm s1)\<rparr>))
             else
               (case last_chunk (kmem s1) (khead s1) of
                  None \<Rightarrow> None
                | Some lst \<Rightarrow>
                    let m1 = (kmem s1)(address := KMALLOC_STATE_FREE, address + 8 := bytes,
                               address + 16 := 0, address + 24 := lst);
                        m2 = m1(lst + 16 := address);
                        m3 = (if chunk_state m2 lst = KMALLOC_STATE_FREE then kmerge_next lst m2 else m2)
                    in Some (Inr (True, s1\<lparr>kmem := m3, heap_end := heap_end s1 + bytes\<rparr>))))"

definition ksplit :: "u64 \<Rightarrow> u64 \<Rightarrow> kmemory \<Rightarrow> kmemory" where
  "ksplit chunk len m =
     (let new_chunk = chunk + len;
          m1 = m(new_chunk := KMALLOC_STATE_FREE);
          m2 = m1(new_chunk + 8 := chunk_length m1 chunk - len);
          m3 = m2(new_chunk + 24 := chunk);
          m4 = m3(new_chunk + 16 := chunk_next m3 chunk);
          m5 = (if chunk_next m4 chunk \<noteq> 0 then m4(chunk_next m4 chunk + 24 := new_chunk) else m4);
          m6 = m5(chunk + 16 := new_chunk)
      in m6(chunk + 8 := len))"

text \<open>The search loop of \<open>kmalloc\<close>.\<close>

partial_function (option) find_chunk :: "kmemory \<Rightarrow> u64 \<Rightarrow> u64 \<Rightarrow> u64 option" where
  "find_chunk m required chunk =
     (if chunk = 0 then Some 0
      else if chunk_state m chunk = KMALLOC_STATE_FREE \<and> required \<le> chunk_length m chunk then Some chunk
      else find_chunk m required (chunk_next m chunk))"

text \<open>The end of \<open>kmalloc\<close>, from the split on.\<close>

definition take_chunk :: "u64 \<Rightarrow> u64 \<Rightarrow> kheap \<Rightarrow> u64 \<times> kheap" where
  "take_chunk required chunk s =
     (let m = (if required + sizeof_chunk + KMALLOC_MIN_SPLIT \<le> chunk_length (kmem s) chunk
               then ksplit chunk required (kmem s) else kmem s)
      in (chunk + sizeof_chunk, s\<lparr>kmem := m(chunk := KMALLOC_STATE_USED)\<rparr>))"

definition kmalloc :: "u64 \<Rightarrow> kheap \<Rightarrow> (u64 \<times> kheap) result option" where
  "kmalloc sz s =
     (if sz = 0 then Some (Inr (0, s))
      else
        let required = align_up sz KMALLOC_ALIGNMENT + sizeof_chunk
        in case find_chunk (kmem s) required (khead s) of
             None \<Rightarrow> None
           | Some chunk \<Rightarrow>
               if chunk \<noteq> 0 then Some (Inr (take_chunk required chunk s))
               else
                 let grow_size = (if required < 16 * PAGE_SIZE then 16 * PAGE_SIZE else required)
                 in bind_loop (kmalloc_grow grow_size s) (\<lambda>(grown, s1).
                    if \<not> grown then Some (Inr (0, s1))
                    else case find_chunk (kmem s1) required (khead s1) of
                        None \<Rightarrow> None
                      | Some chunk \<Rightarrow>
                          if chunk = 0 then Some (Inr (0, s1))
                          else Some (Inr (take_chunk required chunk s1))))"

text \<open>\<open>memset(p, 0, n)\<close> on a memory of words: byte \<open>i\<close> of the word at \<open>a\<close> has address \<open>a + i\<close>.\<close>

definition zero_bytes :: "u64 \<Rightarrow> u64 \<Rightarrow> kmemory \<Rightarrow> kmemory" where
  "zero_bytes p n m =
     (\<lambda>a. fold (\<lambda>i w. if a + word_of_nat i - p < n then w AND NOT (push_bit (8 * i) 0xFF) else w) [0..<8] (m a))"

text \<open>
  The product is computed in 64 bits and stored in an \<open>int\<close>, which is sign-extended for \<open>kmalloc\<close> and
  \<open>memset\<close>.
\<close>

definition kcalloc :: "u32 \<Rightarrow> u64 \<Rightarrow> kheap \<Rightarrow> (u64 \<times> kheap) result option" where
  "kcalloc num_of_items len_of_items s =
     (if num_of_items = 0 \<or> len_of_items = 0 then Some (Inr (0, s))
      else
        let sz = (scast (ucast (ucast num_of_items * len_of_items) :: u32) :: u64)
        in bind_loop (kmalloc sz s) (\<lambda>(ptr, s1).
             Some (Inr (ptr, s1\<lparr>kmem := zero_bytes ptr sz (kmem s1)\<rparr>))))"

definition kfree :: "u64 \<Rightarrow> kheap \<Rightarrow> kheap" where
  "kfree ptr s =
     (if ptr = 0 then s
      else
        let chunk = ptr - sizeof_chunk
        in if chunk_state (kmem s) chunk \<noteq> KMALLOC_STATE_USED then s
           else
             let m1 = (kmem s)(chunk := KMALLOC_STATE_FREE);
                 m2 = (if chunk_prev m1 chunk \<noteq> 0 then kmerge_next (chunk_prev m1 chunk) m1 else m1)
             in s\<lparr>kmem := kmerge_next chunk m2\<rparr>)"

section \<open>Blocks\<close>

text \<open>A block is used or not, and has a length in bytes, header included.\<close>

type_synonym blk = "bool \<times> nat"

definition W :: "nat \<Rightarrow> u64" where "W n = word_of_nat n"

definition tag :: "bool \<Rightarrow> u64" where
  "tag u = (if u then KMALLOC_STATE_USED else KMALLOC_STATE_FREE)"

definition span :: "blk list \<Rightarrow> nat" where
  "span bs = sum_list (map snd bs)"

lemma span_simps [simp]:
  "span [] = 0" "span (b # bs) = snd b + span bs" "span (xs @ ys) = span xs + span ys"
  by (simp_all add: span_def)

definition header :: "kmemory \<Rightarrow> nat \<Rightarrow> bool \<Rightarrow> nat \<Rightarrow> nat \<Rightarrow> nat \<Rightarrow> bool" where
  "header m a u n nx pv \<longleftrightarrow> m (W a) = tag u \<and> m (W (a + 8)) = W n \<and> m (W (a + 16)) = W nx \<and> m (W (a + 24)) = W pv"

text \<open>
  The headers of the blocks \<open>bs\<close> laid out from address \<open>a\<close> on; \<open>p\<close> is the predecessor of the first
  and \<open>z\<close> the successor of the last.
\<close>

fun seg :: "kmemory \<Rightarrow> nat \<Rightarrow> nat \<Rightarrow> blk list \<Rightarrow> nat \<Rightarrow> bool" where
  "seg m p a [] z = True"
| "seg m p a ((u, n) # bs) z = (header m a u n (if bs = [] then z else a + n) p \<and> seg m a (a + n) bs z)"

text \<open>The address of the last block of a list, or \<open>p\<close> without one.\<close>

fun last_addr :: "nat \<Rightarrow> nat \<Rightarrow> blk list \<Rightarrow> nat" where
  "last_addr p a [] = p"
| "last_addr p a ((u, n) # bs) = last_addr a (a + n) bs"

lemma seg_append:
  "seg m p a (xs @ ys) z \<longleftrightarrow>
     seg m p a xs (if ys = [] then z else a + span xs) \<and> seg m (last_addr p a xs) (a + span xs) ys z"
  by (induction m p a xs z rule: seg.induct) (auto simp: add.assoc)

text \<open>Lengths are at least a header and divisible by 16.\<close>

definition blocks_ok :: "blk list \<Rightarrow> bool" where
  "blocks_ok bs \<longleftrightarrow> (\<forall>(u, n) \<in> set bs. 32 \<le> n \<and> 16 dvd n)"

lemma blocks_ok_simps [simp]:
  "blocks_ok []" "blocks_ok (b # bs) \<longleftrightarrow> 32 \<le> snd b \<and> 16 dvd snd b \<and> blocks_ok bs"
  "blocks_ok (xs @ ys) \<longleftrightarrow> blocks_ok xs \<and> blocks_ok ys"
  by (auto simp: blocks_ok_def case_prod_unfold)

lemma W_eq: "x < 18446744073709551616 \<Longrightarrow> y < 18446744073709551616 \<Longrightarrow> W x = W y \<longleftrightarrow> x = y"
  unfolding W_def by (metis unat_of_nat_u64)

text \<open>A write outside the blocks leaves their headers alone.\<close>

lemma seg_upd:
  assumes "blocks_ok bs" and "a + span bs < 18446744073709551616" and "y < 18446744073709551616"
    and "y < a \<or> a + span bs \<le> y"
  shows "seg (m(W y := v)) p a bs z = seg m p a bs z"
  using assms(1,2,4)
proof (induction m p a bs z rule: seg.induct)
  case (2 m p a u n bs z)
  have "W (a + k) \<noteq> W y" if "k < 32" for k
  proof -
    have "a + k < 18446744073709551616" "a + k \<noteq> y" using 2(2-4) that by auto
    then show ?thesis using W_eq assms(3) by blast
  qed
  from this [of 0] this [of 8] this [of 16] this [of 24]
  have "header (m(W y := v)) a u n x p = header m a u n x p" for x
    by (simp add: header_def)
  moreover have "seg (m(W y := v)) a (a + n) bs z = seg m a (a + n) bs z"
    by (rule 2) (use 2(2-4) in auto)
  ultimately show ?case by (simp del: fun_upd_apply)
qed simp

text \<open>Two memories agree on the data of the blocks in use.\<close>

fun same_data :: "kmemory \<Rightarrow> kmemory \<Rightarrow> nat \<Rightarrow> blk list \<Rightarrow> bool" where
  "same_data m m' a [] = True"
| "same_data m m' a ((u, n) # bs) =
     ((u \<longrightarrow> (\<forall>y. a + 32 \<le> y \<and> y < a + n \<longrightarrow> m' (W y) = m (W y))) \<and> same_data m m' (a + n) bs)"

lemma same_data_refl [simp]: "same_data m m a bs"
  by (induction m m a bs rule: same_data.induct) auto

lemma same_data_append:
  "same_data m m' a (xs @ ys) \<longleftrightarrow> same_data m m' a xs \<and> same_data m m' (a + span xs) ys"
  by (induction m m' a xs rule: same_data.induct) (auto simp: add.assoc)

lemma same_data_trans: "same_data m m' a bs \<Longrightarrow> same_data m' m'' a bs \<Longrightarrow> same_data m m'' a bs"
  by (induction m m' a bs rule: same_data.induct) auto

lemma same_data_upd:
  assumes "blocks_ok bs" and "a + span bs < 18446744073709551616" and "y < 18446744073709551616"
    and "y < a \<or> a + span bs \<le> y"
  shows "same_data m (m'(W y := v)) a bs = same_data m m' a bs"
  using assms(1,2,4)
proof (induction m m' a bs rule: same_data.induct)
  case (2 m m' a u n bs)
  have "W x \<noteq> W y" if "a + 32 \<le> x" "x < a + n" for x
  proof -
    have "x < 18446744073709551616" "x \<noteq> y" using 2(2-4) that by auto
    then show ?thesis using W_eq assms(3) by blast
  qed
  moreover have "same_data m (m'(W y := v)) (a + n) bs = same_data m m' (a + n) bs"
    by (rule 2) (use 2(2-4) in auto)
  ultimately show ?case by (subst (1 2) same_data.simps) auto
qed simp

section \<open>Changes to a list of blocks\<close>

lemma W_add [simp]: "W a + numeral k = W (a + numeral k)" "W a + W b = W (a + b)" "W 0 = 0"
  by (simp_all add: W_def)

lemma header_upd:
  assumes "a + 32 < 18446744073709551616"
  shows "header (m(W a := v)) a u n x p \<longleftrightarrow> v = tag u \<and> m (W (a + 8)) = W n \<and> m (W (a + 16)) = W x \<and> m (W (a + 24)) = W p"
    and "header (m(W (a + 8) := v)) a u n x p \<longleftrightarrow> m (W a) = tag u \<and> v = W n \<and> m (W (a + 16)) = W x \<and> m (W (a + 24)) = W p"
    and "header (m(W (a + 16) := v)) a u n x p \<longleftrightarrow> m (W a) = tag u \<and> m (W (a + 8)) = W n \<and> v = W x \<and> m (W (a + 24)) = W p"
    and "header (m(W (a + 24) := v)) a u n x p \<longleftrightarrow> m (W a) = tag u \<and> m (W (a + 8)) = W n \<and> m (W (a + 16)) = W x \<and> v = W p"
proof -
  have d: "W (a + i) = W (a + j) \<longleftrightarrow> i = j" if "i < 32" "j < 32" for i j
    using W_eq [of "a + i" "a + j"] that assms by auto
  note d8 = d [of 0 8, unfolded add_0_right] d [of 0 16, unfolded add_0_right] d [of 0 24, unfolded add_0_right] d [of 8 16] d [of 8 24] d [of 16 24]
    d [of 8 0, unfolded add_0_right] d [of 16 0, unfolded add_0_right] d [of 24 0, unfolded add_0_right] d [of 16 8] d [of 24 8] d [of 24 16]
  show "header (m(W a := v)) a u n x p \<longleftrightarrow> v = tag u \<and> m (W (a + 8)) = W n \<and> m (W (a + 16)) = W x \<and> m (W (a + 24)) = W p"
    "header (m(W (a + 8) := v)) a u n x p \<longleftrightarrow> m (W a) = tag u \<and> v = W n \<and> m (W (a + 16)) = W x \<and> m (W (a + 24)) = W p"
    "header (m(W (a + 16) := v)) a u n x p \<longleftrightarrow> m (W a) = tag u \<and> m (W (a + 8)) = W n \<and> v = W x \<and> m (W (a + 24)) = W p"
    "header (m(W (a + 24) := v)) a u n x p \<longleftrightarrow> m (W a) = tag u \<and> m (W (a + 8)) = W n \<and> m (W (a + 16)) = W x \<and> v = W p"
    using d8 by (simp_all add: header_def)
qed

lemma last_addr_snoc [simp]: "last_addr p a (xs @ [(u, n)]) = a + span xs"
  by (induction p a xs rule: last_addr.induct) auto

text \<open>A block in the middle: the parts before and after it do not see writes to its header.\<close>

lemma seg_middle:
  "seg m p a (xs @ (u, n) # ys) z \<longleftrightarrow>
     seg m p a xs (a + span xs) \<and>
     header m (a + span xs) u n (if ys = [] then z else a + span xs + n) (last_addr p a xs) \<and>
     seg m (a + span xs) (a + span xs + n) ys z"
  by (simp add: seg_append)

lemma seg_upd_middle:
  assumes "blocks_ok (xs @ (u, n) # ys)" and "a + span (xs @ (u, n) # ys) < 18446744073709551616" and "k < n"
  shows "seg (m(W (a + span xs + k) := v)) p a xs w = seg m p a xs w"
    and "seg (m(W (a + span xs + k) := v)) q (a + span xs + n) ys z = seg m q (a + span xs + n) ys z"
  by (rule seg_upd; use assms in simp)+

lemma same_data_hit:
  assumes "blocks_ok (xs @ (u, n) # ys)" and "a + span (xs @ (u, n) # ys) < 18446744073709551616" and "k < n" and "u \<longrightarrow> k < 32"
  shows "same_data m (m'(W (a + span xs + k) := v)) a (xs @ (u, n) # ys) = same_data m m' a (xs @ (u, n) # ys)"
proof -
  have "same_data m (m'(W (a + span xs + k) := v)) a xs = same_data m m' a xs"
    by (rule same_data_upd) (use assms in auto)
  moreover have "same_data m (m'(W (a + span xs + k) := v)) (a + span xs + n) ys = same_data m m' (a + span xs + n) ys"
    by (rule same_data_upd) (use assms in auto)
  moreover have "(m'(W (a + span xs + k) := v)) (W y) = m' (W y)" if "u" "a + span xs + 32 \<le> y" "y < a + span xs + n" for y
  proof -
    have "W y \<noteq> W (a + span xs + k)" using W_eq [of y "a + span xs + k"] assms that by auto
    then show ?thesis by simp
  qed
  ultimately show ?thesis by (simp add: same_data_append del: fun_upd_apply)
qed

lemma seg_set_state:
  assumes "blocks_ok (xs @ (u, n) # ys)" and "a + span (xs @ (u, n) # ys) < 18446744073709551616"
    and "seg m p a (xs @ (u, n) # ys) z"
  shows "seg (m(W (a + span xs) := tag u')) p a (xs @ (u', n) # ys) z"
proof -
  have "0 < n" "a + span xs + 32 < 18446744073709551616 \<or> n = 32" using assms by auto
  note upd = seg_upd_middle [OF assms(1,2) \<open>0 < n\<close>, unfolded add_0_right]
  have "header m (a + span xs) u n x q \<Longrightarrow> header (m(W (a + span xs) := tag u')) (a + span xs) u' n x q" for x q
    using header_upd(1) [of "a + span xs" m "tag u'" u' n x q] assms(1,2) by (simp add: header_def)
  then show ?thesis using assms(3) by (simp add: seg_middle upd del: fun_upd_apply)
qed

lemma seg_set_prev:
  assumes "blocks_ok ys" and "a + span ys < 18446744073709551616" and "seg m p a ys z"
  shows "seg (if ys = [] then m else m(W (a + 24) := W q)) q a ys z"
proof (cases ys)
  case (Cons y zs)
  obtain u n where y: "y = (u, n)" by fastforce
  have "24 < n" using assms(1) by (auto simp: Cons y)
  from seg_upd_middle(2) [of "[]" u n zs a 24] assms(1,2) this
  have "seg (m(W (a + 24) := W q)) a (a + n) zs z = seg m a (a + n) zs z" by (simp add: Cons y del: fun_upd_apply)
  moreover have "header m a u n x p \<Longrightarrow> header (m(W (a + 24) := W q)) a u n x q" for x
    using header_upd(4) [of a] assms(1,2) by (simp add: header_def Cons y del: fun_upd_apply)
  ultimately show ?thesis using assms(3) by (simp add: Cons y del: fun_upd_apply)
qed simp

lemma W_zero_iff: "x < 18446744073709551616 \<Longrightarrow> W x = 0 \<longleftrightarrow> x = 0"
  using W_eq [of x 0] by simp

lemma W_diff: "k \<le> n \<Longrightarrow> W n - W k = W (n - k)"
  by (simp add: W_def of_nat_diff)

lemma unat_W: "x < 18446744073709551616 \<Longrightarrow> unat (W x) = x"
  by (simp add: W_def unat_of_nat_u64)

lemma W_le: "x < 18446744073709551616 \<Longrightarrow> y < 18446744073709551616 \<Longrightarrow> W x \<le> W y \<longleftrightarrow> x \<le> y"
  by (simp add: word_le_nat_alt unat_W)

text \<open>The successor field: 0 after the last block, else the address of the next block.\<close>

abbreviation (input) succ_addr :: "nat \<Rightarrow> blk list \<Rightarrow> nat" where
  "succ_addr b ys \<equiv> (if ys = [] then 0 else b)"

definition link_prev :: "nat \<Rightarrow> blk list \<Rightarrow> nat \<Rightarrow> kmemory \<Rightarrow> kmemory" where
  "link_prev b ys q m = (if ys = [] then m else m(W (b + 24) := W q))"

lemma link_prev_seg:
  assumes "blocks_ok ys" and "b + span ys < 18446744073709551616" and "seg m p b ys z"
  shows "seg (link_prev b ys q m) q b ys z"
  using seg_set_prev [OF assms, of q] by (simp add: link_prev_def)

lemma link_prev_frame:
  assumes "blocks_ok ys" and "b + span ys < 18446744073709551616" and "x < b"
  shows "link_prev b ys q m (W x) = m (W x)"
  using assms W_eq [of x "b + 24"] by (cases ys) (auto simp: link_prev_def)

lemma link_prev_before:
  assumes "blocks_ok xs" "blocks_ok ys" and "a + span xs \<le> b" and "b + span ys < 18446744073709551616"
  shows "seg (link_prev b ys q m) p a xs z = seg m p a xs z"
proof (cases ys)
  case (Cons y zs)
  have "32 \<le> snd y" using assms(2) Cons by simp
  have "seg (m(W (b + 24) := W q)) p a xs z = seg m p a xs z"
    by (rule seg_upd) (use assms Cons \<open>32 \<le> snd y\<close> in auto)
  then show ?thesis by (simp add: link_prev_def Cons del: fun_upd_apply)
qed (simp add: link_prev_def)

lemma link_prev_data:
  assumes "blocks_ok (xs @ ys)" and "a + span (xs @ ys) < 18446744073709551616"
  shows "same_data m (link_prev (a + span xs) ys q m') a (xs @ ys) = same_data m m' a (xs @ ys)"
proof (cases ys)
  case (Cons y zs)
  obtain u n where y: "y = (u, n)" by fastforce
  show ?thesis
    using same_data_hit [of xs u n zs a 24 m m' "W q"] assms by (simp add: link_prev_def Cons y del: fun_upd_apply)
qed (simp add: link_prev_def)

lemma ksplit_eq:
  assumes "header m A u n (succ_addr (A + n) ys) pv" and "32 \<le> r" "r + 32 \<le> n" and "A + n + span ys < 18446744073709551616"
    and "blocks_ok ys" and "0 < A"
  shows "ksplit (W A) (W r) m =
    (link_prev (A + n) ys (A + r) (m(W (A + r) := KMALLOC_STATE_FREE, W (A + r + 8) := W (n - r), W (A + r + 24) := W A,
       W (A + r + 16) := W (succ_addr (A + n) ys))))(W (A + 16) := W (A + r), W (A + 8) := W r)"
  using assms by (cases ys) (simp_all add: ksplit_def Let_def header_def W_eq W_diff link_prev_def W_zero_iff add.assoc)

lemma ksplit_seg:
  assumes ok: "blocks_ok (xs @ (u, n) # ys)" and lim: "a + span (xs @ (u, n) # ys) < 18446744073709551616"
    and sg: "seg m p a (xs @ (u, n) # ys) 0" and r: "32 \<le> r" "16 dvd r" "r + 32 \<le> n" and "0 < a"
  shows "seg (ksplit (W (a + span xs)) (W r) m) p a (xs @ (u, r) # (False, n - r) # ys) 0"
    and "\<not> u \<Longrightarrow> same_data m (ksplit (W (a + span xs)) (W r) m) a (xs @ (u, n) # ys)"
proof -
  define A where "A = a + span xs"
  define m4 where "m4 = m(W (A + r) := KMALLOC_STATE_FREE, W (A + r + 8) := W (n - r), W (A + r + 24) := W A,
       W (A + r + 16) := W (succ_addr (A + n) ys))"
  define m5 where "m5 = link_prev (A + n) ys (A + r) m4"
  have h: "header m A u n (succ_addr (A + n) ys) (last_addr p a xs)" "seg m p a xs A" "seg m A (A + n) ys 0"
    using sg unfolding seg_middle A_def by simp_all
  have m': "ksplit (W A) (W r) m = m5(W (A + 16) := W (A + r), W (A + 8) := W r)"
    unfolding m5_def m4_def
    by (rule ksplit_eq [OF h(1)]) (use assms in \<open>auto simp: A_def\<close>)
  note upd = seg_upd_middle [OF ok lim, folded A_def]
  have s4: "seg m4 p a xs A" "seg m4 A (A + n) ys 0"
    using h r upd [of r] upd [of "r + 8"] upd [of "r + 16"] upd [of "r + 24"]
    by (simp_all add: m4_def add.assoc [symmetric] del: fun_upd_apply)
  have s5: "seg m5 p a xs A" "seg m5 (A + r) (A + n) ys 0"
    using s4(1) link_prev_before [of xs ys a "A + n"] link_prev_seg [OF _ _ s4(2)] ok lim by (simp_all add: m5_def A_def)
  have "header m5 A u n (succ_addr (A + n) ys) (last_addr p a xs)"
      "header m5 (A + r) False (n - r) (succ_addr (A + n) ys) A"
    unfolding header_def m5_def using h(1) ok lim r
    by (simp_all add: link_prev_frame A_def) (simp_all add: m4_def header_def tag_def W_eq A_def)
  then have "header (m5(W (A + 16) := W (A + r), W (A + 8) := W r)) A u r (A + r) (last_addr p a xs)"
      "header (m5(W (A + 16) := W (A + r), W (A + 8) := W r)) (A + r) False (n - r) (succ_addr (A + n) ys) A"
    using ok lim r by (simp_all add: header_def W_eq A_def)
  then show "seg (ksplit (W (a + span xs)) (W r) m) p a (xs @ (u, r) # (False, n - r) # ys) 0"
    using s5 upd [of 8] upd [of 16] r unfolding seg_middle A_def [symmetric] m'
    by (cases "ys = []") (simp_all del: fun_upd_apply)
  assume "\<not> u"
  note hit = same_data_hit [OF ok lim, folded A_def]
  have "same_data m m4 a (xs @ (u, n) # ys)"
    using hit [of r m] hit [of "r + 8" m] hit [of "r + 16" m] hit [of "r + 24" m] r \<open>\<not> u\<close>
    by (simp add: m4_def add.assoc [symmetric] del: fun_upd_apply)
  then have "same_data m m5 a (xs @ (u, n) # ys)"
    using link_prev_data [of "xs @ [(u, n)]" ys a] ok lim by (simp add: m5_def A_def add.assoc)
  then show "same_data m (ksplit (W (a + span xs)) (W r) m) a (xs @ (u, n) # ys)"
    using hit [of 8 m] hit [of 16 m] r \<open>\<not> u\<close> unfolding A_def [symmetric] m' by (simp del: fun_upd_apply)
qed


lemma kmerge_next_eq:
  assumes "header m A False n (succ_addr (A + n) ((False, k) # ys)) pv" and "header m (A + n) False k (succ_addr (A + n + k) ys) A"
    and "32 \<le> n" "32 \<le> k" and "A + n + k + span ys < 18446744073709551616" and "blocks_ok ys" and "0 < A"
  shows "kmerge_next (W A) m =
    link_prev (A + n + k) ys A (m(W (A + 8) := W (n + k), W (A + 16) := W (succ_addr (A + n + k) ys)))"
  using assms by (cases ys) (simp_all add: kmerge_next_def Let_def header_def tag_def W_eq link_prev_def W_zero_iff add.assoc)

lemma kmerge_next_seg:
  assumes ok: "blocks_ok (xs @ (False, n) # (False, k) # ys)" and lim: "a + span (xs @ (False, n) # (False, k) # ys) < 18446744073709551616"
    and sg: "seg m p a (xs @ (False, n) # (False, k) # ys) 0" and "0 < a"
  shows "seg (kmerge_next (W (a + span xs)) m) p a (xs @ (False, n + k) # ys) 0"
    and "same_data m (kmerge_next (W (a + span xs)) m) a (xs @ (False, n) # (False, k) # ys)"
proof -
  define A where "A = a + span xs"
  define m2 where "m2 = m(W (A + 8) := W (n + k), W (A + 16) := W (succ_addr (A + n + k) ys))"
  have h: "header m A False n (succ_addr (A + n) ((False, k) # ys)) (last_addr p a xs)"
      "header m (A + n) False k (succ_addr (A + n + k) ys) A" "seg m p a xs A" "seg m (A + n) (A + n + k) ys 0"
    using sg unfolding seg_middle A_def by (auto split: if_splits)
  have m': "kmerge_next (W A) m = link_prev (A + n + k) ys A m2"
    unfolding m2_def by (rule kmerge_next_eq [OF h(1,2)]) (use assms in \<open>auto simp: A_def\<close>)
  have ok': "blocks_ok (xs @ (False, n + k) # ys)" "a + span (xs @ (False, n + k) # ys) < 18446744073709551616"
    using ok lim by auto
  note upd = seg_upd_middle [OF ok', folded A_def]
  have s2: "seg m2 p a xs A" "seg m2 (A + n) (A + n + k) ys 0"
    using h(3,4) ok upd [of 8] upd [of 16] by (simp_all add: m2_def add.assoc [symmetric] del: fun_upd_apply)
  have "seg (link_prev (A + n + k) ys A m2) p a xs A" "seg (link_prev (A + n + k) ys A m2) A (A + n + k) ys 0"
    using s2(1) link_prev_before [of xs ys a "A + n + k"] link_prev_seg [OF _ _ s2(2)] ok lim by (simp_all add: A_def)
  moreover have "header (link_prev (A + n + k) ys A m2) A False (n + k) (succ_addr (A + n + k) ys) (last_addr p a xs)"
    unfolding header_def using h(1) ok lim
    by (simp_all add: link_prev_frame A_def) (simp_all add: m2_def header_def tag_def W_eq A_def)
  ultimately show "seg (kmerge_next (W (a + span xs)) m) p a (xs @ (False, n + k) # ys) 0"
    unfolding seg_middle A_def [symmetric] m' by (cases "ys = []") (simp_all add: add.assoc)
  note hit = same_data_hit [OF ok lim, folded A_def]
  have "same_data m m2 a (xs @ (False, n) # (False, k) # ys)"
    using hit [of 8 m] hit [of 16 m] ok by (simp add: m2_def del: fun_upd_apply)
  then show "same_data m (kmerge_next (W (a + span xs)) m) a (xs @ (False, n) # (False, k) # ys)"
    using link_prev_data [of "xs @ [(False, n), (False, k)]" ys a] ok lim
    unfolding A_def [symmetric] m' by (simp add: A_def add.assoc)
qed

text \<open>Nothing to merge: the chunk or its successor is in use, or there is no successor.\<close>

lemma kmerge_next_idle:
  assumes "seg m p a (xs @ (u, n) # ys) 0" and "u \<or> ys = [] \<or> fst (hd ys)"
    and "a + span (xs @ (u, n) # ys) < 18446744073709551616" "blocks_ok (xs @ (u, n) # ys)"
  shows "kmerge_next (W (a + span xs)) m = m"
  using assms by (cases ys) (auto simp: kmerge_next_def seg_append header_def tag_def Let_def W_zero_iff split: if_splits)


section \<open>The loops\<close>

fun first_fit :: "nat \<Rightarrow> blk list \<Rightarrow> (blk list \<times> nat \<times> blk list) option" where
  "first_fit r [] = None"
| "first_fit r ((u, n) # bs) =
     (if \<not> u \<and> r \<le> n then Some ([], n, bs)
      else map_option (\<lambda>(xs, k, ys). ((u, n) # xs, k, ys)) (first_fit r bs))"

lemma first_fit_Some:
  "first_fit r bs = Some (xs, n, ys) \<Longrightarrow> bs = xs @ (False, n) # ys \<and> r \<le> n \<and> (\<forall>(u, k) \<in> set xs. u \<or> k < r)"
  by (induction r bs arbitrary: xs rule: first_fit.induct) (auto split: if_splits)

lemma first_fit_None: "first_fit r bs = None \<longleftrightarrow> (\<forall>(u, k) \<in> set bs. u \<or> k < r)"
  by (induction r bs rule: first_fit.induct) (auto simp: not_le)

lemma find_chunk_spec:
  assumes "r < 18446744073709551616"
  shows "seg m p a bs 0 \<Longrightarrow> blocks_ok bs \<Longrightarrow> a + span bs < 18446744073709551616 \<Longrightarrow> 0 < a \<Longrightarrow>
    find_chunk m (W r) (W (succ_addr a bs)) =
      Some (case first_fit r bs of None \<Rightarrow> 0 | Some (xs, n, ys) \<Rightarrow> W (a + span xs))"
proof (induction bs arbitrary: p a)
  case Nil
  then show ?case by (simp add: find_chunk.simps)
next
  case (Cons b bs)
  obtain u n where b: "b = (u, n)" by fastforce
  have h: "m (W a) = tag u" "m (W (a + 8)) = W n" "m (W (a + 16)) = W (succ_addr (a + n) bs)" "seg m a (a + n) bs 0"
    using Cons.prems(1) by (auto simp: b header_def split: if_splits)
  have IH: "find_chunk m (W r) (W (succ_addr (a + n) bs)) =
      Some (case first_fit r bs of None \<Rightarrow> 0 | Some (xs, n', ys) \<Rightarrow> W (a + n + span xs))"
    by (rule Cons.IH [OF h(4)]) (use Cons.prems in \<open>auto simp: b\<close>)
  have "W a \<noteq> 0" "W r \<le> W n \<longleftrightarrow> r \<le> n" using Cons.prems assms by (auto simp: b W_zero_iff W_le)
  then show ?case
    using IH by (subst find_chunk.simps) (auto simp: b h tag_def add.assoc split: option.splits if_splits)
qed

lemma last_chunk_spec:
  "seg m p a bs 0 \<Longrightarrow> blocks_ok bs \<Longrightarrow> a + span bs < 18446744073709551616 \<Longrightarrow> bs \<noteq> [] \<Longrightarrow>
    last_chunk m (W a) = Some (W (last_addr p a bs))"
proof (induction bs arbitrary: p a)
  case (Cons b bs)
  obtain u n where b: "b = (u, n)" by fastforce
  have h: "m (W (a + 16)) = W (succ_addr (a + n) bs)" "seg m a (a + n) bs 0"
    using Cons.prems(1) by (auto simp: b header_def split: if_splits)
  show ?case
  proof (cases "bs = []")
    case True
    then show ?thesis using h by (subst last_chunk.simps) (simp add: b)
  next
    case False
    have "last_chunk m (W (a + n)) = Some (W (last_addr a (a + n) bs))"
      by (rule Cons.IH [OF h(2)]) (use Cons.prems False in \<open>auto simp: b\<close>)
    moreover have "W (a + n) \<noteq> 0" using Cons.prems by (auto simp: b W_zero_iff)
    ultimately show ?thesis using h False by (subst last_chunk.simps) (simp add: b)
  qed
qed simp

section \<open>The source of pages\<close>

text \<open>
  What the heap relies on: a successful request for \<open>n\<close> pages returns the address at which the
  previous one ended, and moves it on by \<open>n\<close> pages; a request that fails does not move it.
\<close>

locale page_source =
  fixes alloc :: "u64 \<Rightarrow> 'v \<Rightarrow> (u64 \<times> 'v) result" and brk :: "'v \<Rightarrow> u64"
  assumes alloc_fresh: "alloc n v = Inr (a, v') \<Longrightarrow> a \<noteq> 0 \<Longrightarrow> a = brk v \<and> brk v' = brk v + n * PAGE_SIZE"
    and alloc_fail: "alloc n v = Inr (0, v') \<Longrightarrow> brk v \<noteq> 0 \<Longrightarrow> brk v' = brk v"
begin

lemma alloc_adjacent:
  "alloc n v = Inr (a, v1) \<Longrightarrow> a \<noteq> 0 \<Longrightarrow> alloc k v1 = Inr (b, v2) \<Longrightarrow> b \<noteq> 0 \<Longrightarrow> b = a + n * PAGE_SIZE"
  using alloc_fresh by metis

lemma alloc_brk:
  "alloc n v = Inr (a, v') \<Longrightarrow> brk v \<noteq> 0 \<Longrightarrow> a = 0 \<and> brk v' = brk v \<or> a = brk v \<and> brk v' = a + n * PAGE_SIZE"
  using alloc_fresh alloc_fail by metis

end

lemma ensure_table_next_virt: "ensure_table msg t i s = Inr s' \<Longrightarrow> next_virt s' = next_virt s"
  by (auto simp: ensure_table_def Let_def store64_def memset_zero_def split: if_splits prod.splits)

lemma map_page_next_virt: "map_page ph va r s = Inr s' \<Longrightarrow> next_virt s' = next_virt s"
  unfolding map_page_def Let_def bind_result_Inr_iff
  by (elim exE conjE) (drule ensure_table_next_virt, auto simp: store64_def dest!: ensure_table_next_virt)

lemma vfrees_next_virt [simp]: "next_virt (vfrees va n s) = next_virt s"
proof -
  have "next_virt (vfrees_step r v t) = next_virt t" for r v t
    by (simp add: vfrees_step_def unmap_page_def Let_def store64_def split: prod.splits)
  then have "next_virt (for_u64 n (\<lambda>i. vfrees_step r (va + i * PAGE_SIZE)) s) = next_virt s" for r
    using for_u64_invariant [where P = "\<lambda>_ t. next_virt t = next_virt s"] by metis
  then show ?thesis by (simp add: vfrees_def Let_def)
qed

lemma vallocs_loop_next_virt:
  "vallocs_loop z r start n i s = Inr (ok, s') \<Longrightarrow> next_virt s' = next_virt s"
proof (induction n arbitrary: i s)
  case (Suc n)
  then show ?case
    by (auto simp: Let_def bind_result_Inr_iff memset_virt_page_def dest!: map_page_next_virt
        split: prod.splits if_splits option.splits)
qed simp

interpretation heap_pages: page_source "vallocs True" next_virt
proof
  fix n v a v'
  assume *: "vallocs True n v = Inr (a, v')" "a \<noteq> 0"
  then show "a = next_virt v \<and> next_virt v' = next_virt v + n * PAGE_SIZE"
    by (auto simp: vallocs_def Let_def bind_result_Inr_iff dest!: vallocs_loop_next_virt split: if_splits)
next
  fix n v v'
  assume "vallocs True n v = Inr (0, v')" "next_virt v \<noteq> 0"
  then show "next_virt v' = next_virt v"
    by (auto simp: vallocs_def Let_def bind_result_Inr_iff dest!: vallocs_loop_next_virt split: if_splits)
qed

section \<open>The heap\<close>

text \<open>The heap state describes the blocks \<open>bs\<close>.\<close>

definition kinv :: "kheap \<Rightarrow> blk list \<Rightarrow> bool" where
  "kinv s bs \<longleftrightarrow>
     (if bs = [] then khead s = 0
      else khead s = heap_start s \<and> 0 < unat (heap_start s) \<and> 16 dvd unat (heap_start s) \<and>
        blocks_ok bs \<and> unat (heap_start s) + span bs < 18446744073709551616 \<and>
        unat (heap_end s) = unat (heap_start s) + span bs \<and>
        seg (kmem s) 0 (unat (heap_start s)) bs 0)"

definition round_up :: "nat \<Rightarrow> nat \<Rightarrow> nat" where
  "round_up k x = (x + k - 1) div k * k"

lemma round_up_bounds: "0 < k \<Longrightarrow> x \<le> round_up k x \<and> round_up k x < x + k \<and> k dvd round_up k x"
proof -
  assume k: "0 < k"
  have "(x + k - 1) mod k + round_up k x = x + k - 1" by (simp add: round_up_def)
  moreover have "(x + k - 1) mod k < k" using k by simp
  ultimately have "x \<le> round_up k x" "round_up k x < x + k" using k by linarith+
  then show ?thesis by (simp add: round_up_def)
qed

lemma and_not_mask: "unat (v AND NOT (mask n)) = unat (v :: u64) div 2 ^ n * 2 ^ n"
proof -
  have "v AND NOT (mask n) = push_bit n (drop_bit n v)"
    by (rule bit_word_eqI) (auto simp: bit_simps)
  also have "\<dots> = v - take_bit n v" using bits_ident [of n v] by (simp add: algebra_simps)
  finally have "unat (v AND NOT (mask n)) = unat (v - take_bit n v)" by simp
  also have "\<dots> = unat v - unat v mod 2 ^ n"
  proof -
    have "unat (take_bit n v) = unat v mod 2 ^ n" 
      unfolding unsigned_take_bit_eq by (rule take_bit_eq_mod)
    then show ?thesis by (subst unat_sub_u64) (simp_all add: word_le_nat_alt)
  qed
  finally show ?thesis by (simp add: minus_mod_eq_div_mult)
qed

lemma align_up_W:
  assumes "x + 4096 < 18446744073709551616"
  shows "align_up (W x) PAGE_SIZE = W (round_up 4096 x)" and "align_up (W x) KMALLOC_ALIGNMENT = W (round_up 16 x)"
proof -
  have *: "W x + 2 ^ n - 1 = W (x + 2 ^ n - 1)" for n 
  proof -
    have "1 \<le> x + 2 ^ n" by (simp add: Suc_le_eq)
    from of_nat_diff [OF this, where 'a = "64 word"] show ?thesis by (simp add: W_def)
  qed
  have m: "unat ((W x + k - 1) AND NOT (mask n)) = round_up (2 ^ n) x" if "k = 2 ^ n" "2 ^ n \<le> (4096 :: nat)" for n and k :: u64
    using and_not_mask [of "W x + k - 1" n] unat_W [of "x + 2 ^ n - 1"] that(2) assms unfolding that(1) *
    by (simp add: round_up_def)
  have eq: "v = W y" if "unat v = y" for v y using that [symmetric] by (simp add: W_def)
  show "align_up (W x) PAGE_SIZE = W (round_up 4096 x)"
    by (rule eq) (use m [of PAGE_SIZE 12] in \<open>simp add: align_up_def mask_eq_exp_minus_1\<close>)
  show "align_up (W x) KMALLOC_ALIGNMENT = W (round_up 16 x)"
    by (rule eq) (use m [of KMALLOC_ALIGNMENT 4] in \<open>simp add: align_up_def mask_eq_exp_minus_1\<close>)
qed

text \<open>Memory of \<open>b\<close> bytes added at the end of the heap joins the last block when that one is free.\<close>

definition grow_blocks :: "nat \<Rightarrow> blk list \<Rightarrow> blk list" where
  "grow_blocks b bs =
     (if bs \<noteq> [] \<and> \<not> fst (last bs) then butlast bs @ [(False, snd (last bs) + b)] else bs @ [(False, b)])"

lemma append_chunk:
  assumes ok: "blocks_ok (xs @ [(u, n)])" and b: "32 \<le> b" "16 dvd b" and lim: "a + span xs + n + b < 18446744073709551616"
    and sg: "seg m p a (xs @ [(u, n)]) 0" and "0 < a"
  defines "L \<equiv> a + span xs" and "E \<equiv> a + span xs + n"
  defines "m2 \<equiv> m(W E := KMALLOC_STATE_FREE, W (E + 8) := W b, W (E + 16) := 0, W (E + 24) := W L, W (L + 16) := W E)"
  defines "m3 \<equiv> if m2 (W L) = KMALLOC_STATE_FREE then kmerge_next (W L) m2 else m2"
  shows "seg m3 p a (grow_blocks b (xs @ [(u, n)])) 0" and "same_data m m3 a (xs @ [(u, n)])"
proof -
  have lim': "a + span (xs @ [(u, n)]) < 18446744073709551616" using lim by simp
  have n: "32 \<le> n" "blocks_ok xs" using ok by auto
  have h: "header m L u n 0 (last_addr p a xs)" "seg m p a xs L"
    using sg unfolding seg_middle L_def by simp_all
  have "seg m2 p a xs L"
    unfolding m2_def using h(2) n lim seg_upd_middle(1) [OF ok lim', of 16, folded L_def]
      seg_upd [of xs a E] seg_upd [of xs a "E + 8"] seg_upd [of xs a "E + 16"] seg_upd [of xs a "E + 24"] b
    by (simp add: E_def del: fun_upd_apply)
  moreover have "header m2 L u n E (last_addr p a xs)" "header m2 E False b 0 L"
    using h(1) n lim b unfolding header_def m2_def by (simp_all add: L_def E_def W_eq tag_def)
  ultimately have s2: "seg m2 p a (xs @ (u, n) # [(False, b)]) 0" unfolding seg_middle by (simp add: L_def E_def)
  have ok2: "blocks_ok (xs @ (u, n) # [(False, b)])" "a + span (xs @ (u, n) # [(False, b)]) < 18446744073709551616"
    using ok b lim by simp_all
  have d2: "same_data m m2 a (xs @ [(u, n)])"
    unfolding m2_def using n lim b same_data_hit [OF ok lim', of 16 m, folded L_def]
      same_data_upd [OF ok lim', of E m] same_data_upd [OF ok lim', of "E + 8" m]
      same_data_upd [OF ok lim', of "E + 16" m] same_data_upd [OF ok lim', of "E + 24" m]
    by (simp add: E_def del: fun_upd_apply)
  have t: "m2 (W L) = tag u" using s2 by (simp add: seg_middle header_def L_def)
  show "seg m3 p a (grow_blocks b (xs @ [(u, n)])) 0"
  proof (cases u)
    case True
    then show ?thesis using s2 t by (simp add: m3_def tag_def grow_blocks_def)
  next
    case False
    then show ?thesis using kmerge_next_seg(1) [of xs n b "[]" a m2 p] s2 ok2 t \<open>0 < a\<close>
      by (simp add: m3_def tag_def grow_blocks_def L_def)
  qed
  show "same_data m m3 a (xs @ [(u, n)])"
  proof (cases u)
    case True
    then show ?thesis using d2 t by (simp add: m3_def tag_def)
  next
    case False
    then have "same_data m2 m3 a (xs @ [(False, n)] @ [(False, b)])"
      using kmerge_next_seg(2) [of xs n b "[]" a m2 p] s2 ok2 t \<open>0 < a\<close> by (simp add: m3_def tag_def L_def)
    then show ?thesis using same_data_trans [OF d2, of m3] False unfolding same_data_append by simp
  qed
qed

lemma W_unat [simp]: "W (unat x) = x"
  by (simp add: W_def)

lemma span_grow_blocks [simp]: "span (grow_blocks b bs) = span bs + b"
  by (cases bs rule: rev_cases) (auto simp: grow_blocks_def)

lemma blocks_ok_grow: "blocks_ok bs \<Longrightarrow> 32 \<le> b \<Longrightarrow> 16 dvd b \<Longrightarrow> blocks_ok (grow_blocks b bs)"
  by (cases bs rule: rev_cases) (auto simp: grow_blocks_def)

lemma grow_blocks_not_Nil [simp]: "grow_blocks b bs \<noteq> []"
  by (simp add: grow_blocks_def)

lemma kmalloc_grow_cases:
  assumes inv: "kinv s bs" and g: "0 < g" "g + 4096 < 18446744073709551616"
    and v: "vallocs True (W (round_up 4096 g div 4096)) (kvm s) = Inr (adr, v)"
    and nv: "16 dvd unat (next_virt (kvm s))" "unat (next_virt (kvm s)) + round_up 4096 g < 18446744073709551616"
  obtains (failed) s' where "kmalloc_grow (W g) s = Some (Inr (False, s'))" "s' = s\<lparr>kvm := kvm s'\<rparr>"
      "adr = 0 \<or> adr \<noteq> heap_end s \<and> bs \<noteq> []" "adr = 0 \<Longrightarrow> kvm s' = v"
  | (grown) s' where "kmalloc_grow (W g) s = Some (Inr (True, s'))" "kinv s' (grow_blocks (round_up 4096 g) bs)"
      "kvm s' = v" "adr = next_virt (kvm s)" "heap_end s' = adr + W (round_up 4096 g)"
      "bs = [] \<Longrightarrow> heap_start s' = adr" "bs \<noteq> [] \<Longrightarrow> heap_start s' = heap_start s"
      "bs \<noteq> [] \<Longrightarrow> same_data (kmem s) (kmem s') (unat (heap_start s)) bs"
proof -
  define b where "b = round_up 4096 g"
  have b: "g \<le> b" "b < g + 4096" "4096 dvd b" using round_up_bounds [of 4096 g] by (simp_all add: b_def)
  then have b': "32 \<le> b" "16 dvd b" using g by (auto dest: dvd_imp_le intro: dvd_trans [of 16 4096])
  have al: "align_up (W g) PAGE_SIZE = W b" "W b div PAGE_SIZE = W (b div 4096)"
  proof -
    show "align_up (W g) PAGE_SIZE = W b" using align_up_W(1) [OF g(2)] by (simp add: b_def)
    have "unat (W b div PAGE_SIZE) = b div 4096" using b g by (simp add: unat_div unat_W)
    then show "W b div PAGE_SIZE = W (b div 4096)" by (metis W_unat)
  qed
  note grow = kmalloc_grow_def [of "W g" s, unfolded al Let_def v [folded b_def]]
  show thesis
  proof (cases "adr = 0")
    case True
    then show thesis using failed [of "s\<lparr>kvm := v\<rparr>"] grow by (simp add: al)
  next
    case nz: False
    have adr: "adr = next_virt (kvm s)" using heap_pages.alloc_fresh [OF v nz] by simp
    show thesis
    proof (cases "bs = []")
      case True
      then have h: "khead s = 0" using inv by (simp add: kinv_def)
      have na: "0 < unat adr" using nz by (simp add: unat_gt_0)
      define s' where "s' = s\<lparr>kvm := v, heap_start := adr, heap_end := adr + W b, khead := adr,
        kmem := (kmem s)(adr := KMALLOC_STATE_FREE, adr + 8 := W b, adr + 16 := 0, adr + 24 := 0)\<rparr>"
      have "kmalloc_grow (W g) s = Some (Inr (True, s'))" using nz h grow by (simp add: al s'_def)
      moreover have "kinv s' (grow_blocks b bs)"
      proof -
        have k: "adr + 8 = W (unat adr + 8)" "adr + 16 = W (unat adr + 16)" "adr + 24 = W (unat adr + 24)"
          by (simp_all add: W_def)
        have "unat (adr + W b) = unat adr + b" using nv(2) adr b_def unat_W [of b] by simp
        moreover have "header (kmem s') (unat adr) False b 0 0"
          using nv(2) b' W_eq [of "unat adr"] unfolding header_def s'_def k adr [symmetric] b_def [symmetric]
          by (simp add: tag_def W_eq)
        ultimately show ?thesis using True nz nv adr b' na by (simp add: kinv_def grow_blocks_def s'_def b_def [symmetric])
      qed
      ultimately show thesis using grown [of s'] True adr unfolding s'_def b_def by simp
    next
      case False
      define a where "a = unat (heap_start s)"
      have i: "khead s = W a" "0 < a" "blocks_ok bs" "seg (kmem s) 0 a bs 0"
          "unat (heap_end s) = a + span bs" "a + span bs < 18446744073709551616" "khead s \<noteq> 0"
        using inv False by (auto simp: kinv_def a_def)
      show thesis
      proof (cases "adr = heap_end s")
        case False
        then show thesis using failed [of "s\<lparr>kvm := vfrees adr (W (b div 4096)) v\<rparr>"] grow nz i(7) \<open>bs \<noteq> []\<close>
          by (simp add: al)
      next
        case True
        obtain xs u n where bs: "bs = xs @ [(u, n)]" using \<open>bs \<noteq> []\<close> by (metis rev_exhaust surj_pair)
        have adrW: "adr = W (a + span xs + n)" using True i(5) by (metis W_unat bs add.assoc span_simps(1-3) snd_conv add_0_right)
        have lim: "a + span xs + n + b < 18446744073709551616"
          using nv(2) i(5) True adr by (simp add: bs b_def)
        have ok: "blocks_ok (xs @ [(u, n)])" using i(3) bs by simp
        note ch = append_chunk [OF ok b' lim i(4) [unfolded bs] i(2)]
        have lst: "last_chunk (kmem s) (khead s) = Some (W (a + span xs))"
          using last_chunk_spec [OF i(4,3,6) \<open>bs \<noteq> []\<close>] by (simp add: i(1) bs)
        define m2 where "m2 = (kmem s)(adr := KMALLOC_STATE_FREE, adr + 8 := W b, adr + 16 := 0, adr + 24 := W (a + span xs),
          W (a + span xs) + 16 := adr)"
        define m3 where "m3 = (if m2 (W (a + span xs)) = KMALLOC_STATE_FREE then kmerge_next (W (a + span xs)) m2 else m2)"
        define s' where "s' = s\<lparr>kvm := v, kmem := m3, heap_end := heap_end s + W b\<rparr>"
        have run: "kmalloc_grow (W g) s = Some (Inr (True, s'))"
          using nz i(7) True grow lst by (simp add: al s'_def m3_def m2_def)
        have m: "seg m3 0 a (grow_blocks b bs) 0" "same_data (kmem s) m3 a bs"
          using ch unfolding bs m3_def m2_def adrW W_add by blast+
        have "unat (heap_end s + W b) = a + span bs + b" using lim i(5) unat_W [of b] by (simp add: bs)
        then have "kinv s' (grow_blocks b bs)"
          using i m(1) lim b' blocks_ok_grow [OF i(3) b'] inv \<open>bs \<noteq> []\<close> by (simp add: kinv_def s'_def a_def bs)
        then show thesis using grown [of s'] run m(2) adr True \<open>bs \<noteq> []\<close> unfolding s'_def b_def a_def by simp
      qed
    qed
  qed
qed

text \<open>The data areas of the blocks in use: address and length.\<close>

fun areas :: "nat \<Rightarrow> blk list \<Rightarrow> (nat \<times> nat) set" where
  "areas a [] = {}"
| "areas a ((u, n) # bs) = (if u then {(a + 32, n - 32)} else {}) \<union> areas (a + n) bs"

lemma areas_append [simp]: "areas a (xs @ ys) = areas a xs \<union> areas (a + span xs) ys"
  by (induction a xs rule: areas.induct) (auto simp: add.assoc)

lemma areas_inside: "blocks_ok bs \<Longrightarrow> (x, k) \<in> areas a bs \<Longrightarrow> a + 32 \<le> x \<and> x + k \<le> a + span bs"
  by (induction a bs rule: areas.induct) (fastforce split: if_splits)+

lemma areas_disjoint:
  "blocks_ok bs \<Longrightarrow> (x, k) \<in> areas a bs \<Longrightarrow> (y, l) \<in> areas a bs \<Longrightarrow> (x, k) \<noteq> (y, l) \<Longrightarrow> x + k \<le> y \<or> y + l \<le> x"
proof (induction a bs rule: areas.induct)
  case (2 a u n bs)
  then show ?case using areas_inside [of bs x k "a + n"] areas_inside [of bs y l "a + n"] by (auto split: if_splits)
qed simp

lemma same_data_areas:
  "blocks_ok bs \<Longrightarrow> same_data m m' a bs \<longleftrightarrow> (\<forall>(x, k) \<in> areas a bs. \<forall>y. x \<le> y \<and> y < x + k \<longrightarrow> m' (W y) = m (W y))"
  by (induction m m' a bs rule: same_data.induct) auto

text \<open>What becomes of a free block of length \<open>n\<close> when \<open>r\<close> bytes of it are taken.\<close>

definition carve :: "nat \<Rightarrow> nat \<Rightarrow> blk list" where
  "carve r n = (if r + 64 \<le> n then [(True, r), (False, n - r)] else [(True, n)])"

lemma span_carve [simp]: "span (carve r n) = n"
  by (simp add: carve_def)

lemma take_chunk_spec:
  assumes inv: "kinv s (xs @ (False, n) # ys)" and r: "32 \<le> r" "16 dvd r" "r \<le> n" "r + 64 < 18446744073709551616"
  obtains s' where "take_chunk (W r) (W (unat (heap_start s) + span xs)) s = (W (unat (heap_start s) + span xs + 32), s')"
    and "kinv s' (xs @ carve r n @ ys)" and "s' = s\<lparr>kmem := kmem s'\<rparr>"
    and "same_data (kmem s) (kmem s') (unat (heap_start s)) (xs @ (False, n) # ys)"
proof -
  define a where "a = unat (heap_start s)"
  define m where "m = kmem s"
  define A where "A = a + span xs"
  have i: "khead s = W a" "0 < a" "16 dvd a" "blocks_ok (xs @ (False, n) # ys)" "seg m 0 a (xs @ (False, n) # ys) 0"
      "unat (heap_end s) = a + span (xs @ (False, n) # ys)" "a + span (xs @ (False, n) # ys) < 18446744073709551616"
    using inv by (auto simp: kinv_def a_def m_def)
  have len: "m (W (A + 8)) = W n" using i(5) unfolding seg_middle header_def A_def by simp
  have le: "W r + sizeof_chunk + KMALLOC_MIN_SPLIT \<le> m (W A + 8) \<longleftrightarrow> r + 64 \<le> n"
    using i(7) r W_le [of "64 + r" n] by (auto simp: len)
  define m1 where "m1 = (if r + 64 \<le> n then ksplit (W A) (W r) m else m)"
  define m2 where "m2 = m1(W A := KMALLOC_STATE_USED)"
  define s' where "s' = s\<lparr>kmem := m2\<rparr>"
  have tk: "take_chunk (W r) (W A) s = (W (A + 32), s')"
    unfolding take_chunk_def m_def [symmetric] le by (simp add: Let_def s'_def m2_def m1_def)
  have tg: "KMALLOC_STATE_USED = tag True" by (simp add: tag_def)
  have "seg m2 0 a (xs @ carve r n @ ys) 0 \<and> blocks_ok (carve r n)"
  proof (cases "r + 64 \<le> n")
    case True
    have ok: "blocks_ok (xs @ (False, r) # (False, n - r) # ys)" "a + span (xs @ (False, r) # (False, n - r) # ys) < 18446744073709551616"
      using i(4,7) r True by (auto intro: dvd_diff_nat)
    have "seg m1 0 a (xs @ (False, r) # (False, n - r) # ys) 0"
      using ksplit_seg(1) [OF i(4,7,5) r(1,2) _ i(2)] True by (simp add: m1_def A_def)
    then show ?thesis using seg_set_state [OF ok, of m1 0 0 True] True ok unfolding m2_def tg A_def by (simp add: carve_def)
  next
    case False
    then show ?thesis using seg_set_state [OF i(4,7,5), of True] i(4) unfolding m2_def m1_def tg A_def by (simp add: carve_def)
  qed
  then have "kinv s' (xs @ carve r n @ ys)"
    using i inv by (auto simp: kinv_def s'_def a_def carve_def)
  moreover have "same_data m m2 a (xs @ (False, n) # ys)"
  proof -
    have "same_data m m1 a (xs @ (False, n) # ys)"
      using ksplit_seg(2) [OF i(4,7,5) r(1,2) _ i(2)] by (simp add: m1_def A_def)
    then show ?thesis using same_data_hit [OF i(4,7), of 0 m m1] r unfolding m2_def A_def by (simp del: fun_upd_apply)
  qed
  ultimately show thesis using that [of s'] tk by (simp add: a_def A_def m_def s'_def)
qed


section \<open>Properties\<close>

text \<open>The bytes a request takes: its size rounded up to 16, and a header.\<close>

definition required :: "u64 \<Rightarrow> nat" where
  "required sz = round_up 16 (unat sz) + 32"

definition grow_bytes :: "nat \<Rightarrow> nat" where
  "grow_bytes r = round_up 4096 (max r 65536)"

lemma required_facts:
  assumes "0 < unat sz"
  shows "unat sz + 32 \<le> required sz" "required sz < unat sz + 48" "32 \<le> required sz" "16 dvd required sz"
  using round_up_bounds [of 16 "unat sz"] assms by (auto simp: required_def)

lemma grow_bytes_facts: "r \<le> grow_bytes r" "65536 \<le> grow_bytes r" "grow_bytes r < max r 65536 + 4096"
  using round_up_bounds [of 4096 "max r 65536"] by (auto simp: grow_bytes_def)

lemma kinv_find:
  assumes "kinv s bs" and "r < 18446744073709551616"
  shows "find_chunk (kmem s) (W r) (khead s) =
    Some (case first_fit r bs of None \<Rightarrow> 0 | Some (xs, n, ys) \<Rightarrow> W (unat (heap_start s) + span xs))"
  using find_chunk_spec [OF assms(2), of "kmem s" 0 "unat (heap_start s)" bs] assms(1)
  by (cases "bs = []") (auto simp: kinv_def find_chunk.simps)

lemma first_fit_addr:
  assumes "kinv s bs" and "first_fit r bs = Some (xs, n, ys)"
  shows "W (unat (heap_start s) + span xs) \<noteq> 0"
proof -
  have "unat (heap_start s) + span xs < 18446744073709551616" "0 < unat (heap_start s)"
    using assms(1) first_fit_Some [OF assms(2)] by (auto simp: kinv_def)
  then show ?thesis by (simp add: W_zero_iff)
qed

lemma first_fit_grow:
  assumes "r \<le> b"
  obtains xs n ys where "first_fit r (grow_blocks b bs) = Some (xs, n, ys)"
proof -
  have "first_fit r (grow_blocks b bs) \<noteq> None"
    unfolding first_fit_None using assms by (cases bs rule: rev_cases) (auto simp: grow_blocks_def)
  then show thesis using that by auto
qed

text \<open>
  The outcome of \<open>kmalloc\<close> on the blocks \<open>bs\<close>: a block carved out of the first free block that is large
  enough, in the heap as it is or grown.
\<close>

definition taken :: "nat \<Rightarrow> kheap \<Rightarrow> blk list \<Rightarrow> u64 \<Rightarrow> kheap \<Rightarrow> bool" where
  "taken r s bs p s' \<longleftrightarrow> (\<exists>xs n ys. first_fit r bs = Some (xs, n, ys) \<and> p = heap_start s' + W (span xs + 32) \<and>
     kinv s' (xs @ carve r n @ ys) \<and> s' = s\<lparr>kmem := kmem s'\<rparr> \<and> same_data (kmem s) (kmem s') (unat (heap_start s)) bs)"

lemma take_first_fit:
  assumes "kinv s bs" and "first_fit r bs = Some (xs, n, ys)" and "32 \<le> r" "16 dvd r" "r + 64 < 18446744073709551616"
  obtains p s' where "take_chunk (W r) (W (unat (heap_start s) + span xs)) s = (p, s')" "taken r s bs p s'"
proof -
  have bs: "bs = xs @ (False, n) # ys" "r \<le> n" using first_fit_Some [OF assms(2)] by auto
  from take_chunk_spec [OF assms(1) [unfolded bs(1)] assms(3,4) bs(2) assms(5)]
  obtain s' where s': "take_chunk (W r) (W (unat (heap_start s) + span xs)) s = (W (unat (heap_start s) + span xs + 32), s')"
     "kinv s' (xs @ carve r n @ ys)" "s' = s\<lparr>kmem := kmem s'\<rparr>"
     "same_data (kmem s) (kmem s') (unat (heap_start s)) bs"
    unfolding bs(1) by blast
  have "heap_start s' = heap_start s" by (subst s'(3)) simp
  then have "W (unat (heap_start s) + span xs + 32) = heap_start s' + W (span xs + 32)" by (simp add: W_def)
  then show thesis using that s' assms(2) by (auto simp: taken_def)
qed

lemma grow_size_W:
  assumes "r < 18446744073709551616"
  shows "(if W r < 16 * PAGE_SIZE then 16 * PAGE_SIZE else W r) = W (max r 65536)"
  using assms unat_of_nat_u64 [of r] by (auto simp: word_less_nat_alt max_def W_def not_le)

lemma kmalloc_cases:
  assumes inv: "kinv s bs" and sz: "0 < unat sz" "unat sz < 18446744073709481616"
    and v: "first_fit (required sz) bs = None \<longrightarrow> vallocs True (W (grow_bytes (required sz) div 4096)) (kvm s) = Inr (adr, v)"
    and nv: "16 dvd unat (next_virt (kvm s))" "unat (next_virt (kvm s)) + unat sz + 70000 < 18446744073709551616"
  obtains (fit) p s' where "kmalloc sz s = Some (Inr (p, s'))" "taken (required sz) s bs p s'"
  | (none) s' where "kmalloc sz s = Some (Inr (0, s'))" "first_fit (required sz) bs = None" "s' = s\<lparr>kvm := kvm s'\<rparr>"
      "adr = 0 \<or> adr \<noteq> heap_end s \<and> bs \<noteq> []"
  | (grown) p s1 s' where "kmalloc sz s = Some (Inr (p, s'))" "first_fit (required sz) bs = None"
      "kinv s1 (grow_blocks (grow_bytes (required sz)) bs)" "taken (required sz) s1 (grow_blocks (grow_bytes (required sz)) bs) p s'"
      "kvm s1 = v" "heap_end s1 = next_virt (kvm s) + W (grow_bytes (required sz))" "bs \<noteq> [] \<Longrightarrow> heap_start s1 = heap_start s"
      "bs \<noteq> [] \<Longrightarrow> same_data (kmem s) (kmem s1) (unat (heap_start s)) bs"
proof -
  define r where "r = required sz"
  note rf = required_facts [OF sz(1), folded r_def]
  have r64: "r + 64 < 18446744073709551616" "r < 18446744073709551616" using rf(2) sz(2) by linarith+
  have req: "align_up sz KMALLOC_ALIGNMENT + sizeof_chunk = W r"
    using align_up_W(2) [of "unat sz"] sz(2) by (simp add: r_def required_def)
  have nz: "sz \<noteq> 0" using sz(1) by auto
  have gs: "(if W r < 16 * PAGE_SIZE then 16 * PAGE_SIZE else W r) = W (max r 65536)" by (rule grow_size_W [OF r64(2)])
  note km = kmalloc_def [of sz s, unfolded req Let_def gs]
  show thesis
  proof (cases "first_fit r bs")
    case (Some f)
    obtain xs n ys where f: "f = (xs, n, ys)" by (cases f) auto
    from take_first_fit [OF inv Some [unfolded f] rf(3,4) r64(1)] obtain p s' where
      t: "take_chunk (W r) (W (unat (heap_start s) + span xs)) s = (p, s')" "taken r s bs p s'" .
    then show thesis using fit [of p s'] km nz first_fit_addr [OF inv Some [unfolded f]] kinv_find [OF inv r64(2)] Some
      by (simp add: f r_def [symmetric])
  next
    case None
    let ?g = "max r 65536"
    have g: "0 < ?g" "?g + 4096 < 18446744073709551616" "round_up 4096 ?g = grow_bytes r"
      "unat (next_virt (kvm s)) + round_up 4096 ?g < 18446744073709551616"
      using rf(2) sz(2) nv(2) grow_bytes_facts(3) [of r] by (auto simp: grow_bytes_def)
    have find0: "find_chunk (kmem s) (W r) (khead s) = Some 0" using kinv_find [OF inv r64(2)] None by simp
    have v': "vallocs True (W (round_up 4096 ?g div 4096)) (kvm s) = Inr (adr, v)"
      using v None by (simp add: r_def [symmetric] g(3))
    show thesis
    proof (cases rule: kmalloc_grow_cases [OF inv g(1,2) v' nv(1) g(4)])
      case (1 s')
      then show thesis using none [of s'] km nz find0 None by (simp add: r_def [symmetric])
    next
      case (2 s1)
      obtain xs n ys where ff: "first_fit r (grow_blocks (grow_bytes r) bs) = Some (xs, n, ys)"
        by (rule first_fit_grow [OF grow_bytes_facts(1)])
      note i1 = 2(2) [unfolded g(3)]
      from take_first_fit [OF i1 ff rf(3,4) r64(1)] obtain p s' where
        t: "take_chunk (W r) (W (unat (heap_start s1) + span xs)) s1 = (p, s')"
           "taken r s1 (grow_blocks (grow_bytes r) bs) p s'" .
      have "kmalloc sz s = Some (Inr (p, s'))"
        using km nz find0 2(1) kinv_find [OF i1 r64(2)] ff first_fit_addr [OF i1 ff] t(1) by simp
      then show thesis using grown [of p s' s1] None i1 t(2) 2 g(3) by (simp add: r_def [symmetric])
    qed
  qed
qed

lemma taken_start: "taken r s bs p s' \<Longrightarrow> heap_start s' = heap_start s \<and> heap_end s' = heap_end s \<and> kvm s' = kvm s"
proof -
  assume "taken r s bs p s'"
  then have "s' = s\<lparr>kmem := kmem s'\<rparr>" by (auto simp: taken_def)
  then show ?thesis by (metis kheap.select_convs(2,3,5) kheap.surjective kheap.update_convs(4))
qed

lemma taken_nonnull: "taken r s bs p s' \<Longrightarrow> p \<noteq> 0"
proof -
  assume "taken r s bs p s'"
  then obtain xs n ys where t: "p = heap_start s' + W (span xs + 32)" "kinv s' (xs @ carve r n @ ys)"
    by (auto simp: taken_def)
  have "0 < n" using t(2) by (auto simp: kinv_def carve_def split: if_splits)
  then have "0 < unat (heap_start s')" "unat (heap_start s') + span xs + 32 < 18446744073709551616"
    using t(2) by (auto simp: kinv_def carve_def split: if_splits)
  moreover have "p = W (unat (heap_start s') + span xs + 32)" using t(1) by (simp add: W_def)
  ultimately show "p \<noteq> 0" by (simp add: W_zero_iff)
qed

lemma kmalloc_grow_panic:
  assumes "vallocs True (W (grow_bytes r div 4096)) (kvm s) = Inl h" and "r + 4096 < 18446744073709551616"
  shows "kmalloc_grow (W (max r 65536)) s = Some (Inl h)"
proof -
  have "max r 65536 + 4096 < 18446744073709551616" using assms(2) by simp
  note al = align_up_W(1) [OF this]
  have "grow_bytes r < 18446744073709551616" using grow_bytes_facts(3) [of r] assms(2) by linarith
  then have "unat (W (grow_bytes r) div PAGE_SIZE) = grow_bytes r div 4096" by (simp add: unat_div unat_W)
  then have "W (grow_bytes r) div PAGE_SIZE = W (grow_bytes r div 4096)" by (metis W_unat)
  then show ?thesis using assms(1) al by (simp add: kmalloc_grow_def Let_def grow_bytes_def)
qed

lemma kmalloc_panic:
  assumes inv: "kinv s bs" and sz: "0 < unat sz" "unat sz + 70000 < 18446744073709551616"
    and "first_fit (required sz) bs = None" and "vallocs True (W (grow_bytes (required sz) div 4096)) (kvm s) = Inl h"
  shows "kmalloc sz s = Some (Inl h)"
proof -
  define r where "r = required sz"
  have r: "r < unat sz + 48" using required_facts(2) [OF sz(1)] by (simp add: r_def)
  then have r64: "r < 18446744073709551616" using sz(2) by linarith
  have req: "align_up sz KMALLOC_ALIGNMENT + sizeof_chunk = W r"
    using align_up_W(2) [of "unat sz"] sz(2) by (simp add: r_def required_def)
  have gs: "(if W r < 16 * PAGE_SIZE then 16 * PAGE_SIZE else W r) = W (max r 65536)" by (rule grow_size_W [OF r64])
  have "kmalloc_grow (W (max r 65536)) s = Some (Inl h)"
    by (rule kmalloc_grow_panic) (use assms(5) r sz(2) in \<open>auto simp: r_def\<close>)
  moreover have "sz \<noteq> 0" using sz(1) by auto
  ultimately show ?thesis
    using kinv_find [OF inv r64] assms(4) unfolding kmalloc_def req Let_def gs by (simp add: r_def [symmetric])
qed

text \<open>
  C26. \<open>kmalloc\<close> is first fit. On a heap of blocks \<open>bs\<close> it always returns (the searches end), and
  stops the machine only if \<open>vallocs\<close> does. When it returns an address, a block was carved out of
  the first free block that is large enough, in the heap as it was or, only if it has no such block,
  in the heap grown by whole pages, at least 16 of them; the headers describe the new list of blocks.
  When it returns NULL no block fits and neither the blocks nor any memory changed.
\<close>

theorem kmalloc_first_fit:
  assumes inv: "kinv s bs" and sz: "0 < unat sz"
    and nv: "16 dvd unat (next_virt (kvm s))" "unat (next_virt (kvm s)) + unat sz + 70000 < 18446744073709551616"
  defines "r \<equiv> required sz"
  shows "case kmalloc sz s of
      None \<Rightarrow> False
    | Some (Inl h) \<Rightarrow> first_fit r bs = None \<and> vallocs True (W (grow_bytes r div 4096)) (kvm s) = Inl h
    | Some (Inr (p, s')) \<Rightarrow>
        if p = 0 then first_fit r bs = None \<and> kinv s' bs \<and> kmem s' = kmem s
        else \<exists>bs1 xs n ys. (bs1 = bs \<or> first_fit r bs = None \<and> bs1 = grow_blocks (grow_bytes r) bs) \<and>
          first_fit r bs1 = Some (xs, n, ys) \<and> kinv s' (xs @ carve r n @ ys) \<and> p = heap_start s' + W (span xs + 32) \<and>
          (bs \<noteq> [] \<longrightarrow> heap_start s' = heap_start s)"
proof (cases "first_fit r bs = None \<and> (\<exists>h. vallocs True (W (grow_bytes r div 4096)) (kvm s) = Inl h)")
  case True
  then obtain h where h: "first_fit r bs = None" "vallocs True (W (grow_bytes r div 4096)) (kvm s) = Inl h" by blast
  from kmalloc_panic [OF inv sz _ h [unfolded r_def]] nv(2) have "kmalloc sz s = Some (Inl h)" by simp
  then show ?thesis using h by simp
next
  case False
  then obtain adr v where v: "first_fit r bs = None \<longrightarrow> vallocs True (W (grow_bytes r div 4096)) (kvm s) = Inr (adr, v)"
    by (cases "vallocs True (W (grow_bytes r div 4096)) (kvm s)") auto
  have sz': "unat sz < 18446744073709481616" using nv(2) by linarith
  show ?thesis
  proof (cases rule: kmalloc_cases [OF inv sz sz' v [unfolded r_def] nv])
    case (1 p s')
    then show ?thesis using taken_nonnull [OF 1(2)] taken_start [OF 1(2)] by (auto simp: taken_def r_def)
  next
    case (2 s')
    have "kinv s' bs" by (subst 2(3)) (use inv in \<open>simp add: kinv_def\<close>)
    moreover have "kmem s' = kmem s" by (subst 2(3)) simp
    ultimately show ?thesis using 2(1,2) by (simp add: r_def)
  next
    case (3 p s1 s')
    then show ?thesis using taken_nonnull [OF 3(4)] taken_start [OF 3(4)] by (auto simp: taken_def r_def)
  qed
qed

text \<open>A heap of 16 pages with one free block, after the first growth.\<close>

definition demo_heap :: kheap where
  "demo_heap = \<lparr>khead = 0xFFFFFFFE00000000, heap_start = 0xFFFFFFFE00000000, heap_end = 0xFFFFFFFE00010000,
     kmem = (\<lambda>_. 0)(0xFFFFFFFE00000000 := KMALLOC_STATE_FREE, 0xFFFFFFFE00000008 := 0x10000), kvm = vm0\<rparr>"

lemma demo_heap_inv: "kinv demo_heap [(False, 65536)]"
  by (simp add: kinv_def demo_heap_def header_def W_def tag_def)

lemma demo_heap_brk: "unat (next_virt (kvm demo_heap)) = 18446744065119617024"
  by (simp add: demo_heap_def vm0_def)

theorem kmalloc_first_fit_witness:
  "\<exists>s'. kmalloc 100 demo_heap = Some (Inr (0xFFFFFFFE00000020, s')) \<and> kinv s' [(True, 144), (False, 65392)]"
proof -
  have k: "required 100 = 144" "first_fit 144 [(False, 65536)] = Some ([], 65536, [])" "carve 144 65536 = [(True, 144), (False, 65392)]"
    by (simp_all add: required_def round_up_def carve_def)
  have n: "16 dvd unat (next_virt (kvm demo_heap))" "unat (next_virt (kvm demo_heap)) + unat (100 :: u64) + 70000 < 18446744073709551616"
    by (simp_all add: demo_heap_brk)
  have h: "heap_start demo_heap = 0xFFFFFFFE00000000" "W 32 = 32" by (simp_all add: demo_heap_def W_def)
  from kmalloc_first_fit [OF demo_heap_inv _ n, unfolded k] show ?thesis
    by (auto simp: k h split: option.splits sum.splits if_splits)
qed


lemma areas_grow_blocks [simp]: "areas a (grow_blocks b bs) = areas a bs"
  by (cases bs rule: rev_cases) (auto simp: grow_blocks_def)

lemma taken_areas:
  assumes "taken r s bs p s'" and "kinv s bs" and "32 \<le> r"
  obtains bs' k where "kinv s' bs'" "areas (unat (heap_start s')) bs' = insert (unat p, k) (areas (unat (heap_start s)) bs)"
    "r - 32 \<le> k" "16 dvd unat p" "unat p + k \<le> unat (heap_end s')" "\<forall>(x, l) \<in> areas (unat (heap_start s)) bs. x + l \<le> unat p \<or> unat p + k \<le> x"
proof -
  define a where "a = unat (heap_start s)"
  obtain xs n ys where t: "first_fit r bs = Some (xs, n, ys)" "p = heap_start s' + W (span xs + 32)"
     "kinv s' (xs @ carve r n @ ys)"
    using assms(1) by (auto simp: taken_def)
  have bs: "bs = xs @ (False, n) # ys" "r \<le> n" using first_fit_Some [OF t(1)] by auto
  have i: "16 dvd a" "blocks_ok bs" "a + span bs < 18446744073709551616" "unat (heap_end s) = a + span bs"
    using assms(2) bs by (auto simp: kinv_def a_def)
  have n: "32 \<le> n" "blocks_ok xs" "blocks_ok ys" using i(2) by (auto simp: bs)
  have p: "unat p = a + span xs + 32"
    using i(3) n(1) unat_W [of "span xs + 32"] taken_start [OF assms(1)] by (simp add: t(2) a_def bs)
  define k where "k = (if r + 64 \<le> n then r else n) - 32"
  have ar: "areas a (xs @ carve r n @ ys) = insert (unat p, k) (areas a bs)"
    unfolding p k_def bs(1) by (auto simp: carve_def add.assoc)
  have "16 dvd span xs" using n(2) by (induction xs) auto
  then have al: "16 dvd unat p" unfolding p using i(1) by (intro dvd_add) auto
  have end': "unat p + k \<le> unat (heap_end s')"
    using p bs(2) n(1) i(4) taken_start [OF assms(1)] by (auto simp: k_def bs(1))
  have dis: "\<forall>(x, l) \<in> areas a bs. x + l \<le> unat p \<or> unat p + k \<le> x"
  proof clarify
    fix x l
    assume "(x, l) \<in> areas a bs" and far: "\<not> unat p + k \<le> x"
    then consider "(x, l) \<in> areas a xs" | "(x, l) \<in> areas (a + span xs + n) ys" by (auto simp: bs(1))
    then show "x + l \<le> unat p"
    proof cases
      case 1
      then show ?thesis using areas_inside [OF n(2)] p by fastforce
    next
      case 2
      then have "a + span xs + n + 32 \<le> x" using areas_inside [OF n(3)] by blast
      then show ?thesis using far p bs(2) n(1) by (simp add: k_def split: if_splits)
    qed
  qed
  show thesis
    using that [OF t(3), of k] ar al end' dis bs(2) taken_start [OF assms(1)] by (cases "r + 64 \<le> n") (simp_all add: k_def a_def)
qed

lemma kmalloc_fresh:
  assumes inv: "kinv s bs" and sz: "0 < unat sz"
    and nv: "16 dvd unat (next_virt (kvm s))" "unat (next_virt (kvm s)) + unat sz + 70000 < 18446744073709551616"
    and run: "kmalloc sz s = Some (Inr (p, s'))" "p \<noteq> 0"
  defines "A \<equiv> areas (unat (heap_start s)) bs"
  shows "\<exists>bs' k. kinv s' bs' \<and> areas (unat (heap_start s')) bs' = insert (unat p, k) A \<and>
    unat sz \<le> k \<and> 16 dvd unat p \<and> unat p + k \<le> unat (heap_end s') \<and>
    (\<forall>(x, l) \<in> A. x + l \<le> unat p \<or> unat p + k \<le> x) \<and>
    (\<forall>(x, l) \<in> A. \<forall>y. x \<le> y \<and> y < x + l \<longrightarrow> kmem s' (word_of_nat y) = kmem s (word_of_nat y))"
proof -
  define r where "r = required sz"
  note rf = required_facts [OF sz, folded r_def]
  have sz': "unat sz < 18446744073709481616" "unat sz + 70000 < 18446744073709551616" using nv(2) by linarith+
  have "\<exists>adr v. first_fit r bs = None \<longrightarrow> vallocs True (W (grow_bytes r div 4096)) (kvm s) = Inr (adr, v)"
    using kmalloc_panic [OF inv sz sz'(2)] run(1)
    by (cases "vallocs True (W (grow_bytes r div 4096)) (kvm s)"; cases "first_fit r bs") (auto simp: r_def)
  then obtain adr v where v: "first_fit r bs = None \<longrightarrow> vallocs True (W (grow_bytes r div 4096)) (kvm s) = Inr (adr, v)" by auto
  obtain s1 bs1 where t: "taken r s1 bs1 p s'" "kinv s1 bs1"
    and ar: "areas (unat (heap_start s1)) bs1 = A" and sd: "same_data (kmem s) (kmem s1) (unat (heap_start s)) bs"
    and sb: "same_data (kmem s1) (kmem s') (unat (heap_start s1)) bs1"
  proof (cases rule: kmalloc_cases [OF inv sz sz'(1) v [unfolded r_def] nv])
    case (1 q t)
    with run that [of s bs] inv show thesis by (auto simp: r_def taken_def A_def)
  next
    case (2 t)
    with run show thesis by simp
  next
    case (3 q s1 t)
    have "areas (unat (heap_start s1)) (grow_blocks (grow_bytes r) bs) = A"
      using 3(7) by (cases "bs = []") (simp_all add: A_def)
    moreover have "same_data (kmem s) (kmem s1) (unat (heap_start s)) bs" using 3(8) by (cases "bs = []") simp_all
    moreover have "same_data (kmem s1) (kmem t) (unat (heap_start s1)) (grow_blocks (grow_bytes r) bs)"
      using 3(4) by (auto simp: taken_def r_def)
    ultimately show thesis using that 3(1,3,4) run by (simp add: r_def)
  qed
  have ok: "blocks_ok bs" "blocks_ok bs1" using inv t(2) by (auto simp: kinv_def split: if_splits)
  have data: "\<forall>(x, l) \<in> A. \<forall>y. x \<le> y \<and> y < x + l \<longrightarrow> kmem s' (W y) = kmem s (W y)"
    using sd sb unfolding same_data_areas [OF ok(1)] same_data_areas [OF ok(2)] ar A_def [symmetric] by fastforce
  from taken_areas [OF t rf(3), unfolded ar] obtain bs' k where
    "kinv s' bs'" "areas (unat (heap_start s')) bs' = insert (unat p, k) A" "r - 32 \<le> k" "16 dvd unat p"
    "unat p + k \<le> unat (heap_end s')" "\<forall>(x, l) \<in> A. x + l \<le> unat p \<or> unat p + k \<le> x" by blast
  with rf(1) data show ?thesis by (intro exI [of _ bs'] exI [of _ k]) (simp add: W_def)
qed

text \<open>
  C27. What \<open>kmalloc\<close> hands out is fresh: when it returns an address \<open>p\<close>, the areas in use are the old
  ones and one new area at \<open>p\<close>, which is aligned to 16, holds the requested bytes, lies below the end
  of the heap and overlaps none of the old areas; and no byte of the old areas changed.
\<close>

theorem kmalloc_fresh_area:
  assumes inv: "kinv s bs" and sz: "0 < unat sz"
    and nv: "16 dvd unat (next_virt (kvm s))" "unat (next_virt (kvm s)) + unat sz + 70000 < 18446744073709551616"
    and run: "kmalloc sz s = Some (Inr (p, s'))" "p \<noteq> 0"
  defines "A \<equiv> areas (unat (heap_start s)) bs"
  shows "\<exists>bs' k. kinv s' bs' \<and> areas (unat (heap_start s')) bs' = insert (unat p, k) A \<and>
    unat sz \<le> k \<and> 16 dvd unat p \<and> unat p + k \<le> unat (heap_end s') \<and>
    (\<forall>(x, l) \<in> A. x + l \<le> unat p \<or> unat p + k \<le> x) \<and>
    (\<forall>(x, l) \<in> A. \<forall>y. x \<le> y \<and> y < x + l \<longrightarrow> kmem s' (word_of_nat y) = kmem s (word_of_nat y))"
  unfolding A_def by (rule kmalloc_fresh [OF assms(1-6)])

theorem kmalloc_fresh_area_witness:
  "\<exists>s' bs' k. kmalloc 100 demo_heap = Some (Inr (0xFFFFFFFE00000020, s')) \<and> kinv s' bs' \<and>
     areas (unat (heap_start s')) bs' = {(18446744065119617056, k)} \<and> 100 \<le> k"
proof -
  have k: "required 100 = 144" "first_fit 144 [(False, 65536)] = Some ([], 65536, [])"
    by (simp_all add: required_def round_up_def)
  have n: "16 dvd unat (next_virt (kvm demo_heap))" "unat (next_virt (kvm demo_heap)) + unat (100 :: u64) + 70000 < 18446744073709551616"
    by (simp_all add: demo_heap_brk)
  have h: "align_up 100 KMALLOC_ALIGNMENT + sizeof_chunk = W 144" "W (unat (heap_start demo_heap)) = 0xFFFFFFFE00000000"
    by (simp_all add: align_up_def W_def demo_heap_def)
  have "find_chunk (kmem demo_heap) (W 144) (khead demo_heap) = Some 0xFFFFFFFE00000000"
    using kinv_find [OF demo_heap_inv, of 144] k(2) h(2) by simp
  then obtain s' where run: "kmalloc 100 demo_heap = Some (Inr (0xFFFFFFFE00000020, s'))"
    by (simp add: kmalloc_def h take_chunk_def Let_def)
  from kmalloc_fresh_area [OF demo_heap_inv _ n run] obtain bs' k where
    "kinv s' bs'" "areas (unat (heap_start s')) bs' = {(unat (0xFFFFFFFE00000020 :: u64), k)}" "unat (100 :: u64) \<le> k"
    by auto
  then show ?thesis using run by auto
qed

section \<open>Freeing\<close>

text \<open>
  A freed block joins the block before it when that one is free, otherwise the block after it when
  that one is free.
\<close>

definition free_blocks :: "blk list \<Rightarrow> nat \<Rightarrow> blk list \<Rightarrow> blk list" where
  "free_blocks xs n ys =
     (if xs \<noteq> [] \<and> \<not> fst (last xs) then butlast xs @ (False, snd (last xs) + n) # ys
      else if ys \<noteq> [] \<and> \<not> fst (hd ys) then xs @ (False, n + snd (hd ys)) # tl ys
      else xs @ (False, n) # ys)"

text \<open>Both neighbours are free and a further block follows.\<close>

definition stale_link :: "blk list \<Rightarrow> blk list \<Rightarrow> bool" where
  "stale_link xs ys \<longleftrightarrow> xs \<noteq> [] \<and> \<not> fst (last xs) \<and> ys \<noteq> [] \<and> \<not> fst (hd ys) \<and> tl ys \<noteq> []"

lemma free_blocks_span [simp]: "span (free_blocks xs n ys) = span xs + n + span ys"
  by (cases xs rule: rev_cases; cases ys) (auto simp: free_blocks_def)

lemma free_blocks_ok: "blocks_ok (xs @ (True, n) # ys) \<Longrightarrow> blocks_ok (free_blocks xs n ys)"
  by (cases xs rule: rev_cases; cases ys) (auto simp: free_blocks_def)

lemma free_blocks_areas: "areas a (free_blocks xs n ys) = areas a xs \<union> areas (a + span xs + n) ys"
  by (cases xs rule: rev_cases; cases ys) (auto simp: free_blocks_def add.assoc)

lemma seg_free_upd:
  assumes "blocks_ok (xs @ (u, n) # ys)" and "a + span (xs @ (u, n) # ys) < 18446744073709551616"
    and "seg m p a (xs @ (u, n) # ys) z" and "32 \<le> k" "k < n"
  shows "seg (m(W (a + span xs + k) := v)) p a (xs @ (u, n) # ys) z"
proof -
  have "header (m(W (a + span xs + k) := v)) (a + span xs) u n x q = header m (a + span xs) u n x q" for x q
    using assms(2,4,5) by (simp add: header_def W_eq)
  then show ?thesis using assms(3) seg_upd_middle [OF assms(1,2,5)] unfolding seg_middle by (simp del: fun_upd_apply)
qed

text \<open>The header of a block that was joined to the one before it stays in memory.\<close>

lemma kfree_prev_free:
  assumes ok: "blocks_ok (xs @ (False, k) # (False, n) # ys)"
    and lim: "a + span (xs @ (False, k) # (False, n) # ys) < 18446744073709551616"
    and sg: "seg m p a (xs @ (False, k) # (False, n) # ys) 0" and "0 < a"
  defines "C \<equiv> a + span xs + k"
  defines "m2 \<equiv> kmerge_next (W (a + span xs)) m"
  shows "header m2 C False n (succ_addr (C + n) ys) (a + span xs)"
    and "ys = [] \<or> fst (hd ys) \<or> tl ys = [] \<Longrightarrow>
      seg (kmerge_next (W C) m2) p a (xs @ (False, k + n) # ys) 0 \<and>
      same_data m (kmerge_next (W C) m2) a (xs @ (False, k) # (False, n) # ys)"
proof -
  define A where "A = a + span xs"
  have h: "header m A False k (succ_addr (A + k) ((False, n) # ys)) (last_addr p a xs)"
      "header m C False n (succ_addr (C + n) ys) A"
    using sg unfolding seg_middle A_def C_def by (auto split: if_splits)
  have kn: "32 \<le> k" "32 \<le> n" "blocks_ok ys" using ok by auto
  have m2: "m2 = link_prev (C + n) ys A (m(W (A + 8) := W (k + n), W (A + 16) := W (succ_addr (C + n) ys)))"
    unfolding m2_def C_def A_def [symmetric]
    by (rule kmerge_next_eq) (use h kn lim \<open>0 < a\<close> in \<open>auto simp: A_def C_def\<close>)
  show hC: "header m2 C False n (succ_addr (C + n) ys) (a + span xs)"
    using h(2) kn lim unfolding m2 header_def by (simp add: link_prev_frame W_eq A_def C_def)
  have s2: "seg m2 p a (xs @ (False, k + n) # ys) 0" "same_data m m2 a (xs @ (False, k) # (False, n) # ys)"
    using kmerge_next_seg [OF ok lim sg \<open>0 < a\<close>] by (simp_all add: m2_def)
  have ok': "blocks_ok (xs @ (False, k + n) # ys)" "a + span (xs @ (False, k + n) # ys) < 18446744073709551616"
    using ok lim by auto
  have C: "W C \<noteq> 0" "a + span xs + (k + 8) = C + 8" "a + span xs + (k + 16) = C + 16"
    using lim \<open>0 < a\<close> by (auto simp: C_def W_zero_iff)
  assume "ys = [] \<or> fst (hd ys) \<or> tl ys = []"
  then consider "ys = [] \<or> fst (hd ys)" | l where "ys = [(False, l)]"
    by (metis (full_types) list.collapse prod.collapse)
  then show "seg (kmerge_next (W C) m2) p a (xs @ (False, k + n) # ys) 0 \<and>
      same_data m (kmerge_next (W C) m2) a (xs @ (False, k) # (False, n) # ys)"
  proof cases
    case 1
    have "kmerge_next (W C) m2 = m2"
    proof (cases ys)
      case Nil
      then show ?thesis using hC by (simp add: kmerge_next_def header_def Let_def)
    next
      case (Cons y zs)
      then have "m2 (W (C + n)) = tag True"
        using s2(1) 1 unfolding seg_middle by (cases y) (auto simp: header_def C_def add.assoc)
      then show ?thesis using hC Cons by (simp add: kmerge_next_def header_def Let_def tag_def)
    qed
    then show ?thesis using s2 by simp
  next
    case 2
    have hN: "header m2 (C + n) False l 0 A"
      using s2(1) unfolding seg_middle 2 by (simp add: C_def A_def add.assoc)
    have "W (C + n) \<noteq> 0" using lim \<open>0 < a\<close> by (simp add: C_def W_zero_iff)
    then have "kmerge_next (W C) m2 = m2(W (C + 8) := W (n + l), W (C + 16) := 0)"
      using hC hN C(1) kn lim by (simp add: kmerge_next_def header_def Let_def tag_def 2 W_eq C_def)
    moreover have "seg (m2(W (C + 8) := W (n + l), W (C + 16) := 0)) p a (xs @ (False, k + n) # ys) 0"
      using seg_free_upd [OF ok' seg_free_upd [OF ok' s2(1), of "k + 8"], of "k + 16"] kn by (simp add: C del: fun_upd_apply)
    moreover have "same_data m (m2(W (C + 8) := W (n + l), W (C + 16) := 0)) a (xs @ (False, k) # (False, n) # ys)"
      using s2(2) same_data_hit [of "xs @ [(False, k)]" False n ys a 8 m] same_data_hit [of "xs @ [(False, k)]" False n ys a 16 m] ok lim kn
      by (simp add: C_def add.assoc [symmetric] del: fun_upd_apply)
    ultimately show ?thesis by simp
  qed
qed

lemma merge_or_idle:
  assumes "blocks_ok (xs @ (False, n) # ys)" and "a + span (xs @ (False, n) # ys) < 18446744073709551616"
    and "seg m p a (xs @ (False, n) # ys) 0" and "0 < a"
  shows "seg (kmerge_next (W (a + span xs)) m) p a
      (if ys \<noteq> [] \<and> \<not> fst (hd ys) then xs @ (False, n + snd (hd ys)) # tl ys else xs @ (False, n) # ys) 0 \<and>
    same_data m (kmerge_next (W (a + span xs)) m) a (xs @ (False, n) # ys)"
proof (cases "ys \<noteq> [] \<and> \<not> fst (hd ys)")
  case True
  then obtain l zs where "ys = (False, l) # zs" by (metis (full_types) list.collapse prod.collapse)
  then show ?thesis using kmerge_next_seg [of xs n l zs a m p] assms by simp
next
  case False
  then show ?thesis using kmerge_next_idle [OF assms(3) _ assms(2,1)] assms(3) by auto
qed

lemma kfree_seg:
  assumes inv: "kinv s (xs @ (True, n) # ys)" and no: "\<not> stale_link xs ys"
  defines "a \<equiv> unat (heap_start s)"
  shows "seg (kmem (kfree (W (a + span xs + 32)) s)) 0 a (free_blocks xs n ys) 0 \<and>
    same_data (kmem s) (kmem (kfree (W (a + span xs + 32)) s)) a (xs @ (False, n) # ys)"
proof -
  define m where "m = kmem s"
  define C where "C = a + span xs"
  define m1 where "m1 = m(W C := KMALLOC_STATE_FREE)"
  have i: "0 < a" "blocks_ok (xs @ (True, n) # ys)" "a + span (xs @ (True, n) # ys) < 18446744073709551616"
      "seg m 0 a (xs @ (True, n) # ys) 0"
    using inv by (auto simp: kinv_def a_def m_def)
  have i': "blocks_ok (xs @ (False, n) # ys)" "a + span (xs @ (False, n) # ys) < 18446744073709551616" using i by simp_all
  have tg: "KMALLOC_STATE_FREE = tag False" by (simp add: tag_def)
  have h: "header m C True n (succ_addr (C + n) ys) (last_addr 0 a xs)"
    using i(4) unfolding seg_middle C_def by simp
  have s1: "seg m1 0 a (xs @ (False, n) # ys) 0"
    using seg_set_state [OF i(2,3,4), of False] unfolding m1_def C_def tg by simp
  have d1: "same_data m m1 a (xs @ (False, n) # ys)"
    using same_data_hit [OF i', of 0 m m] i(2) unfolding m1_def C_def by (simp del: fun_upd_apply)
  have pv: "m1 (W (C + 24)) = W (last_addr 0 a xs)"
    using s1 unfolding seg_middle C_def header_def by simp
  have "W (C + 32) - sizeof_chunk = W C" "W (C + 32) \<noteq> 0"
    using i(2,3) W_zero_iff [of "C + 32"] by (auto simp: W_def C_def)
  then have kf: "kmem (kfree (W (C + 32)) s) =
      kmerge_next (W C) (if W (last_addr 0 a xs) \<noteq> 0 then kmerge_next (W (last_addr 0 a xs)) m1 else m1)"
    using h pv by (simp add: kfree_def Let_def m_def [symmetric] m1_def [symmetric] header_def tag_def)
  have lim: "a + span xs < 18446744073709551616" using i(3) by simp
  consider (join) zs k where "xs = zs @ [(False, k)]" | (keep) "xs = [] \<or> fst (last xs)"
    by (metis (full_types) append_butlast_last_id prod.collapse)
  then show ?thesis
  proof cases
    case join
    have P: "W (last_addr 0 a xs) = W (a + span zs)" "W (a + span zs) \<noteq> 0"
      using lim i(1) W_zero_iff [of "a + span zs"] by (simp_all add: join)
    have ys: "ys = [] \<or> fst (hd ys) \<or> tl ys = []" using no by (auto simp: stale_link_def join)
    note jn = kfree_prev_free(2) [of zs k n ys a m1 0, OF _ _ _ i(1) ys]
    have "C = a + span zs + k" by (simp add: C_def join)
    then show ?thesis
      using jn i' s1 same_data_trans [OF d1] kf P
      unfolding C_def [symmetric] by (simp add: join free_blocks_def m_def)
  next
    case keep
    have "(if W (last_addr 0 a xs) \<noteq> 0 then kmerge_next (W (last_addr 0 a xs)) m1 else m1) = m1"
    proof (cases xs rule: rev_cases)
      case (snoc zs b)
      then obtain k where b: "b = (True, k)" using keep by (cases b) auto
      have "kmerge_next (W (a + span zs)) m1 = m1"
        using kmerge_next_idle [of m1 0 a zs True k "(False, n) # ys"] s1 i' by (simp add: snoc b)
      then show ?thesis by (simp add: snoc b)
    qed simp
    then show ?thesis
      using kf merge_or_idle [OF i' s1 i(1)] same_data_trans [OF d1] keep
      unfolding C_def [symmetric] by (auto simp: free_blocks_def m_def)
  qed
qed

text \<open>
  C28. \<open>kfree\<close> of an address that \<open>kmalloc\<close> returned, unless both neighbours of its block are free and
  a further block follows them: exactly this area is no longer in use, the freed block joins the free
  block before it or else the free block after it, the headers describe the new list of blocks, and
  the data of the other areas are unchanged.
\<close>

theorem kfree_releases:
  assumes "kinv s (xs @ (True, n) # ys)" and "\<not> stale_link xs ys"
    and "p = heap_start s + word_of_nat (span xs + 32)"
  defines "A \<equiv> areas (unat (heap_start s)) (xs @ (True, n) # ys)"
  shows "kinv (kfree p s) (free_blocks xs n ys) \<and>
    areas (unat (heap_start (kfree p s))) (free_blocks xs n ys) = A - {(unat p, n - 32)} \<and>
    (\<forall>(x, l) \<in> A - {(unat p, n - 32)}. \<forall>y. x \<le> y \<and> y < x + l \<longrightarrow>
       kmem (kfree p s) (word_of_nat y) = kmem s (word_of_nat y))"
proof -
  define a where "a = unat (heap_start s)"
  have i: "khead s = heap_start s" "0 < a" "16 dvd a" "blocks_ok (xs @ (True, n) # ys)"
      "a + span (xs @ (True, n) # ys) < 18446744073709551616" "unat (heap_end s) = a + span (xs @ (True, n) # ys)"
    using assms(1) by (auto simp: kinv_def a_def)
  have p: "p = W (a + span xs + 32)" by (simp add: assms(3) a_def W_def)
  have up: "unat p = a + span xs + 32" using i(4,5) unat_W by (simp add: p)
  note kf = kfree_seg [OF assms(1,2), folded a_def, folded p]
  have fields: "khead (kfree p s) = khead s" "heap_start (kfree p s) = heap_start s" "heap_end (kfree p s) = heap_end s"
    by (simp_all add: kfree_def Let_def)
  have "free_blocks xs n ys \<noteq> []" by (simp add: free_blocks_def)
  then have "kinv (kfree p s) (free_blocks xs n ys)"
    using kf i free_blocks_ok [OF i(4)] by (simp add: kinv_def fields a_def)
  moreover have ar: "areas a (free_blocks xs n ys) = A - {(unat p, n - 32)}"
  proof -
    have n: "32 \<le> n" "blocks_ok xs" "blocks_ok ys" using i(4) by auto
    have "(unat p, n - 32) \<notin> areas a xs" "(unat p, n - 32) \<notin> areas (a + span xs + n) ys"
      using areas_inside [OF n(2), of "unat p" "n - 32" a] areas_inside [OF n(3), of "unat p" "n - 32" "a + span xs + n"] n(1) up by auto
    then show ?thesis using up by (auto simp: free_blocks_areas A_def a_def [symmetric])
  qed
  moreover have "areas a (xs @ (False, n) # ys) = areas a (free_blocks xs n ys)" by (simp add: free_blocks_areas)
  moreover have "blocks_ok (xs @ (False, n) # ys)" using i(4) by simp
  ultimately show ?thesis
    using kf same_data_areas [of "xs @ (False, n) # ys" "kmem s" "kmem (kfree p s)" a]
    by (simp add: fields a_def [symmetric] W_def)
qed

definition demo_heap3 :: kheap where
  "demo_heap3 = demo_heap\<lparr>kmem := (\<lambda>_. 0)
     (0xFFFFFFFE00000000 := KMALLOC_STATE_FREE, 0xFFFFFFFE00000008 := 0x40, 0xFFFFFFFE00000010 := 0xFFFFFFFE00000040,
      0xFFFFFFFE00000040 := KMALLOC_STATE_USED, 0xFFFFFFFE00000048 := 0x60, 0xFFFFFFFE00000050 := 0xFFFFFFFE000000A0,
      0xFFFFFFFE00000058 := 0xFFFFFFFE00000000,
      0xFFFFFFFE000000A0 := KMALLOC_STATE_FREE, 0xFFFFFFFE000000A8 := 0xFF60, 0xFFFFFFFE000000B8 := 0xFFFFFFFE00000040)\<rparr>"

lemma demo_heap3_inv: "kinv demo_heap3 ([(False, 64)] @ (True, 96) # [(False, 65376)])"
  by (simp add: kinv_def demo_heap3_def demo_heap_def header_def W_def tag_def)

theorem kfree_releases_witness:
  "kinv (kfree 0xFFFFFFFE00000060 demo_heap3) [(False, 160), (False, 65376)]"
proof -
  have h: "heap_start demo_heap3 = 0xFFFFFFFE00000000" by (simp add: demo_heap3_def demo_heap_def)
  show ?thesis
    using kfree_releases [OF demo_heap3_inv, of "0xFFFFFFFE00000060"]
    by (simp add: stale_link_def free_blocks_def h)
qed

text \<open>
  In the excluded case the block after next is left with a predecessor that is no block: \<open>kfree\<close>
  calls \<open>kmerge_next\<close> on the header of the block it has just joined to the one before it. A later
  \<open>kfree\<close> of that block writes through the stale address, into what may be data by then.
\<close>

lemma kfree_stale_prev:
  assumes inv: "kinv s (xs @ (False, k) # (True, n) # (False, l) # (u, j) # zs)"
  defines "C \<equiv> unat (heap_start s) + span xs + k"
  shows "kmem (kfree (W (C + 32)) s) (W (C + n + l + 24)) = W C"
proof -
  define a where "a = unat (heap_start s)"
  define m1 where "m1 = (kmem s)(W C := KMALLOC_STATE_FREE)"
  let ?ys = "(False, l) # (u, j) # zs"
  have i: "0 < a" "blocks_ok ((xs @ [(False, k)]) @ (True, n) # ?ys)" "a + span ((xs @ [(False, k)]) @ (True, n) # ?ys) < 18446744073709551616"
      "seg (kmem s) 0 a ((xs @ [(False, k)]) @ (True, n) # ?ys) 0"
    using inv by (auto simp: kinv_def a_def)
  have C: "C = a + span (xs @ [(False, k)])" by (simp add: C_def a_def)
  have s1: "seg m1 0 a (xs @ (False, k) # (False, n) # ?ys) 0"
    using seg_set_state [OF i(2,3,4), of False] unfolding m1_def C by (simp add: tag_def)
  have h: "header (kmem s) C True n (succ_addr (C + n) ?ys) (a + span xs)"
    using i(4) unfolding seg_middle C by simp
  have pv: "m1 (W (C + 24)) = W (a + span xs)" "W (a + span xs) \<noteq> 0"
    using h i(1-3) W_zero_iff [of "a + span xs"] by (auto simp: m1_def header_def W_eq C)
  define m2 where "m2 = kmerge_next (W (a + span xs)) m1"
  have m2: "seg m2 0 a (xs @ (False, k + n) # ?ys) 0" "header m2 C False n (C + n) (a + span xs)"
    using kmerge_next_seg(1) [of xs k n ?ys a m1 0] kfree_prev_free(1) [of xs k n ?ys a m1 0] s1 i by (simp_all add: m2_def C add.assoc)
  have N: "m2 (W (C + n)) = KMALLOC_STATE_FREE" "m2 (W (C + n + 16)) = W (C + n + l)"
    using m2(1) unfolding seg_middle by (simp_all add: header_def tag_def C add.assoc)
  have W: "W C \<noteq> 0" "W (C + n) \<noteq> 0" "W (C + n + l) \<noteq> 0" "W (C + 32) \<noteq> 0" "W (C + 32) - sizeof_chunk = W C"
    using i W_zero_iff [of C] W_zero_iff [of "C + n"] W_zero_iff [of "C + n + l"] W_zero_iff [of "C + 32"]
    by (auto simp: C) (simp add: W_def)
  have "kmem (kfree (W (C + 32)) s) = kmerge_next (W C) m2"
    using h pv W by (simp add: kfree_def Let_def m1_def [symmetric] m2_def header_def tag_def)
  moreover have "kmerge_next (W C) m2 (W (C + n + l + 24)) = W C"
    using m2(2) N W i by (simp add: kmerge_next_def Let_def header_def tag_def W_eq C)
  ultimately show ?thesis by simp
qed

text \<open>A size close to the end of the address space wraps to 0, and the request succeeds.\<close>

lemma kmalloc_size_wraps: "align_up 0xFFFFFFFFFFFFFFF8 KMALLOC_ALIGNMENT = 0"
  by (simp add: align_up_def)

end
