(* ===== verification/Fs.thy ===== *)
theory Fs
  imports Prelude
begin

unbundle bit_operations_syntax

text \<open>
  The file system in memory, \<open>kernel/fs/fs.c\<close>. The nodes \<open>struct file\<close> are a store indexed by
  address, linked by \<open>parent\<close>, \<open>children\<close> and \<open>next\<close> as in the code; \<open>blocks\<close> holds the bytes of the
  names and file contents, C strings without their NUL. Addresses come from the kernel heap:
  \<open>pick n sz live\<close> is the answer of the heap to call number \<open>n\<close> of \<open>kmalloc\<close>, for \<open>sz\<close> bytes while the
  addresses \<open>live\<close> are in use, and 0 is NULL. What the file system relies on is \<open>heap_contract\<close>: an
  address that is not NULL is not in use.

  The lemmas relate the pointer structure to a tree of nodes with their lists of children, and show
  that paths resolve as on the tree, and that creating and deleting files keep it a tree and leak no
  memory.
\<close>

section \<open>The code\<close>

abbreviation FS_IS_DIRECTORY :: u16 where "FS_IS_DIRECTORY \<equiv> 1"

text \<open>\<open>enum FS_RETURN\<close>\<close>

abbreviation FS_SUCCESS :: u32 where "FS_SUCCESS \<equiv> 0x1"
abbreviation FS_FAIL :: u32 where "FS_FAIL \<equiv> 0x2"
abbreviation FS_NOT_FOUND :: u32 where "FS_NOT_FOUND \<equiv> 0x4"
abbreviation FS_INVALID_PATH :: u32 where "FS_INVALID_PATH \<equiv> 0x8"
abbreviation FS_NOT_A_DIR :: u32 where "FS_NOT_A_DIR \<equiv> 0x10"
abbreviation FS_IS_A_DIR :: u32 where "FS_IS_A_DIR \<equiv> 0x20"
abbreviation FS_BUF_TOO_SMALL :: u32 where "FS_BUF_TOO_SMALL \<equiv> 0x40"
abbreviation FS_INVALID_FILE :: u32 where "FS_INVALID_FILE \<equiv> 0x80"
abbreviation FS_FILE_TOO_SMALL :: u32 where "FS_FILE_TOO_SMALL \<equiv> 0x100"
abbreviation FS_PERMISSION_DENIED :: u32 where "FS_PERMISSION_DENIED \<equiv> 0x200"
abbreviation FS_DIR_NOT_EMPTY :: u32 where "FS_DIR_NOT_EMPTY \<equiv> 0x400"
abbreviation FS_INVALID_FS :: u32 where "FS_INVALID_FS \<equiv> 0x800"
abbreviation FS_ALR_EXIST :: u32 where "FS_ALR_EXIST \<equiv> 0x1000"
abbreviation FS_INV_ARG :: u32 where "FS_INV_ARG \<equiv> 0x2000"
abbreviation FS_INV_PATH :: u32 where "FS_INV_PATH \<equiv> 0x4000"

text \<open>The address of the static object \<open>root\<close>, in the kernel image.\<close>

abbreviation ROOT :: u64 where "ROOT \<equiv> 0xFFFFFFFF80000000"

abbreviation SLASH :: u8 where "SLASH \<equiv> 47"
abbreviation DOT :: u8 where "DOT \<equiv> 46"

type_synonym bytes = "u8 list"

record file_node =
  fid :: u64
  fname :: u64
  fparent :: u64
  fchildren :: u64
  fnext :: u64
  fdata :: u64
  fsize :: u64
  fflags :: u16

record fsys =
  files :: "u64 \<Rightarrow> file_node"
  blocks :: "u64 \<Rightarrow> bytes"
  live :: "u64 set"
  pick :: "nat \<Rightarrow> u64 \<Rightarrow> u64 set \<Rightarrow> u64"
  calls :: nat

definition node_name :: "fsys \<Rightarrow> u64 \<Rightarrow> bytes" where
  "node_name s f = blocks s (fname (files s f))"

definition is_dir :: "fsys \<Rightarrow> u64 \<Rightarrow> bool" where
  "is_dir s f \<longleftrightarrow> fflags (files s f) AND FS_IS_DIRECTORY \<noteq> 0"

definition set_file :: "u64 \<Rightarrow> (file_node \<Rightarrow> file_node) \<Rightarrow> fsys \<Rightarrow> fsys" where
  "set_file f g s = s\<lparr>files := (files s)(f := g (files s f))\<rparr>"

definition fs_kmalloc :: "u64 \<Rightarrow> fsys \<Rightarrow> u64 \<times> fsys" where
  "fs_kmalloc sz s =
     (let p = pick s (calls s) sz (live s); s1 = s\<lparr>calls := Suc (calls s)\<rparr>
      in (p, if p = 0 then s1 else s1\<lparr>live := insert p (live s1)\<rparr>))"

definition fs_kfree :: "u64 \<Rightarrow> fsys \<Rightarrow> fsys" where
  "fs_kfree p s = (if p = 0 then s else s\<lparr>live := live s - {p}\<rparr>)"

text \<open>The store of \<open>n\<close> bytes at an allocated address.\<close>

definition fs_store :: "u64 \<Rightarrow> bytes \<Rightarrow> fsys \<Rightarrow> fsys" where
  "fs_store p bs s = s\<lparr>blocks := (blocks s)(p := bs)\<rparr>"

partial_function (option) find_from :: "fsys \<Rightarrow> bytes \<Rightarrow> u64 \<Rightarrow> u64 option" where
  "find_from s nm f =
     (if f = 0 then Some 0 else if node_name s f = nm then Some f else find_from s nm (fnext (files s f)))"

declare find_from.simps [code]

definition find_child :: "fsys \<Rightarrow> u64 \<Rightarrow> bytes \<Rightarrow> u64 option" where
  "find_child s dir nm = find_from s nm (fchildren (files s dir))"

definition link_child :: "u64 \<Rightarrow> u64 \<Rightarrow> fsys \<Rightarrow> fsys" where
  "link_child dir child s =
     (let s1 = set_file child (fparent_update (\<lambda>_. dir)) s;
          s2 = set_file child (fnext_update (\<lambda>_. fchildren (files s1 dir))) s1
      in set_file dir (fchildren_update (\<lambda>_. child)) s2)"

text \<open>
  \<open>struct file **link\<close> is \<open>&parent->children\<close>, written \<open>None\<close>, or \<open>&node->next\<close>, written \<open>Some node\<close>.
\<close>

definition load_link :: "fsys \<Rightarrow> u64 \<Rightarrow> u64 option \<Rightarrow> u64" where
  "load_link s parent link = (case link of None \<Rightarrow> fchildren (files s parent) | Some f \<Rightarrow> fnext (files s f))"

definition store_link :: "u64 \<Rightarrow> u64 option \<Rightarrow> u64 \<Rightarrow> fsys \<Rightarrow> fsys" where
  "store_link parent link v s =
     (case link of None \<Rightarrow> set_file parent (fchildren_update (\<lambda>_. v)) s | Some f \<Rightarrow> set_file f (fnext_update (\<lambda>_. v)) s)"

partial_function (option) unlink_loop :: "fsys \<Rightarrow> u64 \<Rightarrow> u64 \<Rightarrow> u64 option \<Rightarrow> u64 option option" where
  "unlink_loop s parent target link =
     (if load_link s parent link \<noteq> 0 \<and> load_link s parent link \<noteq> target
      then unlink_loop s parent target (Some (load_link s parent link))
      else Some link)"

declare unlink_loop.simps [code]

definition unlink_child :: "u64 \<Rightarrow> u64 \<Rightarrow> fsys \<Rightarrow> (bool \<times> fsys) option" where
  "unlink_child parent target s =
     (case unlink_loop s parent target None of
        None \<Rightarrow> None
      | Some link \<Rightarrow>
          if load_link s parent link = 0 then Some (False, s)
          else
            let s1 = store_link parent link (fnext (files s target)) s
            in Some (True, set_file target (fnext_update (\<lambda>_. 0)) s1))"

text \<open>
  The loop of \<open>parse_path\<close> on the rest of the path. The search for the child compares lengths and
  bytes, which is equality of strings. The result is the return code and the node, 0 when none is
  returned.
\<close>

abbreviation not_slash :: "u8 \<Rightarrow> bool" where "not_slash c \<equiv> c \<noteq> SLASH"

abbreviation slash :: "u8 \<Rightarrow> bool" where "slash c \<equiv> c = SLASH"

lemma parse_rest_shorter: "path \<noteq> [] \<Longrightarrow> length (dropWhile slash (dropWhile not_slash path)) < length path"
proof (cases path)
  case (Cons c cs)
  have "length (dropWhile slash (dropWhile not_slash xs)) \<le> length xs" for xs :: bytes
    using length_dropWhile_le [of slash "dropWhile not_slash xs"] length_dropWhile_le [of not_slash xs] by linarith
  moreover have "length (dropWhile slash cs) \<le> length cs" by (rule length_dropWhile_le)
  ultimately show ?thesis using Cons by (auto simp: less_Suc_eq_le)
qed simp

function parse_loop :: "fsys \<Rightarrow> u64 \<Rightarrow> bytes \<Rightarrow> (u32 \<times> u64) option" where
  "parse_loop s current path =
     (if path = [] then Some (FS_SUCCESS, current)
      else
        let start = takeWhile not_slash path;
            rest = dropWhile slash (dropWhile not_slash path)
        in if start = [DOT] then parse_loop s current rest
           else if start = [DOT, DOT] then parse_loop s (fparent (files s current)) rest
           else if \<not> is_dir s current then Some (FS_NOT_A_DIR, 0)
           else case find_from s start (fchildren (files s current)) of
               None \<Rightarrow> None
             | Some child \<Rightarrow> if child = 0 then Some (FS_NOT_FOUND, 0) else parse_loop s child rest)"
  by auto

termination
  by (relation "measure (\<lambda>(s, c, p). length p)") (auto dest: parse_rest_shorter)

declare parse_loop.simps [simp del]

definition parse_path :: "bytes option \<Rightarrow> fsys \<Rightarrow> (u32 \<times> u64) option" where
  "parse_path path s =
     (case path of None \<Rightarrow> Some (FS_INVALID_PATH, 0) | Some p \<Rightarrow> parse_loop s ROOT (dropWhile slash p))"

text \<open>
  The buffer of \<open>read_file_content\<close> is given by whether it is NULL; the bytes copied into it are the
  second result. The source buffer of \<open>write_file_content\<close> is given by its bytes.
\<close>

definition read_file_content :: "bytes option \<Rightarrow> bool \<Rightarrow> u64 \<Rightarrow> fsys \<Rightarrow> (u32 \<times> bytes) option" where
  "read_file_content path buffer_null buf_size s =
     (case parse_path path s of
        None \<Rightarrow> None
      | Some (a, b) \<Rightarrow>
          if a AND FS_SUCCESS = 0 then Some (a, [])
          else let f = files s b
            in if is_dir s b then Some (FS_IS_A_DIR, [])
               else if buf_size < fsize f then Some (FS_BUF_TOO_SMALL, [])
               else if fsize f \<noteq> 0 \<and> fdata f = 0 then Some (FS_INVALID_FILE, [])
               else if fsize f \<noteq> 0 \<and> buffer_null then Some (FS_INV_ARG, [])
               else Some (FS_SUCCESS, take (unat (fsize f)) (blocks s (fdata f))))"

definition write_file_content :: "bytes option \<Rightarrow> bytes option \<Rightarrow> u64 \<Rightarrow> fsys \<Rightarrow> (u32 \<times> fsys) option" where
  "write_file_content path buffer buf_size s =
     (case parse_path path s of
        None \<Rightarrow> None
      | Some (a, b) \<Rightarrow>
          if a AND FS_SUCCESS = 0 then Some (a, s)
          else let f = files s b
            in if is_dir s b then Some (FS_IS_A_DIR, s)
               else if fsize f < buf_size then Some (FS_FILE_TOO_SMALL, s)
               else if buf_size \<noteq> 0 \<and> fdata f = 0 then Some (FS_INVALID_FILE, s)
               else if fsize f \<noteq> 0 \<and> buffer = None then Some (FS_INV_ARG, s)
               else
                 let n = unat buf_size; old = blocks s (fdata f)
                 in Some (FS_SUCCESS,
                      if n = 0 then s else fs_store (fdata f) (take n (the buffer) @ drop n old) s))"

definition delete_file :: "bytes option \<Rightarrow> fsys \<Rightarrow> (u32 \<times> fsys) option" where
  "delete_file path s =
     (case parse_path path s of
        None \<Rightarrow> None
      | Some (status, target) \<Rightarrow>
          if status \<noteq> FS_SUCCESS then Some (status, s)
          else if target = ROOT then Some (FS_PERMISSION_DENIED, s)
          else if is_dir s target \<and> fchildren (files s target) \<noteq> 0 then Some (FS_DIR_NOT_EMPTY, s)
          else if fparent (files s target) = 0 then Some (FS_INVALID_FS, s)
          else case unlink_child (fparent (files s target)) target s of
              None \<Rightarrow> None
            | Some (False, s1) \<Rightarrow> Some (FS_INVALID_FS, s1)
            | Some (True, s1) \<Rightarrow>
                let s2 = fs_kfree (fname (files s1 target)) s1;
                    s3 = fs_kfree (fdata (files s1 target)) s2
                in Some (FS_SUCCESS, fs_kfree target s3))"

text \<open>\<open>strrchr(path, '/')\<close> splits the path into the part before the last slash, if any, and the name.\<close>

definition last_name :: "bytes \<Rightarrow> bytes" where
  "last_name path = rev (takeWhile not_slash (rev path))"

definition parent_of :: "bytes \<Rightarrow> bytes" where
  "parent_of path =
     (if SLASH \<notin> set path then [DOT]
      else let n = length path - length (last_name path) - 1 in if n = 0 then [SLASH] else take n path)"

text \<open>
  From \<open>kcalloc\<close> on. \<open>NULL\<close> is read as data only when a folder is created with a size, which the
  code never asks for; the read is a page fault.
\<close>

definition new_node :: "u64 \<Rightarrow> u64 \<Rightarrow> bytes option \<Rightarrow> u64 \<Rightarrow> u16 \<Rightarrow> fsys \<Rightarrow> (u32 \<times> fsys) result" where
  "new_node parent nm data sz flags s =
     (let (f, s1) = fs_kmalloc 64 s
      in if f = 0 then Inr (FS_FAIL, fs_kfree nm s1)
         else
           let s2 = set_file f (\<lambda>_. \<lparr>fid = 0, fname = 0, fparent = 0, fchildren = 0, fnext = 0, fdata = 0,
                                     fsize = 0, fflags = 0\<rparr>) s1;
               (d, s3) = (if sz \<noteq> 0 then fs_kmalloc sz s2 else (0, s2));
               s4 = set_file f (fdata_update (\<lambda>_. d)) s3
           in if sz \<noteq> 0 \<and> d = 0 then Inr (FS_FAIL, fs_kfree f (fs_kfree nm s4))
              else if sz \<noteq> 0 \<and> data = None then Inl (Page_Fault 0)
              else
                let s5 = (if sz \<noteq> 0 then fs_store d (take (unat sz) (the data)) s4 else s4);
                    s6 = set_file f (\<lambda>r. r\<lparr>fname := nm, fsize := sz, fflags := flags\<rparr>) s5
                in Inr (FS_SUCCESS, link_child parent f s6))"

text \<open>From the lookup of the parent on; \<open>parent_path\<close> and \<open>name\<close> are the two allocated strings.\<close>

definition create_entry :: "u64 \<Rightarrow> u64 \<Rightarrow> bytes option \<Rightarrow> u64 \<Rightarrow> u16 \<Rightarrow> fsys \<Rightarrow> (u32 \<times> fsys) result option" where
  "create_entry parent_path name data sz flags s =
     (case parse_path (Some (blocks s parent_path)) s of
        None \<Rightarrow> None
      | Some (status, parent) \<Rightarrow>
          let s1 = fs_kfree parent_path s
          in if status \<noteq> FS_SUCCESS then Some (Inr (status, fs_kfree name s1))
          else if \<not> is_dir s1 parent then Some (Inr (FS_NOT_A_DIR, fs_kfree name s1))
          else
            (case find_child s1 parent (blocks s1 name) of
               None \<Rightarrow> None
             | Some c \<Rightarrow>
                 if c \<noteq> 0 then Some (Inr (FS_ALR_EXIST, fs_kfree name s1))
                 else Some (new_node parent name data sz flags s1)))"

definition create_file :: "bytes option \<Rightarrow> bytes option \<Rightarrow> u64 \<Rightarrow> u16 \<Rightarrow> fsys \<Rightarrow> (u32 \<times> fsys) result option" where
  "create_file path data sz flags s =
     (let isdir = (flags AND FS_IS_DIRECTORY \<noteq> 0)
      in if path = None \<or> data = None \<and> sz \<noteq> 0 \<and> \<not> isdir then Some (Inr (FS_INV_ARG, s))
      else let path = the path
      in if path = [] \<or> last path = SLASH then Some (Inr (FS_INV_PATH, s))
      else
        let pp = parent_of path; nm = last_name path;
            (parent_path, s1) = fs_kmalloc (if SLASH \<notin> set path then 2 else word_of_nat (length path - length nm - 1 + 2)) s
        in if parent_path = 0 then Some (Inr (FS_FAIL, s1))
        else
          let s2 = fs_store parent_path pp s1;
              (name, s3) = fs_kmalloc (word_of_nat (length nm + 1)) s2
          in if name = 0 then Some (Inr (FS_FAIL, fs_kfree parent_path s3))
          else
            let s4 = fs_store name nm s3
            in if nm = [DOT] \<or> nm = [DOT, DOT] then Some (Inr (FS_FAIL, fs_kfree parent_path (fs_kfree name s4)))
            else
              create_entry parent_path name data sz flags s4)"

definition create_folder :: "bytes option \<Rightarrow> fsys \<Rightarrow> (u32 \<times> fsys) result option" where
  "create_folder path s =
     bind_loop (create_file path None 0 FS_IS_DIRECTORY s) (\<lambda>(r, s1).
       Some (Inr (if r AND FS_SUCCESS = 0 then r else FS_SUCCESS, s1)))"

definition delete_folder :: "bytes option \<Rightarrow> fsys \<Rightarrow> (u32 \<times> fsys) option" where
  "delete_folder path s =
     (case delete_file path s of None \<Rightarrow> None
      | Some (r, s1) \<Rightarrow> Some (if r AND FS_SUCCESS = 0 then r else FS_SUCCESS, s1))"

text \<open>The list is the address of the first child.\<close>

definition list_files :: "bytes option \<Rightarrow> bool \<Rightarrow> fsys \<Rightarrow> (u32 \<times> u64) option" where
  "list_files path list_null s =
     (if list_null then Some (FS_INV_ARG, 0)
      else case parse_path path s of
          None \<Rightarrow> None
        | Some (a, folder) \<Rightarrow>
            if a AND FS_SUCCESS = 0 then Some (a, 0) else Some (FS_SUCCESS, fchildren (files s folder)))"

text \<open>
  The loop of \<open>create_file_force\<close>; \<open>p\<close> has moved past the component when it is looked up and created.
\<close>

function force_loop :: "bytes option \<Rightarrow> u64 \<Rightarrow> u16 \<Rightarrow> bytes \<Rightarrow> fsys \<Rightarrow> (u32 \<times> fsys) result option" where
  "force_loop data sz flags p s =
     (if p = [] then Some (Inr (FS_SUCCESS, s))
      else
        let q = dropWhile slash (dropWhile not_slash p);
            is_last = (q = [])
        in case parse_path (Some q) s of
             None \<Rightarrow> None
           | Some (r, b) \<Rightarrow>
               if r AND FS_SUCCESS = 0 then
                 bind_loop (if is_last then create_file (Some q) data sz flags s else create_folder (Some q) s) (\<lambda>(c, s1).
                   if c AND FS_SUCCESS = 0 then Some (Inr (FS_FAIL, s1)) else force_loop data sz flags q s1)
               else force_loop data sz flags q s)"
  by auto
termination
  by (relation "measure (\<lambda>(d, z, f, p, s). length p)") (auto dest: parse_rest_shorter)

declare force_loop.simps [simp del]

definition create_file_force :: "bytes option \<Rightarrow> bytes option \<Rightarrow> u64 \<Rightarrow> u16 \<Rightarrow> fsys \<Rightarrow> (u32 \<times> fsys) result option" where
  "create_file_force path data sz flags s =
     (if path = None \<or> data = None \<and> sz \<noteq> 0 then Some (Inr (FS_INV_ARG, s))
      else force_loop data sz flags (dropWhile slash (the path)) s)"

text \<open>\<open>init_fs\<close> up to the extraction of the ramdisk; \<open>root_name\<close> is the address of the string \<open>"root"\<close>.\<close>

definition init_root :: "u64 \<Rightarrow> fsys \<Rightarrow> fsys" where
  "init_root root_name s =
     set_file ROOT (\<lambda>r. r\<lparr>fid := 0, fname := root_name, fparent := ROOT, fchildren := 0, fnext := 0,
                          fflags := FS_IS_DIRECTORY\<rparr>) s"

section \<open>Paths\<close>

text \<open>The components of a path: the maximal non-empty parts without a slash.\<close>

fun split_slash :: "bytes \<Rightarrow> bytes list" where
  "split_slash [] = [[]]"
| "split_slash (c # cs) =
     (if c = SLASH then [] # split_slash cs
      else case split_slash cs of [] \<Rightarrow> [[c]] | w # ws \<Rightarrow> (c # w) # ws)"

definition comps :: "bytes \<Rightarrow> bytes list" where
  "comps p = filter (\<lambda>w. w \<noteq> []) (split_slash p)"

lemma split_slash_not_Nil [simp]: "split_slash p \<noteq> []"
  by (induction p) (auto split: list.splits)

lemma split_slash_append:
  "split_slash (xs @ SLASH # ys) = split_slash xs @ split_slash ys"
  by (induction xs) (auto split: list.splits)

lemma split_slash_word: "SLASH \<notin> set w \<Longrightarrow> split_slash w = [w]"
  by (induction w) auto

lemma comps_slash [simp]: "comps (SLASH # p) = comps p"
  by (simp add: comps_def)

lemma comps_drop_slashes [simp]: "comps (dropWhile slash p) = comps p"
  by (induction p) auto

lemma comps_Nil [simp]: "comps [] = []"
  by (simp add: comps_def)

lemma comps_append_slash: "comps (xs @ SLASH # ys) = comps xs @ comps ys"
  by (simp add: comps_def split_slash_append)

lemma comps_word: "SLASH \<notin> set w \<Longrightarrow> w \<noteq> [] \<Longrightarrow> comps w = [w]"
  by (simp add: comps_def split_slash_word)

lemma comps_unfold:
  assumes "p \<noteq> []" and "hd p \<noteq> SLASH"
  shows "comps p = takeWhile not_slash p # comps (dropWhile slash (dropWhile not_slash p))"
proof -
  let ?w = "takeWhile not_slash p"
  have w: "SLASH \<notin> set ?w" using set_takeWhileD [of SLASH not_slash p] by blast
  have ne: "?w \<noteq> []" using assms by (cases p) auto
  show ?thesis
  proof (cases "dropWhile not_slash p")
    case Nil
    then have "p = ?w" by (metis append_Nil2 takeWhile_dropWhile_id)
    then have "comps p = [?w]" using comps_word [OF w ne] by metis
    then show ?thesis unfolding Nil by simp
  next
    case (Cons c cs)
    then have "c = SLASH" using hd_dropWhile [of not_slash p] by auto
    then have "p = ?w @ SLASH # cs" using takeWhile_dropWhile_id [of not_slash p] Cons by simp
    then have "comps p = comps (?w @ SLASH # cs)" by simp
    also have "\<dots> = ?w # comps cs" by (simp add: comps_append_slash comps_word [OF w ne])
    finally show ?thesis using Cons \<open>c = SLASH\<close> by simp
  qed
qed

section \<open>The tree\<close>

fun chain :: "fsys \<Rightarrow> u64 \<Rightarrow> u64 list \<Rightarrow> bool" where
  "chain s p [] \<longleftrightarrow> p = 0"
| "chain s p (x # xs) \<longleftrightarrow> p = x \<and> x \<noteq> 0 \<and> chain s (fnext (files s x)) xs"

lemma find_from_chain:
  "chain s p xs \<Longrightarrow> find_from s nm p = Some (case List.find (\<lambda>c. node_name s c = nm) xs of None \<Rightarrow> 0 | Some c \<Rightarrow> c)"
proof (induction xs arbitrary: p)
  case Nil
  then show ?case by (simp add: find_from.simps)
next
  case (Cons x xs)
  then show ?case by (subst find_from.simps) auto
qed

text \<open>The addresses a node owns: its own, its name and its data.\<close>

definition owns :: "fsys \<Rightarrow> u64 \<Rightarrow> u64 set" where
  "owns s n = {n, fname (files s n)} \<union> (if fdata (files s n) = 0 then {} else {fdata (files s n)})"

abbreviation parent_link :: "fsys \<Rightarrow> u64 \<Rightarrow> u64" where
  "parent_link s n \<equiv> fparent (files s n)"

text \<open>
  The nodes \<open>N\<close> with the lists of children \<open>K\<close> form a tree with root \<open>ROOT\<close>; names in a directory are
  distinct, only directories have children, and different nodes own different live addresses.
\<close>

definition dir_ok :: "fsys \<Rightarrow> u64 set \<Rightarrow> (u64 \<Rightarrow> u64 list) \<Rightarrow> u64 \<Rightarrow> bool" where
  "dir_ok s N K d \<longleftrightarrow> chain s (fchildren (files s d)) (K d) \<and> distinct (K d) \<and> set (K d) \<subseteq> N - {ROOT} \<and>
     (\<forall>c \<in> set (K d). parent_link s c = d) \<and> inj_on (node_name s) (set (K d)) \<and> (K d \<noteq> [] \<longrightarrow> is_dir s d)"

definition mem_ok :: "fsys \<Rightarrow> u64 set \<Rightarrow> bool" where
  "mem_ok s N \<longleftrightarrow> 0 \<notin> live s \<and> ROOT \<notin> live s \<and> (\<forall>n \<in> N - {ROOT}. owns s n \<subseteq> live s) \<and>
     (\<forall>n \<in> N - {ROOT}. \<forall>k \<in> N - {ROOT}. n \<noteq> k \<longrightarrow> owns s n \<inter> owns s k = {})"

definition fs_inv :: "fsys \<Rightarrow> u64 set \<Rightarrow> (u64 \<Rightarrow> u64 list) \<Rightarrow> bool" where
  "fs_inv s N K \<longleftrightarrow> ROOT \<in> N \<and> is_dir s ROOT \<and> parent_link s ROOT = ROOT \<and>
     (\<forall>d \<in> N. dir_ok s N K d) \<and>
     (\<forall>n \<in> N. parent_link s n \<in> N \<and> (n \<noteq> ROOT \<longrightarrow> n \<in> set (K (parent_link s n)))) \<and>
     (\<forall>n \<in> N. \<exists>k. (parent_link s ^^ k) n = ROOT) \<and> mem_ok s N"

definition heap_contract :: "fsys \<Rightarrow> bool" where
  "heap_contract s \<longleftrightarrow> (\<forall>n sz L. pick s n sz L = 0 \<or> pick s n sz L \<notin> insert ROOT L)"

text \<open>Looking up a list of components on the tree.\<close>

fun resolve :: "fsys \<Rightarrow> (u64 \<Rightarrow> u64 list) \<Rightarrow> u64 \<Rightarrow> bytes list \<Rightarrow> u32 \<times> u64" where
  "resolve s K cur [] = (FS_SUCCESS, cur)"
| "resolve s K cur (w # ws) =
     (if w = [DOT] then resolve s K cur ws
      else if w = [DOT, DOT] then resolve s K (parent_link s cur) ws
      else if \<not> is_dir s cur then (FS_NOT_A_DIR, 0)
      else case List.find (\<lambda>c. node_name s c = w) (K cur) of
          None \<Rightarrow> (FS_NOT_FOUND, 0)
        | Some c \<Rightarrow> resolve s K c ws)"

lemma fs_invD:
  assumes "fs_inv s N K"
  shows "ROOT \<in> N" "is_dir s ROOT" "parent_link s ROOT = ROOT" "d \<in> N \<Longrightarrow> dir_ok s N K d"
    "n \<in> N \<Longrightarrow> parent_link s n \<in> N" "n \<in> N \<Longrightarrow> n \<noteq> ROOT \<Longrightarrow> n \<in> set (K (parent_link s n))" "mem_ok s N"
  using assms by (auto simp: fs_inv_def)

lemma fs_inv_nonzero: "fs_inv s N K \<Longrightarrow> n \<in> N \<Longrightarrow> n \<noteq> 0"
  by (cases "n = ROOT") (auto simp: fs_inv_def mem_ok_def owns_def)

lemma find_in_dir:
  assumes "fs_inv s N K" and "d \<in> N" and "List.find P (K d) = Some c"
  shows "c \<in> N" "c \<noteq> ROOT" "c \<noteq> 0" "parent_link s c = d" "P c"
proof -
  have c: "c \<in> set (K d)" "P c" using assms(3) by (auto simp: find_Some_iff)
  then show "c \<in> N" "c \<noteq> ROOT" "parent_link s c = d" "P c"
    using fs_invD(4) [OF assms(1,2)] by (auto simp: dir_ok_def)
  then show "c \<noteq> 0" using fs_inv_nonzero [OF assms(1)] by blast
qed

lemma resolve_in:
  assumes "fs_inv s N K"
  shows "cur \<in> N \<Longrightarrow> resolve s K cur ws = (r, n) \<Longrightarrow> r = FS_SUCCESS \<and> n \<in> N \<or> (r = FS_NOT_FOUND \<or> r = FS_NOT_A_DIR) \<and> n = 0"
proof (induction ws arbitrary: cur)
  case (Cons w ws)
  then show ?case
    using fs_invD(5) [OF assms] find_in_dir(1) [OF assms Cons.prems(1)]
    by (auto split: if_splits option.splits)
qed simp

lemma parse_loop_resolve:
  assumes "fs_inv s N K"
  shows "cur \<in> N \<Longrightarrow> (path \<noteq> [] \<longrightarrow> hd path \<noteq> SLASH) \<Longrightarrow> parse_loop s cur path = Some (resolve s K cur (comps path))"
proof (induction "length path" arbitrary: cur path rule: less_induct)
  case less
  let ?w = "takeWhile not_slash path" and ?r = "dropWhile slash (dropWhile not_slash path)"
  show ?case
  proof (cases "path = []")
    case False
    have c: "comps path = ?w # comps ?r" using comps_unfold False less(3) by blast
    have hd: "?r \<noteq> [] \<longrightarrow> hd ?r \<noteq> SLASH" using hd_dropWhile by blast
    have IH: "parse_loop s d ?r = Some (resolve s K d (comps ?r))" if "d \<in> N" for d
      using less(1) [OF parse_rest_shorter [OF False] that hd] .
    have ch: "chain s (fchildren (files s cur)) (K cur)"
      using fs_invD(4) [OF assms less(2)] by (simp add: dir_ok_def)
    show ?thesis
      using False IH less(2) fs_invD(5) [OF assms less(2)] find_in_dir(1,3) [OF assms less(2)]
      by (subst parse_loop.simps) (auto simp: c Let_def find_from_chain [OF ch] split: option.split)
  qed (simp add: parse_loop.simps)
qed

lemma parse_path_resolve:
  assumes "fs_inv s N K"
  shows "parse_path (Some p) s = Some (resolve s K ROOT (comps p))"
proof -
  have "dropWhile slash p \<noteq> [] \<longrightarrow> hd (dropWhile slash p) \<noteq> SLASH" using hd_dropWhile by blast
  then show ?thesis using parse_loop_resolve [OF assms fs_invD(1) [OF assms]] by (simp add: parse_path_def)
qed

section \<open>Changes that keep the tree\<close>

text \<open>The nodes of the tree and the memory they own are the same in both states.\<close>

definition same_tree :: "u64 set \<Rightarrow> fsys \<Rightarrow> fsys \<Rightarrow> bool" where
  "same_tree N s t \<longleftrightarrow> (\<forall>n \<in> N. files t n = files s n) \<and>
     (\<forall>n \<in> N - {ROOT}. \<forall>p \<in> owns s n. blocks t p = blocks s p)"

lemma same_tree_refl [simp]: "same_tree N s s"
  by (simp add: same_tree_def)

lemma same_tree_trans: "same_tree N s t \<Longrightarrow> same_tree N t u \<Longrightarrow> same_tree N s u"
  by (auto simp: same_tree_def owns_def)

lemma same_treeD:
  assumes "same_tree N s t" and "n \<in> N"
  shows "files t n = files s n" "owns t n = owns s n" "is_dir t n = is_dir s n" "n \<noteq> ROOT \<Longrightarrow> node_name t n = node_name s n"
  using assms by (auto simp: same_tree_def owns_def is_dir_def node_name_def)

lemma chain_cong: "(\<And>x. x \<in> set xs \<Longrightarrow> fnext (files t x) = fnext (files s x)) \<Longrightarrow> chain t p xs = chain s p xs"
  by (induction xs arbitrary: p) auto

lemma find_cong: "(\<And>x. x \<in> set xs \<Longrightarrow> P x = Q x) \<Longrightarrow> List.find P xs = List.find Q xs"
  by (induction xs) auto

lemma same_tree_dir_ok:
  assumes "same_tree N s t" and "d \<in> N" and "dir_ok s N K d"
  shows "dir_ok t N K d"
proof -
  have k: "x \<in> N" "x \<noteq> ROOT" if "x \<in> set (K d)" for x using assms(3) that by (auto simp: dir_ok_def)
  then have "chain t (fchildren (files t d)) (K d)"
    using assms chain_cong [of "K d" t s] same_treeD(1) [OF assms(1)] by (simp add: dir_ok_def)
  moreover have "inj_on (node_name t) (set (K d)) = inj_on (node_name s) (set (K d))"
    by (rule inj_on_cong) (use same_treeD(4) [OF assms(1)] k in blast)
  ultimately show ?thesis
    using assms k same_treeD [OF assms(1)] by (auto simp: dir_ok_def)
qed

lemma same_tree_parents:
  assumes "same_tree N s t" and "\<forall>n \<in> N. parent_link s n \<in> N" and "n \<in> N"
  shows "(parent_link t ^^ k) n = (parent_link s ^^ k) n \<and> (parent_link s ^^ k) n \<in> N"
proof (induction k)
  case (Suc k)
  then show ?case using assms(2) same_treeD(1) [OF assms(1)] by simp
qed (use assms in simp)

lemma same_tree_inv:
  assumes inv: "fs_inv s N K" and st: "same_tree N s t"
    and live: "0 \<notin> live t" "ROOT \<notin> live t" "\<forall>n \<in> N - {ROOT}. owns s n \<subseteq> live t"
  shows "fs_inv t N K"
proof -
  note D = same_treeD [OF st]
  have "\<forall>d \<in> N. dir_ok t N K d" using same_tree_dir_ok [OF st] fs_invD(4) [OF inv] by blast
  moreover have "\<forall>n \<in> N. \<exists>k. (parent_link t ^^ k) n = ROOT"
    using inv same_tree_parents [OF st] unfolding fs_inv_def by (metis (no_types, lifting))
  moreover have "mem_ok t N"
    using fs_invD(7) [OF inv] live D(2) by (auto simp: mem_ok_def)
  ultimately show ?thesis using inv D fs_invD(1) [OF inv] by (simp add: fs_inv_def)
qed

lemma same_tree_resolve:
  assumes "fs_inv s N K" and "same_tree N s t"
  shows "cur \<in> N \<Longrightarrow> resolve t K cur ws = resolve s K cur ws"
proof (induction ws arbitrary: cur)
  case (Cons w ws)
  have "x \<in> N \<and> x \<noteq> ROOT" if "x \<in> set (K cur)" for x
    using fs_invD(4) [OF assms(1) Cons.prems] that by (auto simp: dir_ok_def)
  then have "List.find (\<lambda>c. node_name t c = w) (K cur) = List.find (\<lambda>c. node_name s c = w) (K cur)"
    using same_treeD(4) [OF assms(2)] by (intro find_cong) metis
  then show ?case
    using Cons same_treeD [OF assms(2) Cons.prems] fs_invD(5) [OF assms(1) Cons.prems] find_in_dir(1) [OF assms(1) Cons.prems]
    by (auto split: option.split)
qed simp

section \<open>The heap\<close>

lemma heap_contract_simps [simp]:
  "heap_contract (s\<lparr>files := F\<rparr>) = heap_contract s" "heap_contract (s\<lparr>blocks := B\<rparr>) = heap_contract s"
  "heap_contract (s\<lparr>live := L\<rparr>) = heap_contract s" "heap_contract (s\<lparr>calls := n\<rparr>) = heap_contract s"
  by (simp_all add: heap_contract_def)

text \<open>The address \<open>p\<close> is no part of the tree and not in use in \<open>s\<close>.\<close>

lemma fresh_outside:
  assumes "fs_inv s N K" and "p \<notin> live s" "p \<noteq> ROOT"
  shows "p \<notin> N" and "n \<in> N - {ROOT} \<Longrightarrow> p \<notin> owns s n"
proof -
  have o: "owns s n \<subseteq> live s" if "n \<in> N - {ROOT}" for n using fs_invD(7) [OF assms(1)] that by (simp add: mem_ok_def)
  moreover have "n \<in> owns s n" for n by (simp add: owns_def)
  ultimately show "p \<notin> N" using assms(2,3) by blast
  show "n \<in> N - {ROOT} \<Longrightarrow> p \<notin> owns s n" using o assms(2) by blast
qed

lemma fs_kmalloc_cases:
  assumes "heap_contract s"
  obtains (failed) "fs_kmalloc sz s = (0, s\<lparr>calls := Suc (calls s)\<rparr>)" "pick s (calls s) sz (live s) = 0"
  | (ok) p where "fs_kmalloc sz s = (p, s\<lparr>calls := Suc (calls s), live := insert p (live s)\<rparr>)" "p \<noteq> 0" "p \<notin> live s" "p \<noteq> ROOT"
  using assms unfolding heap_contract_def fs_kmalloc_def Let_def by (cases "pick s (calls s) sz (live s) = 0") auto


section \<open>Inserting a node\<close>

text \<open>State \<open>t\<close> is \<open>s\<close> with the new node \<open>f\<close> in front of the children of \<open>d\<close>.\<close>

definition inserted :: "u64 set \<Rightarrow> u64 \<Rightarrow> u64 \<Rightarrow> u64 \<Rightarrow> u64 \<Rightarrow> u64 \<Rightarrow> u16 \<Rightarrow> fsys \<Rightarrow> fsys \<Rightarrow> bool" where
  "inserted N d f nm dp sz flags s t \<longleftrightarrow>
     files t f = \<lparr>fid = 0, fname = nm, fparent = d, fchildren = 0, fnext = fchildren (files s d), fdata = dp, fsize = sz,
                  fflags = flags\<rparr> \<and>
     files t d = (files s d)\<lparr>fchildren := f\<rparr> \<and>
     (\<forall>n \<in> N - {d}. files t n = files s n) \<and>
     (\<forall>n \<in> N - {ROOT}. \<forall>p \<in> owns s n. blocks t p = blocks s p)"

text \<open>The new node goes into a directory of the tree that has no child of its name.\<close>

definition insertion :: "fsys \<Rightarrow> fsys \<Rightarrow> u64 set \<Rightarrow> (u64 \<Rightarrow> u64 list) \<Rightarrow> u64 \<Rightarrow> u64 \<Rightarrow> u64 \<Rightarrow> u64 \<Rightarrow> u64 \<Rightarrow> u16 \<Rightarrow> bool" where
  "insertion s t N K d f nm dp sz flags \<longleftrightarrow> fs_inv s N K \<and> d \<in> N \<and> is_dir s d \<and> f \<notin> N \<and> f \<noteq> 0 \<and>
     inserted N d f nm dp sz flags s t \<and> (\<forall>c \<in> set (K d). node_name s c \<noteq> blocks t nm)"

definition kids_new :: "(u64 \<Rightarrow> u64 list) \<Rightarrow> u64 \<Rightarrow> u64 \<Rightarrow> (u64 \<Rightarrow> u64 list)" where
  "kids_new K d f = K(f := [], d := f # K d)"

lemma insertionD:
  assumes "insertion s t N K d f nm dp sz flags"
  shows "fs_inv s N K" "d \<in> N" "is_dir s d" "f \<notin> N" "f \<noteq> 0" "inserted N d f nm dp sz flags s t"
    "\<forall>c \<in> set (K d). node_name s c \<noteq> blocks t nm" "d \<noteq> f" "f \<noteq> ROOT"
    "files t f = \<lparr>fid = 0, fname = nm, fparent = d, fchildren = 0, fnext = fchildren (files s d), fdata = dp,
       fsize = sz, fflags = flags\<rparr>"
    "files t d = (files s d)\<lparr>fchildren := f\<rparr>" "node_name t f = blocks t nm"
  using assms fs_invD(1) by (auto simp: insertion_def inserted_def node_name_def)

lemma insertion_kids:
  assumes "insertion s t N K d f nm dp sz flags" and "c \<in> set (K n)" "n \<in> N"
  shows "c \<in> N \<and> c \<noteq> ROOT \<and> c \<noteq> f"
  using fs_invD(4) [OF insertionD(1) [OF assms(1)] assms(3)] insertionD(4) [OF assms(1)] assms(2) by (auto simp: dir_ok_def)

lemma insertion_old:
  assumes I: "insertion s t N K d f nm dp sz flags" and "n \<in> N"
  shows "parent_link t n = parent_link s n" "is_dir t n = is_dir s n" "owns t n = owns s n" "fnext (files t n) = fnext (files s n)"
    "n \<noteq> d \<Longrightarrow> files t n = files s n"
    "n \<noteq> ROOT \<Longrightarrow> node_name t n = node_name s n"
proof -
  note ins = insertionD(6) [OF I]
  have e: "files t n = files s n \<or> n = d \<and> files t n = (files s n)\<lparr>fchildren := f\<rparr>" using ins assms(2) by (auto simp: inserted_def)
  then show "parent_link t n = parent_link s n" "is_dir t n = is_dir s n" "owns t n = owns s n" "fnext (files t n) = fnext (files s n)"
    "n \<noteq> d \<Longrightarrow> files t n = files s n"
    by (auto simp: is_dir_def owns_def)
  show "node_name t n = node_name s n" if "n \<noteq> ROOT"
  proof -
    have "fname (files t n) = fname (files s n)" using e by auto
    moreover have "blocks t (fname (files s n)) = blocks s (fname (files s n))"
      using ins assms(2) that by (auto simp: inserted_def owns_def)
    ultimately show ?thesis by (simp add: node_name_def)
  qed
qed

lemma insertion_dir_ok:
  assumes I: "insertion s t N K d f nm dp sz flags" and "n \<in> insert f N"
  shows "dir_ok t (insert f N) (kids_new K d f) n"
proof -
  note D = insertionD [OF I] and inv = insertionD(1) [OF I] and kids = insertion_kids [OF I] and old_node = insertion_old [OF I]
  have ch: "chain t p (K n) = chain s p (K n)" if "n \<in> N" for p n
    by (rule chain_cong) (use kids that old_node(4) in blast)
  have inj: "inj_on (node_name t) (set (K n))" if "n \<in> N" for n
  proof -
    have "inj_on (node_name t) (set (K n)) = inj_on (node_name s) (set (K n))"
      by (rule inj_on_cong) (use kids that old_node(6) in blast)
    then show ?thesis using fs_invD(4) [OF inv that] by (simp add: dir_ok_def)
  qed
  consider "n = f" | "n = d" | "n \<in> N" "n \<noteq> d" "n \<noteq> f" using \<open>n \<in> insert f N\<close> by blast
  then show ?thesis
  proof cases
    case 1
    then show ?thesis using D(8) by (auto simp: dir_ok_def D(10) kids_new_def)
  next
    case 2
    note old = fs_invD(4) [OF inv D(2)]
    have "node_name t f \<notin> node_name t ` set (K d)" using D(7) kids [OF _ D(2)] old_node(6) by (auto simp: D(12))
    moreover have "f \<notin> set (K d)" using kids D(2) by blast
    ultimately show ?thesis
      using 2 old D(2,3,5,9) inj [OF D(2)] ch [OF D(2)] old_node(1,2) [OF D(2)] kids [OF _ D(2)] old_node(1)
      by (auto simp: dir_ok_def D(10,11) kids_new_def)
  next
    case 3
    then show ?thesis
      using fs_invD(4) [OF inv 3(1)] ch [OF 3(1)] inj [OF 3(1)] old_node [OF 3(1)] kids [OF _ 3(1)] old_node(1)
      by (auto simp: dir_ok_def kids_new_def)
  qed
qed

lemma insertion_parents:
  assumes I: "insertion s t N K d f nm dp sz flags" and "n \<in> N"
  shows "(parent_link t ^^ k) n = (parent_link s ^^ k) n \<and> (parent_link s ^^ k) n \<in> N"
  by (induction k) (use assms(2) insertion_old(1) [OF I] fs_invD(5) [OF insertionD(1) [OF I]] in auto)

lemma insertion_inv:
  assumes I: "insertion s t N K d f nm dp sz flags" and "mem_ok t (insert f N)"
  shows "fs_inv t (insert f N) (kids_new K d f)"
proof -
  note D = insertionD [OF I] and inv = insertionD(1) [OF I] and old_node = insertion_old [OF I]
  have root: "\<exists>k. (parent_link t ^^ k) n = ROOT" if "n \<in> N" for n
    using inv insertion_parents [OF I that] that unfolding fs_inv_def by metis
  obtain k where "(parent_link t ^^ k) d = ROOT" using root [OF D(2)] by blast
  then have "(parent_link t ^^ Suc k) f = ROOT" using funpow_swap1 [of "parent_link t" k f] by (simp add: D(10))
  then have "\<forall>n \<in> insert f N. \<exists>k. (parent_link t ^^ k) n = ROOT" using root by blast
  moreover have "\<forall>n \<in> insert f N. parent_link t n \<in> insert f N \<and> (n \<noteq> ROOT \<longrightarrow> n \<in> set (kids_new K d f (parent_link t n)))"
    using fs_invD(5,6) [OF inv] old_node(1) D(2,4,8) by (auto simp: D(10) kids_new_def)
  ultimately show ?thesis
    using assms(2) insertion_dir_ok [OF I] fs_invD(1-3) [OF inv] old_node(1,2) by (auto simp: fs_inv_def)
qed

text \<open>What could be looked up before can be looked up now.\<close>

lemma insertion_resolve_old:
  assumes I: "insertion s t N K d f nm dp sz flags"
  shows "cur \<in> N \<Longrightarrow> resolve s K cur ws = (FS_SUCCESS, n) \<Longrightarrow> resolve t (kids_new K d f) cur ws = (FS_SUCCESS, n)"
proof (induction ws arbitrary: cur)
  case (Cons w ws)
  note D = insertionD [OF I] and old_node = insertion_old [OF I]
  have cf: "cur \<noteq> f" using Cons.prems(1) D(4) by blast
  have eq: "List.find (\<lambda>c. node_name t c = w) (K cur) = List.find (\<lambda>c. node_name s c = w) (K cur)"
    by (rule find_cong) (use insertion_kids [OF I] Cons.prems(1) old_node(6) in metis)
  have fd: "List.find (\<lambda>c. node_name t c = w) (kids_new K d f cur) = Some c" if "List.find (\<lambda>c. node_name s c = w) (K cur) = Some c" for c
  proof (cases "cur = d")
    case True
    then have "c \<in> set (K d)" "node_name s c = w" using that by (auto simp: find_Some_iff)
    then have "node_name t f \<noteq> w" using D(7,12) by auto
    then show ?thesis using True that eq by (simp add: kids_new_def)
  qed (use that eq cf in \<open>simp add: kids_new_def\<close>)
  show ?case
    using Cons old_node(1,2) [OF Cons.prems(1)] fs_invD(5) [OF D(1) Cons.prems(1)] find_in_dir(1) [OF D(1) Cons.prems(1)] fd
    by (auto split: if_splits option.splits)
qed simp

lemma insertion_resolve_new:
  assumes I: "insertion s t N K d f nm dp sz flags" and "blocks t nm \<noteq> [DOT]" "blocks t nm \<noteq> [DOT, DOT]"
  shows "resolve t (kids_new K d f) d [blocks t nm] = (FS_SUCCESS, f)"
  using assms(2,3) insertionD [OF I] insertion_old(2) [OF I] by (simp add: kids_new_def)

lemma new_node_cases:
  assumes inv: "fs_inv s N K" and hc: "heap_contract s" and d: "d \<in> N" and nm: "nm \<in> live s"
    and data: "sz \<noteq> 0 \<longrightarrow> data \<noteq> None"
  obtains (failed) t where "new_node d nm data sz flags s = Inr (FS_FAIL, t)" "same_tree N s t" "live t = live s - {nm}"
      "pick t = pick s" "\<exists>n z L. pick s n z L = 0"
  | (ok) f dp t where "new_node d nm data sz flags s = Inr (FS_SUCCESS, t)" "inserted N d f nm dp sz flags s t"
      "f \<notin> live s" "f \<noteq> 0" "f \<noteq> ROOT" "pick t = pick s" "blocks t nm = blocks s nm"
      "sz = 0 \<Longrightarrow> dp = 0 \<and> live t = insert f (live s)"
      "sz \<noteq> 0 \<Longrightarrow> dp \<notin> insert f (live s) \<and> dp \<noteq> 0 \<and> dp \<noteq> ROOT \<and> live t = insert f (insert dp (live s)) \<and>
         blocks t dp = take (unat sz) (the data)"
proof -
  have nz: "nm \<noteq> 0" using nm fs_invD(7) [OF inv] by (auto simp: mem_ok_def)
  let ?z = "\<lparr>fid = 0, fname = 0, fparent = 0, fchildren = 0, fnext = 0, fdata = 0, fsize = 0, fflags = 0\<rparr> :: file_node"
  show thesis
  proof (cases rule: fs_kmalloc_cases [OF hc, of 64])
    case 1
    then show thesis using failed [of "fs_kfree nm (s\<lparr>calls := Suc (calls s)\<rparr>)"] nz
      by (auto simp: new_node_def Let_def fs_kfree_def same_tree_def)
  next
    case (2 f)
    have fN: "f \<notin> N" "n \<in> N - {ROOT} \<Longrightarrow> f \<notin> owns s n" for n using fresh_outside [OF inv 2(3,4)] by auto
    have df: "d \<noteq> f" "f \<noteq> d" using d fN(1) by auto
    let ?s2 = "s\<lparr>calls := Suc (calls s), live := insert f (live s), files := (files s)(f := ?z)\<rparr>"
    show thesis
    proof (cases "sz = 0")
      case True
      show thesis
      proof (rule ok)
        show "new_node d nm data sz flags s = Inr (FS_SUCCESS, ?s2\<lparr>files := (files s)(f := \<lparr>fid = 0, fname = nm, fparent = d,
            fchildren = 0, fnext = fchildren (files s d), fdata = 0, fsize = sz, fflags = flags\<rparr>, d := (files s d)\<lparr>fchildren := f\<rparr>)\<rparr>)"
          using 2 True df by (simp add: new_node_def Let_def set_file_def link_child_def fun_upd_twist)
        show "inserted N d f nm 0 sz flags s (?s2\<lparr>files := (files s)(f := \<lparr>fid = 0, fname = nm, fparent = d,
            fchildren = 0, fnext = fchildren (files s d), fdata = 0, fsize = sz, fflags = flags\<rparr>, d := (files s d)\<lparr>fchildren := f\<rparr>)\<rparr>)"
          using df fN(1) by (auto simp: inserted_def)
      qed (use 2 True in auto)
    next
      case False
      have hc2: "heap_contract ?s2" using hc by simp
      show thesis
      proof (cases rule: fs_kmalloc_cases [OF hc2, of sz])
        case 1
        let ?t = "fs_kfree f (fs_kfree nm (set_file f (fdata_update (\<lambda>_. 0)) (?s2\<lparr>calls := Suc (Suc (calls s))\<rparr>)))"
        show thesis
        proof (rule failed)
          show "new_node d nm data sz flags s = Inr (FS_FAIL, ?t)"
            using 1 2 False by (simp add: new_node_def Let_def set_file_def)
          show "same_tree N s ?t" using fN(1) by (auto simp: same_tree_def fs_kfree_def set_file_def)
          show "live ?t = live s - {nm}" using 2 nz by (auto simp: fs_kfree_def set_file_def)
          show "\<exists>n z L. pick s n z L = 0" using 1(2) by auto
        qed (simp add: fs_kfree_def set_file_def)
      next
        case m2: (2 dp)
        obtain bs where bs: "data = Some bs" using data False by auto
        have dp: "dp \<notin> insert f (live s)" "dp \<noteq> 0" "dp \<noteq> ROOT" using m2 by auto
        then have dpN: "p \<noteq> dp" if "n \<in> N - {ROOT}" "p \<in> owns s n" for n p
          using fresh_outside(2) [OF inv _ _ that(1), of dp] that(2) by auto
        let ?t = "?s2\<lparr>calls := Suc (Suc (calls s)), live := insert dp (insert f (live s)), blocks := (blocks s)(dp := take (unat sz) bs),
            files := (files s)(f := \<lparr>fid = 0, fname = nm, fparent = d, fchildren = 0, fnext = fchildren (files s d),
              fdata = dp, fsize = sz, fflags = flags\<rparr>, d := (files s d)\<lparr>fchildren := f\<rparr>)\<rparr>"
        have run: "new_node d nm data sz flags s = Inr (FS_SUCCESS, ?t)"
          using 2 m2 False df by (simp add: new_node_def Let_def set_file_def link_child_def fs_store_def bs fun_upd_twist)
        show thesis
        proof (rule ok [OF run])
          show "inserted N d f nm dp sz flags s ?t" using df fN(1) dpN by (auto simp: inserted_def)
          show "blocks ?t nm = blocks s nm" using dp nm by auto
        qed (use 2 dp bs False in \<open>auto simp: insert_commute\<close>)
      qed
    qed
  qed
qed

section \<open>Creating a file\<close>

text \<open>The return code that the tree and the path call for, memory permitting.\<close>

definition create_status :: "fsys \<Rightarrow> (u64 \<Rightarrow> u64 list) \<Rightarrow> bytes \<Rightarrow> u32" where
  "create_status s K p =
     (if p = [] \<or> last p = SLASH then FS_INV_PATH
      else if last_name p = [DOT] \<or> last_name p = [DOT, DOT] then FS_FAIL
      else case resolve s K ROOT (comps (parent_of p)) of (st, d) \<Rightarrow>
        if st \<noteq> FS_SUCCESS then st
        else if \<not> is_dir s d then FS_NOT_A_DIR
        else if \<exists>c \<in> set (K d). node_name s c = last_name p then FS_ALR_EXIST
        else FS_SUCCESS)"

lemma last_name_word: "SLASH \<notin> set (last_name p)"
  using set_takeWhileD [of SLASH not_slash "rev p"] by (auto simp: last_name_def)

lemma path_split:
  assumes "SLASH \<in> set p"
  obtains q where "p = q @ SLASH # last_name p" "length q = length p - length (last_name p) - 1"
proof -
  let ?d = "dropWhile not_slash (rev p)"
  have "?d \<noteq> []" using assms by (auto simp: dropWhile_eq_Nil_conv)
  moreover have "hd ?d = SLASH" using hd_dropWhile [OF calculation] by simp
  ultimately obtain r where "?d = SLASH # r" by (cases ?d) auto
  then have "rev p = takeWhile not_slash (rev p) @ SLASH # r" by (metis takeWhile_dropWhile_id)
  then have "p = rev r @ SLASH # last_name p" by (metis append.assoc append_Cons append_Nil last_name_def rev.simps(2) rev_append rev_rev_ident)
  then show thesis using that [of "rev r"] by (metis One_nat_def Suc_eq_plus1 add_diff_cancel_right' diff_diff_left length_append list.size(4) add.commute)
qed

lemma last_name_nonempty: "p \<noteq> [] \<Longrightarrow> last p \<noteq> SLASH \<Longrightarrow> last_name p \<noteq> []"
  by (cases p rule: rev_cases) (auto simp: last_name_def)

lemma resolve_append:
  "resolve s K cur (xs @ ys) = (case resolve s K cur xs of (r, n) \<Rightarrow> if r = FS_SUCCESS then resolve s K n ys else (r, n))"
  by (induction xs arbitrary: cur) (auto split: option.split)

lemma resolve_path_split:
  assumes "p \<noteq> []" and "last p \<noteq> SLASH"
  shows "resolve s K ROOT (comps p) = resolve s K ROOT (comps (parent_of p) @ [last_name p])"
proof (cases "SLASH \<in> set p")
  case True
  then obtain q where q: "p = q @ SLASH # last_name p" "length q = length p - length (last_name p) - 1"
    by (rule path_split)
  have "comps p = comps q @ [last_name p]"
    using comps_append_slash [of q "last_name p"] comps_word [OF last_name_word last_name_nonempty [OF assms]] q(1) by simp
  moreover have "comps (parent_of p) = comps q"
  proof (cases "q = []")
    case True
    then show ?thesis using \<open>SLASH \<in> set p\<close> q(2) by (simp add: parent_of_def Let_def)
  next
    case False
    then have "take (length p - length (last_name p) - 1) p = q" using q by (metis append_eq_conv_conj)
    then show ?thesis using \<open>SLASH \<in> set p\<close> q(2) False by (auto simp: parent_of_def Let_def)
  qed
  ultimately show ?thesis by simp
next
  case False
  have "last_name p = p"
  proof -
    have tw: "takeWhile not_slash (rev p) = rev p" using False by (auto simp: takeWhile_eq_all_conv)
    show ?thesis unfolding last_name_def tw by simp
  qed
  then show ?thesis using False assms by (simp add: parent_of_def comps_word)
qed

lemma inserted_base:
  assumes "same_tree N s s'" and "d \<in> N" and "inserted N d f nm dp sz flags s' t"
  shows "inserted N d f nm dp sz flags s t"
  using assms same_treeD(2) [OF assms(1)] unfolding inserted_def same_tree_def by auto

lemma mem_ok_insert:
  assumes I: "insertion s t N K d f nm dp sz flags" and f: "f \<noteq> ROOT" and live: "owns t f \<inter> live s = {}" "live t = live s \<union> owns t f"
    and z: "0 \<notin> owns t f" "ROOT \<notin> owns t f"
  shows "mem_ok t (insert f N)"
proof -
  note m = fs_invD(7) [OF insertionD(1) [OF I]]
  have "owns t n = owns s n" if "n \<in> N" for n using insertion_old(3) [OF I that] .
  then show ?thesis using m live z insertionD(4) [OF I] unfolding mem_ok_def by (auto; blast)
qed


lemma same_tree_upd:
  assumes "fs_inv s N K" and "same_tree N s t" and "p \<notin> live s" "p \<noteq> ROOT"
  shows "same_tree N s (fs_store p bs (t\<lparr>calls := c, live := L\<rparr>))"
proof -
  have "q \<noteq> p" if "n \<in> N - {ROOT}" "q \<in> owns s n" for n q using fresh_outside(2) [OF assms(1,3,4) that(1)] that(2) by blast
  then show ?thesis using assms(2) by (auto simp: same_tree_def fs_store_def)
qed

lemma same_tree_kfree [simp]: "same_tree N s (fs_kfree p t) = same_tree N s t"
  by (simp add: same_tree_def fs_kfree_def)

lemma fs_kfree_commute: "fs_kfree p (fs_kfree q s) = fs_kfree q (fs_kfree p s)"
proof -
  have "live s - {q} - {p} = live s - {p} - {q}" by blast
  then show ?thesis by (simp add: fs_kfree_def)
qed

text \<open>
  The state \<open>s4\<close> in which \<open>create_entry\<close> starts: the tree of \<open>s\<close>, and two more live strings.
\<close>

definition entry_state :: "u64 set \<Rightarrow> fsys \<Rightarrow> u64 \<Rightarrow> bytes \<Rightarrow> u64 \<Rightarrow> bytes \<Rightarrow> fsys \<Rightarrow> bool" where
  "entry_state N s pp path nm name s4 \<longleftrightarrow> same_tree N s s4 \<and> pick s4 = pick s \<and>
     live s4 = insert nm (insert pp (live s)) \<and> blocks s4 pp = path \<and> blocks s4 nm = name \<and>
     pp \<notin> insert ROOT (live s) \<and> nm \<notin> insert ROOT (live s) \<and> nm \<noteq> pp \<and> nm \<noteq> 0 \<and> pp \<noteq> 0"

lemma entry_state_inv:
  assumes inv: "fs_inv s N K" and es: "entry_state N s pp path nm name s4"
  shows "fs_inv s4 N K" "fs_inv (fs_kfree pp s4) N K" "same_tree N s (fs_kfree pp s4)" "live (fs_kfree pp s4) = insert nm (live s)"
    "live (fs_kfree nm (fs_kfree pp s4)) = live s" "parse_path (Some path) s4 = Some (resolve s K ROOT (comps path))"
proof -
  have live0: "0 \<notin> live s" "ROOT \<notin> live s" "\<forall>n \<in> N - {ROOT}. owns s n \<subseteq> live s"
    using fs_invD(7) [OF inv] by (auto simp: mem_ok_def)
  have st: "same_tree N s s4" using es by (simp add: entry_state_def)
  show i4: "fs_inv s4 N K"
    by (rule same_tree_inv [OF inv st]) (use es live0 in \<open>auto simp: entry_state_def\<close>)
  show st5: "same_tree N s (fs_kfree pp s4)" using st by simp
  show lv5: "live (fs_kfree pp s4) = insert nm (live s)" using es by (auto simp: entry_state_def fs_kfree_def)
  show "fs_inv (fs_kfree pp s4) N K"
    by (rule same_tree_inv [OF inv st5]) (use es live0 lv5 in \<open>auto simp: entry_state_def\<close>)
  show "live (fs_kfree nm (fs_kfree pp s4)) = live s" using es by (auto simp: entry_state_def fs_kfree_def)
  show "parse_path (Some path) s4 = Some (resolve s K ROOT (comps path))"
    using parse_path_resolve [OF i4] same_tree_resolve [OF inv st fs_invD(1) [OF inv]] by simp
qed

text \<open>The part of \<open>create_status\<close> that \<open>create_entry\<close> decides.\<close>

definition entry_status :: "fsys \<Rightarrow> (u64 \<Rightarrow> u64 list) \<Rightarrow> bytes \<Rightarrow> bytes \<Rightarrow> u32" where
  "entry_status s K path name = (case resolve s K ROOT (comps path) of (st, d) \<Rightarrow>
        if st \<noteq> FS_SUCCESS then st
        else if \<not> is_dir s d then FS_NOT_A_DIR
        else if \<exists>c \<in> set (K d). node_name s c = name then FS_ALR_EXIST
        else FS_SUCCESS)"

lemma find_child_spec:
  assumes inv: "fs_inv s N K" and inv': "fs_inv t N K" and st: "same_tree N s t" and d: "d \<in> N"
  shows "find_child t d nm = Some (case List.find (\<lambda>c. node_name s c = nm) (K d) of None \<Rightarrow> 0 | Some c \<Rightarrow> c)"
proof -
  have ch: "chain t (fchildren (files t d)) (K d)" using fs_invD(4) [OF inv' d] by (simp add: dir_ok_def)
  have "node_name t c = node_name s c" if "c \<in> set (K d)" for c
    using fs_invD(4) [OF inv d] that by (intro same_treeD(4) [OF st]) (auto simp: dir_ok_def)
  then show ?thesis
    unfolding find_child_def find_from_chain [OF ch]
    using find_cong [of "K d" "\<lambda>c. node_name t c = nm" "\<lambda>c. node_name s c = nm"] by simp
qed

lemma create_entry_new:
  assumes inv: "fs_inv s N K" and hc: "heap_contract s" and data: "sz \<noteq> 0 \<longrightarrow> data \<noteq> None"
    and es: "entry_state N s pp path nm name s4" and d: "d \<in> N" "is_dir s d" and fresh: "\<forall>c \<in> set (K d). node_name s c \<noteq> name"
  obtains (failed) t where "new_node d nm data sz flags (fs_kfree pp s4) = Inr (FS_FAIL, t)" "same_tree N s t" "live t = live s"
      "pick t = pick s" "\<exists>n z L. pick s n z L = 0"
  | (ok) f dp t where "new_node d nm data sz flags (fs_kfree pp s4) = Inr (FS_SUCCESS, t)"
      "insertion s t N K d f nm dp sz flags" "mem_ok t (insert f N)" "blocks t nm = name" "pick t = pick s"
      "sz \<noteq> 0 \<Longrightarrow> dp \<noteq> 0 \<and> blocks t dp = take (unat sz) (the data)" "live t = live s \<union> owns t f"
proof -
  note E = entry_state_inv [OF inv es]
  have nm: "nm \<notin> live s" "nm \<noteq> 0" "nm \<noteq> ROOT" using es by (auto simp: entry_state_def)
  have pk: "pick (fs_kfree pp s4) = pick s" and b5: "blocks (fs_kfree pp s4) nm = name"
    using es by (simp_all add: entry_state_def fs_kfree_def)
  have hc5: "heap_contract (fs_kfree pp s4)" using hc pk by (simp add: heap_contract_def)
  have nml: "nm \<in> live (fs_kfree pp s4)" using E(4) by simp
  show thesis
  proof (cases rule: new_node_cases [OF E(2) hc5 d(1) nml data, of flags])
    case n1: (1 t)
    then show thesis using failed [of t] same_tree_trans [OF E(3) n1(2)] E(4) nm pk by auto
  next
    case n2: (2 f dp t)
    have ins: "insertion s t N K d f nm dp sz flags"
      using inv d n2 inserted_base [OF E(3) d(1) n2(2)] fresh b5 fresh_outside(1) [OF E(2) n2(3,5)]
      by (simp add: insertion_def)
    have ow: "owns t f = {f, nm} \<union> (if dp = 0 then {} else {dp})"
      using insertionD(10) [OF ins] by (simp add: owns_def)
    have lt: "live t = live s \<union> owns t f" and dj: "owns t f \<inter> live s = {}" and zz: "0 \<notin> owns t f" "ROOT \<notin> owns t f"
      using ow n2(3-5,8,9) E(4) nm by (cases "sz = 0"; auto)+
    show thesis
      by (rule ok [OF n2(1) ins mem_ok_insert [OF ins n2(5) dj lt zz]]) (use n2 b5 pk lt in auto)
  qed
qed

lemma create_entry_cases:
  assumes inv: "fs_inv s N K" and hc: "heap_contract s" and data: "sz \<noteq> 0 \<longrightarrow> data \<noteq> None"
    and es: "entry_state N s pp path nm name s4"
  obtains (error) r t where "create_entry pp nm data sz flags s4 = Some (Inr (r, t))" "r \<noteq> FS_SUCCESS"
      "same_tree N s t" "live t = live s" "pick t = pick s" "r = entry_status s K path name \<or> r = FS_FAIL \<and> (\<exists>n z L. pick s n z L = 0)"
  | (ok) d f dp t where "create_entry pp nm data sz flags s4 = Some (Inr (FS_SUCCESS, t))"
      "entry_status s K path name = FS_SUCCESS" "resolve s K ROOT (comps path) = (FS_SUCCESS, d)"
      "insertion s t N K d f nm dp sz flags" "mem_ok t (insert f N)" "blocks t nm = name" "pick t = pick s"
      "sz \<noteq> 0 \<Longrightarrow> dp \<noteq> 0 \<and> blocks t dp = take (unat sz) (the data)" "live t = live s \<union> owns t f"
proof -
  note E = entry_state_inv [OF inv es]
  let ?s5 = "fs_kfree pp s4" and ?e = "fs_kfree nm (fs_kfree pp s4)"
  have b: "blocks s4 pp = path" "blocks ?s5 nm = name" "pick ?e = pick s"
    using es by (simp_all add: entry_state_def fs_kfree_def)
  have e: "same_tree N s ?e" using E(3) by simp
  obtain st d where rs: "resolve s K ROOT (comps path) = (st, d)" by fastforce
  have run: "create_entry pp nm data sz flags s4 =
      (if st \<noteq> FS_SUCCESS then Some (Inr (st, ?e))
       else if \<not> is_dir ?s5 d then Some (Inr (FS_NOT_A_DIR, ?e))
       else case find_child ?s5 d name of None \<Rightarrow> None
         | Some c \<Rightarrow> if c \<noteq> 0 then Some (Inr (FS_ALR_EXIST, ?e)) else Some (new_node d nm data sz flags ?s5))"
    unfolding create_entry_def using E(6) rs b by (simp add: Let_def)
  have stat: "entry_status s K path name = (if st \<noteq> FS_SUCCESS then st else if \<not> is_dir s d then FS_NOT_A_DIR
      else if \<exists>c \<in> set (K d). node_name s c = name then FS_ALR_EXIST else FS_SUCCESS)"
    using rs by (simp add: entry_status_def)
  show thesis
  proof (cases "st = FS_SUCCESS \<and> is_dir s d")
    case False
    then show thesis
      using error [of "if st \<noteq> FS_SUCCESS then st else FS_NOT_A_DIR" ?e] run e E(5) b stat resolve_in [OF inv fs_invD(1) [OF inv] rs]
        same_treeD(3) [OF E(3)] by auto
  next
    case True
    then have d: "d \<in> N" using resolve_in [OF inv fs_invD(1) [OF inv] rs] by auto
    note fc = find_child_spec [OF inv E(2,3) d, of name]
    have dd: "is_dir ?s5 d = is_dir s d" using same_treeD(3) [OF E(3) d] .
    show thesis
    proof (cases "List.find (\<lambda>c. node_name s c = name) (K d)")
      case (Some c)
      then have "\<exists>c \<in> set (K d). node_name s c = name" by (auto simp: find_Some_iff)
      then show thesis
        using error [of FS_ALR_EXIST ?e] run e E(5) b stat True dd fc Some find_in_dir(3) [OF inv d Some] by simp
    next
      case None
      then have fresh: "\<forall>c \<in> set (K d). node_name s c \<noteq> name" by (auto simp: find_None_iff)
      have run2: "create_entry pp nm data sz flags s4 = Some (new_node d nm data sz flags ?s5)"
        using run True dd fc None by simp
      have stat2: "entry_status s K path name = FS_SUCCESS" using stat True fresh by auto
      have isd: "is_dir s d" using True by blast
      show thesis
      proof (cases rule: create_entry_new [OF inv hc data es d isd fresh, of flags])
        case (1 t)
        then show thesis using error [of FS_FAIL t] run2 by simp
      next
        case (2 f dp t)
        then show thesis using ok [of t d f dp] run2 stat2 rs True by auto
      qed
    qed
  qed
qed

lemma create_file_cases:
  assumes inv: "fs_inv s N K" and hc: "heap_contract s" and data: "sz \<noteq> 0 \<longrightarrow> data \<noteq> None"
  obtains (error) r t where "create_file (Some p) data sz flags s = Some (Inr (r, t))" "r \<noteq> FS_SUCCESS"
      "same_tree N s t" "live t = live s" "pick t = pick s" "r = create_status s K p \<or> r = FS_FAIL \<and> (\<exists>n z L. pick s n z L = 0)"
  | (ok) d f nm dp t where "create_file (Some p) data sz flags s = Some (Inr (FS_SUCCESS, t))"
      "create_status s K p = FS_SUCCESS" "resolve s K ROOT (comps (parent_of p)) = (FS_SUCCESS, d)"
      "insertion s t N K d f nm dp sz flags" "mem_ok t (insert f N)" "blocks t nm = last_name p" "pick t = pick s"
      "sz \<noteq> 0 \<Longrightarrow> dp \<noteq> 0 \<and> blocks t dp = take (unat sz) (the data)" "live t = live s \<union> owns t f"
proof -
  note cf = create_file_def [of "Some p" data sz flags s]
  have guard: "\<not> (Some p = None \<or> data = None \<and> sz \<noteq> 0 \<and> \<not> (flags AND FS_IS_DIRECTORY \<noteq> 0))" using data by auto
  let ?z1 = "if SLASH \<notin> set p then 2 else word_of_nat (length p - length (last_name p) - 1 + 2) :: u64"
  let ?z2 = "word_of_nat (length (last_name p) + 1) :: u64"
  show thesis
  proof (cases "p = [] \<or> last p = SLASH")
    case True
    show thesis by (rule error [of FS_INV_PATH s]) (use True cf guard in \<open>auto simp: create_status_def\<close>)
  next
    case pok: False
    show thesis
    proof (cases rule: fs_kmalloc_cases [OF hc, of ?z1])
      case 1
      show thesis by (rule error [of FS_FAIL "s\<lparr>calls := Suc (calls s)\<rparr>"])
          (use 1 pok cf guard in \<open>auto simp: Let_def same_tree_def\<close>)
    next
      case (2 pp)
      let ?s2 = "fs_store pp (parent_of p) (s\<lparr>calls := Suc (calls s), live := insert pp (live s)\<rparr>)"
      have st2: "same_tree N s ?s2" by (rule same_tree_upd [OF inv same_tree_refl 2(3,4)])
      have hc2: "heap_contract ?s2" and pk2: "pick ?s2 = pick s" and lv2: "live ?s2 = insert pp (live s)"
        using hc by (simp_all add: fs_store_def)
      show thesis
      proof (cases rule: fs_kmalloc_cases [OF hc2, of ?z2])
        case f2: 1
        show thesis
          by (rule error [of FS_FAIL "fs_kfree pp (?s2\<lparr>calls := Suc (calls ?s2)\<rparr>)"])
            (use 2 f2 pok cf guard st2 lv2 pk2 in \<open>auto simp: Let_def same_tree_def fs_kfree_def\<close>)
      next
        case m2: (2 nm)
        let ?s4 = "fs_store nm (last_name p) (?s2\<lparr>calls := Suc (calls ?s2), live := insert nm (live ?s2)\<rparr>)"
        have nm: "nm \<noteq> 0" "nm \<noteq> pp" "nm \<notin> live s" "nm \<noteq> ROOT" using m2 lv2 by auto
        have "same_tree N s ?s4" by (rule same_tree_upd [OF inv st2 nm(3,4)])
        then have es: "entry_state N s pp (parent_of p) nm (last_name p) ?s4"
          using 2 nm by (simp add: entry_state_def fs_store_def)
        show thesis
        proof (cases "last_name p = [DOT] \<or> last_name p = [DOT, DOT]")
          case True
          have run: "create_file (Some p) data sz flags s = Some (Inr (FS_FAIL, fs_kfree pp (fs_kfree nm ?s4)))"
            using 2(1,2) m2(1) nm(1) pok cf guard True by (auto simp: Let_def)
          have "same_tree N s (fs_kfree pp (fs_kfree nm ?s4))" using entry_state_inv(3) [OF inv es] by simp
          moreover have "live (fs_kfree pp (fs_kfree nm ?s4)) = live s"
            unfolding fs_kfree_commute [of pp nm] by (rule entry_state_inv(5) [OF inv es])
          moreover have "pick (fs_kfree pp (fs_kfree nm ?s4)) = pick s" by (simp add: fs_kfree_def fs_store_def)
          moreover have "create_status s K p = FS_FAIL" using pok True by (simp add: create_status_def)
          ultimately show thesis using error [OF run] by simp
        next
          case nd: False
          have run: "create_file (Some p) data sz flags s = create_entry pp nm data sz flags ?s4"
            using 2(1,2) m2(1) nm(1) pok data nd unfolding create_file_def by (auto simp: Let_def)
          have stat: "create_status s K p = entry_status s K (parent_of p) (last_name p)"
            using pok nd by (simp add: create_status_def entry_status_def)
          show thesis
            by (cases rule: create_entry_cases [OF inv hc data es, of flags])
              (use error ok in \<open>simp_all add: run stat\<close>)
        qed
      qed
    qed
  qed
qed

section \<open>Deleting a file\<close>

lemma unlink_loop_spec:
  "chain s (load_link s d link) (xs @ n # ys) \<Longrightarrow> n \<notin> set xs \<Longrightarrow>
     unlink_loop s d n link = Some (if xs = [] then link else Some (last xs))"
proof (induction xs arbitrary: link)
  case Nil
  then show ?case by (subst unlink_loop.simps) simp
next
  case (Cons x xs)
  then have "chain s (load_link s d (Some x)) (xs @ n # ys)" by (simp add: load_link_def)
  from Cons.IH [OF this] Cons.prems show ?case by (subst unlink_loop.simps) auto
qed

lemma chain_skip:
  assumes "chain s p (xs @ n # ys)" and "xs \<noteq> []"
    and "\<forall>x \<in> set (butlast xs) \<union> set ys. fnext (files t x) = fnext (files s x)" and "fnext (files t (last xs)) = fnext (files s n)"
  shows "chain t p (xs @ ys)"
  using assms
proof (induction xs arbitrary: p)
  case (Cons x xs)
  show ?case
  proof (cases "xs = []")
    case True
    then have "chain s (fnext (files s n)) ys" using Cons.prems(1) by simp
    moreover have "chain t q ys = chain s q ys" for q by (rule chain_cong) (use Cons.prems(3) in simp)
    ultimately show ?thesis using Cons.prems True by simp
  next
    case False
    then show ?thesis using Cons by auto
  qed
qed simp

lemma chain_last: "chain s p (xs @ n # ys) \<Longrightarrow> xs \<noteq> [] \<Longrightarrow> fnext (files s (last xs)) = n"
  by (induction xs arbitrary: p) (auto split: if_splits)

text \<open>State \<open>t\<close> is \<open>s\<close> with the node \<open>n\<close> taken out of the children \<open>xs @ n # ys\<close> of \<open>d\<close>.\<close>

definition unlinked :: "u64 \<Rightarrow> u64 \<Rightarrow> u64 list \<Rightarrow> fsys \<Rightarrow> fsys \<Rightarrow> bool" where
  "unlinked d n xs s t \<longleftrightarrow> blocks t = blocks s \<and> pick t = pick s \<and>
     (\<forall>m. fparent (files t m) = fparent (files s m) \<and> fflags (files t m) = fflags (files s m) \<and>
        fname (files t m) = fname (files s m) \<and> fdata (files t m) = fdata (files s m) \<and> fsize (files t m) = fsize (files s m)) \<and>
     (\<forall>m. xs \<noteq> [] \<or> m \<noteq> d \<longrightarrow> fchildren (files t m) = fchildren (files s m)) \<and>
     (xs = [] \<longrightarrow> fchildren (files t d) = fnext (files s n)) \<and>
     (\<forall>m. m \<noteq> n \<and> (xs = [] \<or> m \<noteq> last xs) \<longrightarrow> fnext (files t m) = fnext (files s m)) \<and>
     (xs \<noteq> [] \<longrightarrow> fnext (files t (last xs)) = fnext (files s n))"

lemma unlink_child_spec:
  assumes ch: "chain s (fchildren (files s d)) (xs @ n # ys)" and "n \<notin> set xs" "n \<noteq> 0" "n \<noteq> d"
  obtains t where "unlink_child d n s = Some (True, t)" "unlinked d n xs s t" "live t = live s"
proof -
  have loop: "unlink_loop s d n None = Some (if xs = [] then None else Some (last xs))"
    using unlink_loop_spec [of s d None xs n ys] assms by (simp add: load_link_def)
  have ld: "load_link s d (if xs = [] then None else Some (last xs)) = n"
    using ch chain_last [OF ch] by (auto simp: load_link_def)
  let ?s1 = "store_link d (if xs = [] then None else Some (last xs)) (fnext (files s n)) s"
  have lx: "xs \<noteq> [] \<longrightarrow> last xs \<noteq> n" using assms(2) by auto
  have "unlink_child d n s = Some (True, set_file n (fnext_update (\<lambda>_. 0)) ?s1)"
    using loop ld assms(3) by (simp add: unlink_child_def Let_def)
  then show thesis
    by (rule that) (use lx assms(4) in \<open>auto simp: unlinked_def store_link_def set_file_def\<close>)
qed

text \<open>What deletion relies on: \<open>n\<close> is a node without children, not the root.\<close>

definition deletion :: "fsys \<Rightarrow> fsys \<Rightarrow> u64 set \<Rightarrow> (u64 \<Rightarrow> u64 list) \<Rightarrow> u64 \<Rightarrow> bool" where
  "deletion s t N K n \<longleftrightarrow> fs_inv s N K \<and> n \<in> N \<and> n \<noteq> ROOT \<and> K n = [] \<and>
     (\<exists>xs ys. K (parent_link s n) = xs @ n # ys \<and> unlinked (parent_link s n) n xs s t) \<and> live t = live s - owns s n"

definition kids_del :: "fsys \<Rightarrow> (u64 \<Rightarrow> u64 list) \<Rightarrow> u64 \<Rightarrow> (u64 \<Rightarrow> u64 list)" where
  "kids_del s K n = K(parent_link s n := remove1 n (K (parent_link s n)))"

lemma deletion_attrs:
  assumes "deletion s t N K n"
  shows "parent_link t m = parent_link s m" "is_dir t m = is_dir s m" "owns t m = owns s m" "node_name t m = node_name s m"
    "m \<in> N \<Longrightarrow> parent_link s m \<noteq> n"
proof -
  obtain xs where u: "unlinked (parent_link s n) n xs s t" using assms by (auto simp: deletion_def)
  then show "parent_link t m = parent_link s m" "is_dir t m = is_dir s m" "owns t m = owns s m" "node_name t m = node_name s m"
    by (simp_all add: unlinked_def is_dir_def owns_def node_name_def)
  have inv: "fs_inv s N K" and n: "n \<noteq> ROOT" "K n = []" using assms by (auto simp: deletion_def)
  show "parent_link s m \<noteq> n" if "m \<in> N"
  proof (cases "m = ROOT")
    case True
    then show ?thesis using fs_invD(3) [OF inv] n(1) by simp
  next
    case False
    then show ?thesis using fs_invD(6) [OF inv that] n(2) by auto
  qed
qed

lemma deletion_dir_ok:
  assumes del: "deletion s t N K n" and m: "m \<in> N" "m \<noteq> n"
  shows "dir_ok t (N - {n}) (kids_del s K n) m"
proof -
  have inv: "fs_inv s N K" and n: "n \<in> N" "n \<noteq> ROOT" using del by (auto simp: deletion_def)
  define d where "d = parent_link s n"
  obtain xs ys where K: "K d = xs @ n # ys" and u: "unlinked d n xs s t" using del by (auto simp: deletion_def d_def)
  note at = deletion_attrs [OF del]
  have dN: "d \<in> N" using fs_invD(5) [OF inv n(1)] by (simp add: d_def)
  note okd = fs_invD(4) [OF inv dN, unfolded dir_ok_def K] and okm = fs_invD(4) [OF inv m(1), unfolded dir_ok_def]
  have nx: "n \<notin> set xs" "n \<notin> set ys" "distinct (xs @ ys)" using okd by auto
  have names: "inj_on (node_name t) (set (K m))" using okm at(4) by (simp add: inj_on_def)
  show ?thesis
  proof (cases "m = d")
    case True
    have K': "kids_del s K n d = xs @ ys" using nx(1) by (simp add: kids_del_def d_def [symmetric] K remove1_append)
    have "chain t (fchildren (files t d)) (xs @ ys)"
    proof (cases "xs = []")
      case True
      then have "chain s (fnext (files s n)) ys" using okd by simp
      moreover have "chain t q ys = chain s q ys" for q
        by (rule chain_cong) (use u True nx in \<open>auto simp: unlinked_def\<close>)
      ultimately show ?thesis using u True by (simp add: unlinked_def)
    next
      case False
      have eq: "fnext (files t x) = fnext (files s x)" if "x \<in> set (butlast xs) \<union> set ys" for x
      proof -
        have "x \<noteq> n" using that nx by (auto dest: in_set_butlastD)
        moreover have "x \<noteq> last xs"
          using that nx(3) False by (cases xs rule: rev_cases) auto
        ultimately show ?thesis using u by (simp add: unlinked_def)
      qed
      have "chain t (fchildren (files s d)) (xs @ ys)"
        by (rule chain_skip [where s = s and n = n]) (use okd u False eq in \<open>auto simp: unlinked_def\<close>)
      then show ?thesis using u False by (simp add: unlinked_def)
    qed
    moreover have "inj_on (node_name t) (set (xs @ ys))"
      using inj_on_subset [OF names, of "set (xs @ ys)"] by (auto simp: True K)
    moreover have "set (xs @ n # ys) \<subseteq> N - {ROOT}" and pd: "\<forall>c \<in> set (xs @ n # ys). parent_link s c = d" and isd: "is_dir s d"
      using okd by blast+
    then have "set (xs @ ys) \<subseteq> N - {n} - {ROOT}" using nx(1,2) by auto
    moreover have "\<forall>c \<in> set (xs @ ys). parent_link t c = d" 
    proof
      fix c
      assume "c \<in> set (xs @ ys)"
      then have "parent_link s c = d" using pd by (intro bspec [OF pd]) auto
      then show "parent_link t c = d" unfolding at(1) .
    qed
    moreover have "is_dir t d" using isd at(2) by simp
    ultimately show ?thesis using True nx(3) K' unfolding dir_ok_def by simp
  next
    case False
    have "fnext (files t x) = fnext (files s x)" if "x \<in> set (K m)" for x
    proof -
      have "parent_link s x = m" using okm that by blast
      moreover have "parent_link s y = d" if "y \<in> set (xs @ n # ys)" for y using okd that by blast
      ultimately have "x \<notin> set (xs @ n # ys)" using False by metis
      then have "x \<noteq> n" "xs = [] \<or> x \<noteq> last xs" using last_in_set [of xs] by auto
      then show ?thesis using u by (simp add: unlinked_def)
    qed
    then have "chain t (fchildren (files t m)) (K m)"
      using chain_cong [of "K m" t s] okm u False by (auto simp: unlinked_def)
    moreover have "n \<notin> set (K m)" using okm False unfolding d_def by metis
    moreover have "kids_del s K n m = K m" using False by (simp add: kids_del_def d_def)
    ultimately show ?thesis
      using okm names unfolding dir_ok_def at(1,2) by auto
  qed
qed

lemma deletion_parents:
  assumes del: "deletion s t N K n" and "m \<in> N" "m \<noteq> n"
  shows "(parent_link t ^^ k) m = (parent_link s ^^ k) m \<and> (parent_link s ^^ k) m \<in> N - {n}"
proof (induction k)
  case (Suc k)
  have inv: "fs_inv s N K" using del by (simp add: deletion_def)
  show ?case using Suc deletion_attrs [OF del] fs_invD(5) [OF inv] by auto
qed (use assms in simp)

lemma deletion_inv:
  assumes del: "deletion s t N K n"
  shows "fs_inv t (N - {n}) (kids_del s K n)"
proof -
  have inv: "fs_inv s N K" and n: "n \<in> N" "n \<noteq> ROOT" and lv: "live t = live s - owns s n"
    using del by (auto simp: deletion_def)
  note at = deletion_attrs [OF del]
  have "\<forall>m \<in> N - {n}. \<exists>k. (parent_link t ^^ k) m = ROOT"
    using inv deletion_parents [OF del] unfolding fs_inv_def by (metis DiffE insertI1)
  moreover have "mem_ok t (N - {n})"
    using fs_invD(7) [OF inv] n at(3) lv unfolding mem_ok_def by (auto; blast)
  moreover have "\<forall>m \<in> N - {n}. parent_link t m \<in> N - {n} \<and> (m \<noteq> ROOT \<longrightarrow> m \<in> set (kids_del s K n (parent_link t m)))"
    using fs_invD(5,6) [OF inv] at(1,5) by (auto simp: kids_del_def in_set_remove1) metis
  ultimately show ?thesis
    using n fs_invD(1-3) [OF inv] at(1,2) deletion_dir_ok [OF del] by (auto simp: fs_inv_def)
qed

lemma inj_find:
  assumes "inj_on g (set xs)" and "n \<in> set xs"
  shows "List.find (\<lambda>c. g c = g n) xs = Some n"
proof (cases "List.find (\<lambda>c. g c = g n) xs")
  case None
  then show ?thesis using assms(2) by (auto simp: find_None_iff)
next
  case (Some c)
  then have "c \<in> set xs" "g c = g n" by (auto simp: find_Some_iff)
  then show ?thesis using Some assms by (auto dest: inj_onD)
qed

lemma find_remove1:
  assumes "inj_on g (set xs)" and "distinct xs" and "n \<in> set xs"
  shows "List.find (\<lambda>c. g c = w) (remove1 n xs) = (if g n = w then None else List.find (\<lambda>c. g c = w) xs)"
proof (cases "g n = w")
  case True
  then show ?thesis using assms by (auto simp: find_None_iff dest: inj_onD)
next
  case False
  then show ?thesis by (induction xs) auto
qed

lemma deletion_find:
  assumes del: "deletion s t N K n" and "cur \<in> N" "cur \<noteq> n"
  shows "List.find (\<lambda>c. node_name t c = w) (kids_del s K n cur) =
    (if List.find (\<lambda>c. node_name s c = w) (K cur) = Some n then None else List.find (\<lambda>c. node_name s c = w) (K cur))"
proof -
  have inv: "fs_inv s N K" and n: "n \<in> N" "n \<noteq> ROOT" using del by (auto simp: deletion_def)
  note at = deletion_attrs [OF del]
  have ok: "inj_on (node_name s) (set (K cur))" "distinct (K cur)" "\<forall>c \<in> set (K cur). parent_link s c = cur"
    using fs_invD(4) [OF inv assms(2)] by (auto simp: dir_ok_def)
  show ?thesis
  proof (cases "cur = parent_link s n")
    case True
    then have "n \<in> set (K cur)" using fs_invD(6) [OF inv n] by simp
    then show ?thesis
      using find_remove1 [OF ok(1,2), of n w] inj_find [OF ok(1), of n] True
      by (auto simp: kids_del_def at(4) find_Some_iff)
  next
    case False
    then have "n \<notin> set (K cur)" using ok(3) by metis
    then have "List.find (\<lambda>c. node_name s c = w) (K cur) \<noteq> Some n" by (auto simp: find_Some_iff)
    then show ?thesis using False by (simp add: kids_del_def at(4))
  qed
qed

text \<open>After the deletion every path either resolves as before or used to pass through the deleted node.\<close>

lemma deletion_resolve:
  assumes del: "deletion s t N K n"
  shows "cur \<in> N \<Longrightarrow> cur \<noteq> n \<Longrightarrow>
    resolve t (kids_del s K n) cur ws = resolve s K cur ws \<and> snd (resolve s K cur ws) \<noteq> n \<or>
    resolve t (kids_del s K n) cur ws = (FS_NOT_FOUND, 0)"
proof (induction ws arbitrary: cur)
  case (Cons w ws)
  have inv: "fs_inv s N K" using del by (simp add: deletion_def)
  have nz: "n \<noteq> 0" using fs_inv_nonzero [OF inv] del by (auto simp: deletion_def)
  show ?case
    using Cons deletion_attrs [OF del] deletion_find [OF del Cons.prems, of w] fs_invD(5) [OF inv Cons.prems(1)]
      find_in_dir(1) [OF inv Cons.prems(1)] nz
    by (auto split: option.split)
qed simp

lemma delete_file_cases:
  assumes inv: "fs_inv s N K" and rs: "resolve s K ROOT (comps p) = (st, n)"
  shows "delete_file (Some p) s =
    (if st \<noteq> FS_SUCCESS then Some (st, s)
     else if n = ROOT then Some (FS_PERMISSION_DENIED, s)
     else if K n \<noteq> [] then Some (FS_DIR_NOT_EMPTY, s)
     else delete_file (Some p) s) \<and>
    (st = FS_SUCCESS \<and> n \<noteq> ROOT \<and> K n = [] \<longrightarrow> (\<exists>t. delete_file (Some p) s = Some (FS_SUCCESS, t) \<and> deletion s t N K n \<and> pick t = pick s))"
proof -
  note pp = parse_path_resolve [OF inv, of p, unfolded rs]
  have ch0: "fchildren (files s n) \<noteq> 0 \<longleftrightarrow> K n \<noteq> []" "K n \<noteq> [] \<longrightarrow> is_dir s n" if "n \<in> N"
    using fs_invD(4) [OF inv that] by (cases "K n"; auto simp: dir_ok_def)+
  have in_N: "n \<in> N" if "st = FS_SUCCESS" using resolve_in [OF inv fs_invD(1) [OF inv] rs] that by auto
  have "\<exists>t. delete_file (Some p) s = Some (FS_SUCCESS, t) \<and> deletion s t N K n \<and> pick t = pick s"
    if st: "st = FS_SUCCESS" and n: "n \<noteq> ROOT" "K n = []"
  proof -
    define d where "d = parent_link s n"
    have dN: "d \<in> N" "n \<in> set (K d)" using fs_invD(5,6) [OF inv in_N [OF st]] n(1) by (auto simp: d_def)
    then obtain xs ys where K: "K d = xs @ n # ys" by (auto simp: in_set_conv_decomp)
    have ok: "chain s (fchildren (files s d)) (xs @ n # ys)" "distinct (xs @ n # ys)"
      using fs_invD(4) [OF inv dN(1)] by (simp_all add: dir_ok_def K)
    have nz: "n \<noteq> 0" "d \<noteq> 0" "n \<noteq> d"
      using fs_inv_nonzero [OF inv] in_N [OF st] dN n(2) by auto
    have "n \<notin> set xs" using ok(2) by simp
    from unlink_child_spec [OF ok(1) this nz(1,3)]
    obtain t1 where t1: "unlink_child d n s = Some (True, t1)" "unlinked d n xs s t1" "live t1 = live s" .
    define t where "t = fs_kfree n (fs_kfree (fdata (files t1 n)) (fs_kfree (fname (files t1 n)) t1))"
    have at1: "fname (files t1 n) = fname (files s n)" "fdata (files t1 n) = fdata (files s n)"
      using t1(2) by (simp_all add: unlinked_def)
    have run: "delete_file (Some p) s = Some (FS_SUCCESS, t)"
      using pp st n nz(2) t1(1) ch0(1) [OF in_N [OF st]] by (simp add: delete_file_def d_def [symmetric] Let_def t_def)
    have "owns s n \<subseteq> live s" "0 \<notin> live s" using fs_invD(7) [OF inv] in_N [OF st] n(1) by (simp_all add: mem_ok_def)
    then have "fname (files s n) \<noteq> 0" by (auto simp: owns_def)
    then have "live t = live s - owns s n" using nz(1) t1(3) by (auto simp: t_def fs_kfree_def at1 owns_def)
    moreover have "unlinked d n xs s t" "pick t = pick s" using t1(2) by (simp_all add: t_def fs_kfree_def unlinked_def)
    ultimately have "deletion s t N K n" using inv in_N [OF st] n K by (auto simp: deletion_def d_def)
    then show ?thesis using run \<open>pick t = pick s\<close> by blast
  qed
  then show ?thesis using pp ch0 in_N by (auto simp: delete_file_def)
qed

section \<open>Properties\<close>

text \<open>
  C29. Paths resolve as on the tree: for every well-formed file system \<open>parse_path\<close> ends and returns
  what looking up the components of the path one after the other on the tree returns, where \<open>.\<close> stays,
  \<open>..\<close> goes to the parent (of the root: the root), empty components are skipped, and a name is looked
  up among the children of a directory; a node it returns is a node of the tree. The pointer scan over
  the bytes and the walk along the sibling links are thus equivalent to the reference lookup.
\<close>

theorem parse_path_equiv:
  assumes "fs_inv s N K"
  shows "parse_path (Some p) s = Some (resolve s K ROOT (comps p)) \<and>
    (\<forall>n. resolve s K ROOT (comps p) = (FS_SUCCESS, n) \<longrightarrow> n \<in> N)"
  using parse_path_resolve [OF assms] resolve_in [OF assms fs_invD(1) [OF assms]] by fastforce


definition demo_pick :: "nat \<Rightarrow> u64 \<Rightarrow> u64 set \<Rightarrow> u64" where
  "demo_pick n sz L = (let p = 0x1000 * word_of_nat (n + 1) in if p = ROOT \<or> p \<in> L then 0 else p)"

definition empty_node :: file_node where
  "empty_node = \<lparr>fid = 0, fname = 0, fparent = 0, fchildren = 0, fnext = 0, fdata = 0, fsize = 0, fflags = 0\<rparr>"

definition demo_fs :: fsys where
  "demo_fs = init_root 8 \<lparr>files = (\<lambda>_. empty_node), blocks = (\<lambda>_. []), live = {}, pick = demo_pick, calls = 0\<rparr>"

lemma demo_fs_inv: "fs_inv demo_fs {ROOT} (\<lambda>_. [])" "heap_contract demo_fs"
proof -
  have "(parent_link demo_fs ^^ 0) ROOT = ROOT" by simp
  then show "fs_inv demo_fs {ROOT} (\<lambda>_. [])"
    unfolding fs_inv_def by (auto simp: demo_fs_def init_root_def set_file_def dir_ok_def mem_ok_def is_dir_def intro!: exI [of _ 0])
  show "heap_contract demo_fs"
    by (simp add: heap_contract_def demo_fs_def init_root_def set_file_def demo_pick_def Let_def)
qed

theorem parse_path_equiv_witness:
  "parse_path (Some [47, 46, 47, 47, 46, 46]) demo_fs = Some (FS_SUCCESS, ROOT)"
proof -
  have c: "comps [47, 46, 47, 47, 46, 46] = [[46], [46, 46]]" by (simp add: comps_def)
  have "parent_link demo_fs ROOT = ROOT" by (rule fs_invD(3) [OF demo_fs_inv(1)])
  then show ?thesis using parse_path_equiv [OF demo_fs_inv(1), of "[47, 46, 47, 47, 46, 46]"] unfolding c by simp
qed



text \<open>
  C31. \<open>delete_file\<close> always returns. It refuses what does not resolve, the root and directories with
  children, and then changes nothing. Otherwise exactly the node is taken out: the file system is
  still well formed, the addresses it owned are free again and no others, the path is not found any
  more, and every path that still resolves leads to the same node as before.
\<close>

theorem delete_file_effect:
  assumes "fs_inv s N K" and "resolve s K ROOT (comps p) = (st, n)"
  shows "if st = FS_SUCCESS \<and> n \<noteq> ROOT \<and> K n = [] then
      \<exists>t. delete_file (Some p) s = Some (FS_SUCCESS, t) \<and> fs_inv t (N - {n}) (kids_del s K n) \<and>
        live t = live s - owns s n \<and> parse_path (Some p) t = Some (FS_NOT_FOUND, 0) \<and>
        (\<forall>q m. parse_path (Some q) t = Some (FS_SUCCESS, m) \<longrightarrow> parse_path (Some q) s = Some (FS_SUCCESS, m))
    else delete_file (Some p) s =
      Some (if st \<noteq> FS_SUCCESS then st else if n = ROOT then FS_PERMISSION_DENIED else FS_DIR_NOT_EMPTY, s)"
proof (cases "st = FS_SUCCESS \<and> n \<noteq> ROOT \<and> K n = []")
  case True
  then obtain t where t: "delete_file (Some p) s = Some (FS_SUCCESS, t)" "deletion s t N K n"
    using delete_file_cases [OF assms] by blast
  have inv': "fs_inv t (N - {n}) (kids_del s K n)" by (rule deletion_inv [OF t(2)])
  have rt: "resolve t (kids_del s K n) ROOT ws = resolve s K ROOT ws \<and> snd (resolve s K ROOT ws) \<noteq> n \<or>
      resolve t (kids_del s K n) ROOT ws = (FS_NOT_FOUND, 0)" for ws
    using deletion_resolve [OF t(2) fs_invD(1) [OF assms(1)]] True by metis
  have "parse_path (Some p) t = Some (FS_NOT_FOUND, 0)"
    using parse_path_resolve [OF inv', of p] rt [of "comps p"] assms(2) by auto
  moreover have "parse_path (Some q) s = Some (FS_SUCCESS, m)" if "parse_path (Some q) t = Some (FS_SUCCESS, m)" for q m
    using that parse_path_resolve [OF inv', of q] parse_path_resolve [OF assms(1), of q] rt [of "comps q"] by auto
  ultimately show ?thesis using True t inv' by (auto simp: deletion_def)
next
  case False
  then show ?thesis using delete_file_cases [OF assms] by (auto split: if_splits)
qed

theorem delete_file_effect_witness: "delete_file (Some [47]) demo_fs = Some (FS_PERMISSION_DENIED, demo_fs)"
proof -
  have "comps [47] = []" by (simp add: comps_def)
  then show ?thesis using delete_file_effect [OF demo_fs_inv(1), where p = "[47]"] by simp
qed

text \<open>
  \<open>create_file_force\<close> looks up and creates the rest of the path behind a component, from the root,
  instead of the path up to it: for \<open>a/b\<close> in an empty file system it makes a folder \<open>/b\<close>.
\<close>

lemma create_file_force_misplaces:
  "case create_file_force (Some [97, 47, 98]) (Some [1]) 1 0 demo_fs of
     Some (Inr (r, t)) \<Rightarrow> r = FS_SUCCESS \<and> parse_path (Some [97]) t = Some (FS_NOT_FOUND, 0) \<and>
       fst (the (parse_path (Some [98]) t)) = FS_SUCCESS \<and> is_dir t (snd (the (parse_path (Some [98]) t)))
   | _ \<Rightarrow> False"
  by code_simp

end
