(* ===== verification/Cpio.thy ===== *)
theory Cpio
  imports Fs
begin

unbundle bit_operations_syntax

text \<open>
  The initial ramdisk, \<open>kernel/fs/drivers/initramfs.c\<close>: an archive in the \<open>newc\<close> format of \<open>cpio\<close>, whose
  entries become files and folders. The disk is the list of its bytes; a read outside it is the
  fault \<open>Page_Fault\<close>. Offsets are \<open>size_t\<close>, as in the code.

  The lemmas show that the parser never reads outside the disk and always ends, whatever the bytes,
  that it keeps the file system well formed, and that it undoes the encoding of an archive.
\<close>

section \<open>The code\<close>

definition hex_digit :: "u8 \<Rightarrow> u32 option" where
  "hex_digit c =
     (if 48 \<le> c \<and> c \<le> 57 then Some (ucast c - 48)
      else if 97 \<le> c \<and> c \<le> 102 then Some (ucast c - 97 + 10)
      else if 65 \<le> c \<and> c \<le> 70 then Some (ucast c - 65 + 10)
      else None)"

fun hex_loop :: "bytes \<Rightarrow> u32 \<Rightarrow> u32 option" where
  "hex_loop [] v = Some v"
| "hex_loop (c # cs) v =
     (case hex_digit c of None \<Rightarrow> None | Some d \<Rightarrow> hex_loop cs (push_bit 4 v OR d))"

definition hex8 :: "bytes \<Rightarrow> u32 option" where
  "hex8 s = hex_loop (take 8 s) 0"

text \<open>The loop over the path; \<open>pre\<close> are the bytes before the pointer.\<close>

fun ensure_loop :: "bytes \<Rightarrow> bytes \<Rightarrow> fsys \<Rightarrow> (bool \<times> fsys) result option" where
  "ensure_loop pre [] s = Some (Inr (True, s))"
| "ensure_loop pre (c # cs) s =
     (if c \<noteq> SLASH then ensure_loop (pre @ [c]) cs s
      else if pre = [] then Some (Inr (False, s))
      else bind_loop (create_folder (Some pre) s) (\<lambda>(r, s1).
             if r \<noteq> FS_SUCCESS \<and> r \<noteq> FS_ALR_EXIST then Some (Inr (False, s1))
             else ensure_loop (pre @ [c]) cs s1))"

definition ensure_parent_directories :: "bytes \<Rightarrow> fsys \<Rightarrow> (bool \<times> fsys) result option" where
  "ensure_parent_directories path s = ensure_loop [] path s"

definition slice :: "bytes \<Rightarrow> u64 \<Rightarrow> nat \<Rightarrow> bytes option" where
  "slice disk off n = (if unat off + n \<le> length disk then Some (take n (drop (unat off) disk)) else None)"

text \<open>\<open>while (name[0] == '.' && name[1] == '/')\<close>\<close>

fun strip_dots :: "bytes \<Rightarrow> bytes" where
  "strip_dots (c # d # cs) = (if c = DOT \<and> d = SLASH then strip_dots cs else c # d # cs)"
| "strip_dots cs = cs"

abbreviation TRAILER :: bytes where
  "TRAILER \<equiv> [84, 82, 65, 73, 76, 69, 82, 33, 33, 33]"

abbreviation NEWC_MAGIC :: bytes where
  "NEWC_MAGIC \<equiv> [48, 55, 48, 55, 48, 49]"

definition padding :: "u64 \<Rightarrow> u64" where
  "padding offset = (4 - (offset AND 3)) AND 3"

text \<open>
  One iteration up to the check of the file size: the parser returns a code, or has an entry with
  mode, name, size and the offset of its data.
\<close>

datatype cpio_head = Stop int | Entry u32 bytes u32 u64

definition cpio_name :: "bytes \<Rightarrow> u64 \<Rightarrow> u32 \<Rightarrow> u32 \<Rightarrow> u32 \<Rightarrow> u64 \<Rightarrow> cpio_head result" where
  "cpio_name disk disk_size filesize namesize mode offset =
     (if namesize = 0 \<or> 4097 < namesize then Inr (Stop (-3))
      else if disk_size < offset \<or> disk_size - offset < ucast namesize then Inr (Stop (-3))
      else case slice disk offset (unat namesize) of
          None \<Rightarrow> Inl (Page_Fault offset)
        | Some raw \<Rightarrow>
            let offset = offset + ucast namesize
            in if last raw \<noteq> 0 \<or> length (takeWhile (\<lambda>c. c \<noteq> 0) raw) \<noteq> unat namesize - 1 then Inr (Stop (-3))
               else
                 let pad = padding offset
                 in if disk_size - offset < pad then Inr (Stop (-5))
                    else
                      let offset = offset + pad; name = butlast raw
                      in if name = TRAILER then Inr (Stop 0)
                         else
                           let name = strip_dots name
                           in if name \<noteq> [] \<and> hd name = SLASH then Inr (Stop (-3))
                              else if disk_size - offset < ucast filesize then Inr (Stop (-4))
                              else Inr (Entry mode name filesize offset))"

definition cpio_header :: "bytes \<Rightarrow> u64 \<Rightarrow> u64 \<Rightarrow> cpio_head result" where
  "cpio_header disk disk_size offset =
     (if disk_size < offset \<or> disk_size - offset < 110 then Inr (Stop (-5))
      else case slice disk offset 110 of
          None \<Rightarrow> Inl (Page_Fault offset)
        | Some header \<Rightarrow>
            if take 6 header \<noteq> NEWC_MAGIC then Inr (Stop (-2))
            else
              let fields = map (\<lambda>i. hex8 (drop (6 + 8 * i) header)) [0..<13]
              in if None \<in> set fields then Inr (Stop (-1))
                 else cpio_name disk disk_size (the (fields ! 6)) (the (fields ! 11)) (the (fields ! 1)) (offset + 110))"

text \<open>What the parser does with an entry: the code it returns, or 0 to go on.\<close>

definition cpio_install :: "u32 \<Rightarrow> bytes \<Rightarrow> bytes \<Rightarrow> fsys \<Rightarrow> (int \<times> fsys) result option" where
  "cpio_install mode name data s =
     (let type = mode AND 0xF000
      in if type = 0x4000 then
           let name = rev (dropWhile slash (rev name))
           in if name = [] then Some (Inr (-3, s))
              else bind_loop (ensure_parent_directories name s) (\<lambda>(ok, s1).
                if \<not> ok then Some (Inr (-6, s1))
                else bind_loop (create_folder (Some name) s1) (\<lambda>(r, s2).
                  if r \<noteq> FS_SUCCESS \<and> r \<noteq> FS_ALR_EXIST then Some (Inr (-6, s2)) else Some (Inr (0, s2))))
         else if type = 0x8000 \<or> type = 0xA000 \<or> type = 0 then
           let name = (if name \<noteq> [] \<and> last name = SLASH then butlast name else name)
           in if name = [] then Some (Inr (-3, s))
              else bind_loop (ensure_parent_directories name s) (\<lambda>(ok, s1).
                if \<not> ok then Some (Inr (-3, s1))
                else bind_loop (create_file (Some name) (Some data) (word_of_nat (length data)) 0 s1) (\<lambda>(r, s2).
                  if r \<noteq> FS_SUCCESS \<and> r \<noteq> FS_ALR_EXIST then Some (Inr (-6, s2)) else Some (Inr (0, s2))))
         else Some (Inr (0, s)))"

text \<open>
  An entry at its data: the root entry is skipped, others are installed. The data are read by
  \<open>create_file\<close>. The result is the code and the offset of the next entry, which counts when the code
  is 0.
\<close>

definition cpio_entry :: "bytes \<Rightarrow> u64 \<Rightarrow> u32 \<Rightarrow> bytes \<Rightarrow> u32 \<Rightarrow> u64 \<Rightarrow> fsys \<Rightarrow> (int \<times> u64 \<times> fsys) result option" where
  "cpio_entry disk disk_size mode name filesize offset s =
     (case slice disk offset (unat filesize) of
        None \<Rightarrow> Some (Inl (Page_Fault offset))
      | Some data \<Rightarrow>
          bind_loop (if name = [] \<or> name = [DOT] then Some (Inr (0, s)) else cpio_install mode name data s) (\<lambda>(code, s1).
            if code \<noteq> 0 then Some (Inr (code, offset, s1))
            else
              let offset = offset + ucast filesize; pad = padding offset
              in if disk_size - offset < pad then Some (Inr (-5, offset, s1))
                 else Some (Inr (0, offset + pad, s1))))"

partial_function (option) cpio_loop :: "bytes \<Rightarrow> u64 \<Rightarrow> u64 \<Rightarrow> fsys \<Rightarrow> (int \<times> fsys) result option" where
  "cpio_loop disk disk_size offset s =
     (case cpio_header disk disk_size offset of
        Inl h \<Rightarrow> Some (Inl h)
      | Inr head \<Rightarrow>
          (case head of
             Stop code \<Rightarrow> Some (Inr (code, s))
           | Entry mode name filesize offset1 \<Rightarrow>
               (case cpio_entry disk disk_size mode name filesize offset1 s of
                  None \<Rightarrow> None
                | Some r \<Rightarrow>
                    (case r of
                       Inl h \<Rightarrow> Some (Inl h)
                     | Inr (code, offset2, s1) \<Rightarrow>
                         if code \<noteq> 0 then Some (Inr (code, s1)) else cpio_loop disk disk_size offset2 s1))))"

declare cpio_loop.simps [code]

definition parse_cpio_disk :: "bytes option \<Rightarrow> fsys \<Rightarrow> (int \<times> fsys) result option" where
  "parse_cpio_disk disk s =
     (case disk of None \<Rightarrow> Some (Inr (-7, s)) | Some d \<Rightarrow> cpio_loop d (word_of_nat (length d)) 0 s)"

text \<open>\<open>init_fs\<close>: any code but 0 panics.\<close>

definition init_fs :: "u64 \<Rightarrow> bytes option \<Rightarrow> fsys \<Rightarrow> fsys result option" where
  "init_fs root_name disk s =
     bind_loop (parse_cpio_disk disk (init_root root_name s)) (\<lambda>(code, s1).
       if code = 0 then Some (Inr s1)
       else Some (Inl (Kernel_Panic ''Failed to retrive initial ramdisk.'')))"

section \<open>Operations on a well-formed file system\<close>

definition fs_ok :: "fsys \<Rightarrow> bool" where
  "fs_ok s \<longleftrightarrow> heap_contract s \<and> (\<exists>N K. fs_inv s N K)"

text \<open>A call that returns and leaves the file system well formed.\<close>

definition keeps_fs :: "('a \<times> fsys) result option \<Rightarrow> bool" where
  "keeps_fs r \<longleftrightarrow> (\<exists>x t. r = Some (Inr (x, t)) \<and> fs_ok t)"

lemma keeps_fs_return [simp]: "fs_ok s \<Longrightarrow> keeps_fs (Some (Inr (x, s)))"
  by (simp add: keeps_fs_def)

lemma keeps_fs_bind:
  assumes "keeps_fs r" and "\<And>x t. fs_ok t \<Longrightarrow> keeps_fs (f (x, t))"
  shows "keeps_fs (bind_loop r f)"
  using assms by (auto simp: keeps_fs_def)

lemma create_file_keeps:
  assumes "fs_ok s" and "sz \<noteq> 0 \<longrightarrow> data \<noteq> None"
  shows "keeps_fs (create_file (Some p) data sz flags s)"
proof -
  obtain N K where inv: "fs_inv s N K" and hc: "heap_contract s" using assms(1) by (auto simp: fs_ok_def)
  show ?thesis
  proof (cases rule: create_file_cases [OF inv hc assms(2), where p = p and flags = flags])
    case (1 r t)
    have "fs_inv t N K"
      by (rule same_tree_inv [OF inv 1(3)]) (use fs_invD(7) [OF inv] 1(4) in \<open>auto simp: mem_ok_def\<close>)
    then show ?thesis using 1 hc by (auto simp: keeps_fs_def fs_ok_def heap_contract_def)
  next
    case (2 d f nm dp t)
    then show ?thesis using insertion_inv [OF 2(4,5)] hc by (auto simp: keeps_fs_def fs_ok_def heap_contract_def)
  qed
qed

lemma create_folder_keeps: "fs_ok s \<Longrightarrow> keeps_fs (create_folder (Some p) s)"
  unfolding create_folder_def by (rule keeps_fs_bind [OF create_file_keeps]) auto

lemma ensure_loop_keeps: "fs_ok s \<Longrightarrow> keeps_fs (ensure_loop pre path s)"
proof (induction pre path s rule: ensure_loop.induct)
  case (2 pre c cs s)
  show ?case
  proof (cases "c \<noteq> SLASH \<or> pre = []")
    case True
    then show ?thesis using 2 by auto
  next
    case False
    have "keeps_fs (bind_loop (create_folder (Some pre) s) (\<lambda>(r, s1).
        if r \<noteq> FS_SUCCESS \<and> r \<noteq> FS_ALR_EXIST then Some (Inr (False, s1)) else ensure_loop (pre @ [c]) cs s1))"
      by (rule keeps_fs_bind [OF create_folder_keeps [OF 2(3)]]) (use 2(2) False in auto)
    then show ?thesis using False by (auto split: if_splits)
  qed
qed simp

lemma cpio_install_keeps: "fs_ok s \<Longrightarrow> keeps_fs (cpio_install mode name data s)"
  unfolding cpio_install_def Let_def ensure_parent_directories_def
  by (auto intro!: keeps_fs_bind ensure_loop_keeps create_folder_keeps create_file_keeps)

lemma cpio_install_code:
  "cpio_install mode name data s = Some (Inr (code, t)) \<Longrightarrow> code \<in> {0, -3, -6}"
  unfolding cpio_install_def Let_def by (auto simp: bind_loop_Inr_iff split: if_splits)

section \<open>Staying inside the disk\<close>

lemma padding_less: "unat (padding off) < 4"
proof -
  have "padding off = take_bit 2 (4 - (off AND 3))" by (simp add: padding_def take_bit_eq_mask mask_eq_exp_minus_1)
  then have "unat (padding off) = take_bit 2 (unat (4 - (off AND 3)))" by (simp only: unsigned_take_bit_eq)
  then show ?thesis by (simp add: take_bit_eq_mod)
qed

lemma advance:
  fixes off dsz n :: u64
  assumes "off \<le> dsz" and "\<not> dsz - off < n"
  shows "unat (off + n) = unat off + unat n" "off + n \<le> dsz"
proof -
  have "unat (dsz - off) = unat dsz - unat off" "unat off \<le> unat dsz"
    using assms(1) by (auto simp: unat_sub_u64 word_le_nat_alt)
  then have le: "unat off + unat n \<le> unat dsz" using assms(2) by (simp add: word_less_nat_alt)
  then show *: "unat (off + n) = unat off + unat n" using u64_less_wrap [of dsz] by simp
  show "off + n \<le> dsz" using le by (simp add: word_le_nat_alt *)
qed

lemma slice_Some:
  assumes "off \<le> word_of_nat (length disk)" "length disk < 18446744073709551616" and "\<not> word_of_nat (length disk) - off < n"
  shows "slice disk off (unat n) = Some (take (unat n) (drop (unat off) disk))" "unat off + unat n \<le> length disk"
proof -
  have "unat (word_of_nat (length disk) :: u64) = length disk" using assms(2) by (simp add: unat_of_nat_u64)
  then show "unat off + unat n \<le> length disk"
    using advance [OF assms(1,3)] by (simp add: word_le_nat_alt)
  then show "slice disk off (unat n) = Some (take (unat n) (drop (unat off) disk))" by (simp add: slice_def)
qed

text \<open>A disk, its dsz as the code has it, and an offset in it.\<close>

definition in_disk :: "bytes \<Rightarrow> u64 \<Rightarrow> u64 \<Rightarrow> bool" where
  "in_disk disk dsz off \<longleftrightarrow> length disk < 18446744073709551616 \<and> dsz = word_of_nat (length disk) \<and> off \<le> dsz"

lemma in_diskD:
  assumes "in_disk disk dsz off" and "\<not> dsz - off < n"
  shows "slice disk off (unat n) = Some (take (unat n) (drop (unat off) disk))" "in_disk disk dsz (off + n)"
    "unat (off + n) = unat off + unat n"
  using assms slice_Some [of off disk n] advance [of off dsz n] by (auto simp: in_disk_def)

lemma cpio_name_ok:
  assumes "in_disk disk dsz off"
  obtains (stop) c where "cpio_name disk dsz fsz nsz mode off = Inr (Stop c)" "c \<in> {0, -3, -4, -5}"
  | (entry) name off1 where "cpio_name disk dsz fsz nsz mode off = Inr (Entry mode name fsz off1)"
      "in_disk disk dsz off1" "\<not> dsz - off1 < ucast fsz" "unat off \<le> unat off1"
proof -
  have le: "\<not> dsz < off" using assms by (auto simp: in_disk_def)
  show thesis
  proof (cases "nsz = 0 \<or> 4097 < nsz \<or> dsz - off < ucast nsz")
    case True
    then show thesis using stop [of "-3"] le by (auto simp: cpio_name_def)
  next
    case False
    then have n: "\<not> dsz - off < ucast nsz" by simp
    note D = in_diskD [OF assms n]
    define raw where "raw = take (unat nsz) (drop (unat off) disk)"
    have sl: "slice disk off (unat nsz) = Some raw" using D(1) by (simp add: raw_def)
    let ?o = "off + ucast nsz"
    note run = cpio_name_def [of disk dsz fsz nsz mode off, unfolded sl option.case Let_def]
    show thesis
    proof (cases "last raw \<noteq> 0 \<or> length (takeWhile (\<lambda>c. c \<noteq> 0) raw) \<noteq> unat nsz - 1 \<or> dsz - ?o < padding ?o")
      case True
      then show thesis using stop [of "-3"] stop [of "-5"] run False le by (auto split: if_splits)
    next
      case p: False
      then have np: "\<not> dsz - ?o < padding ?o" by simp
      note D2 = in_diskD [OF D(2) np]
      have "unat off \<le> unat (?o + padding ?o)" using D(3) D2(3) by simp
      then show thesis
        using stop [of 0] stop [of "-3"] stop [of "-4"] entry [of "strip_dots (butlast raw)" "?o + padding ?o"] run False p le D2(2)
        by (auto split: if_splits)
    qed
  qed
qed


lemma cpio_header_ok:
  assumes "in_disk disk dsz off"
  obtains (stop) c where "cpio_header disk dsz off = Inr (Stop c)" "c \<in> {0, -1, -2, -3, -4, -5}"
  | (entry) mode name fsz off1 where "cpio_header disk dsz off = Inr (Entry mode name fsz off1)"
      "in_disk disk dsz off1" "\<not> dsz - off1 < ucast fsz" "unat off < unat off1"
proof -
  have le: "\<not> dsz < off" using assms by (auto simp: in_disk_def)
  show thesis
  proof (cases "dsz - off < 110")
    case True
    then show thesis using stop [of "-5"] by (simp add: cpio_header_def)
  next
    case False
    note D = in_diskD [OF assms False]
    have sl: "slice disk off 110 = Some (take 110 (drop (unat off) disk))" using D(1) by simp
    define header where "header = take 110 (drop (unat off) disk)"
    define fields where "fields = map (\<lambda>i. hex8 (drop (6 + 8 * i) header)) [0..<13]"
    note run = cpio_header_def [of disk dsz off, unfolded sl option.case Let_def, folded header_def, folded fields_def]
    show thesis
    proof (cases "take 6 header \<noteq> NEWC_MAGIC \<or> None \<in> set fields")
      case True
      then show thesis using stop [of "-2"] stop [of "-1"] run False le by (auto split: if_splits)
    next
      case ok: False
      have r: "cpio_header disk dsz off =
          cpio_name disk dsz (the (fields ! 6)) (the (fields ! 11)) (the (fields ! 1)) (off + 110)"
        using run ok False le by auto
      show thesis
        by (cases rule: cpio_name_ok [OF D(2), of "the (fields ! 6)" "the (fields ! 11)" "the (fields ! 1)"])
          (use stop entry r D(3) in auto)
    qed
  qed
qed

lemma cpio_entry_ok:
  assumes fs: "fs_ok s" and d: "in_disk disk dsz off" "\<not> dsz - off < ucast fsz"
  obtains code off2 t where "cpio_entry disk dsz mode name fsz off s = Some (Inr (code, off2, t))" "fs_ok t"
    "code \<in> {0, -3, -5, -6}" "code = 0 \<Longrightarrow> in_disk disk dsz off2 \<and> unat off \<le> unat off2"
proof -
  note D = in_diskD [OF d]
  define data where "data = take (unat fsz) (drop (unat off) disk)"
  have sl: "slice disk off (unat fsz) = Some data" using D(1) by (simp add: data_def)
  let ?r = "if name = [] \<or> name = [DOT] then Some (Inr (0, s)) else cpio_install mode name data s"
  have "keeps_fs ?r" using fs cpio_install_keeps by simp
  then obtain code t where r: "?r = Some (Inr (code, t))" "fs_ok t" by (auto simp: keeps_fs_def)
  have c: "code \<in> {0, -3, -6}" using r(1) cpio_install_code by (auto split: if_splits)
  let ?o = "off + ucast fsz"
  have run: "cpio_entry disk dsz mode name fsz off s =
      (if code \<noteq> 0 then Some (Inr (code, off, t))
       else if dsz - ?o < padding ?o then Some (Inr (-5, ?o, t)) else Some (Inr (0, ?o + padding ?o, t)))"
    unfolding cpio_entry_def sl option.case r(1) by (simp add: Let_def)
  show thesis
  proof (cases "code = 0 \<and> \<not> dsz - ?o < padding ?o")
    case True
    then have np: "\<not> dsz - ?o < padding ?o" by simp
    note D2 = in_diskD [OF D(2) np]
    show thesis using that [of 0 "?o + padding ?o" t] run True r(2) D2 D(3) by simp
  next
    case False
    then show thesis using that [of code off t] that [of "-5" ?o t] run r(2) c by (auto split: if_splits)
  qed
qed

lemma cpio_loop_ok:
  "fs_ok s \<Longrightarrow> in_disk disk dsz off \<Longrightarrow>
     \<exists>code t. cpio_loop disk dsz off s = Some (Inr (code, t)) \<and> fs_ok t \<and> code \<in> {0, -1, -2, -3, -4, -5, -6}"
proof (induction "unat dsz - unat off" arbitrary: off s rule: less_induct)
  case less
  show ?case
  proof (cases rule: cpio_header_ok [OF less(3)])
    case (1 c)
    then show ?thesis using less(2) by (subst cpio_loop.simps) auto
  next
    case (2 mode name fsz off1)
    obtain code off2 t where e: "cpio_entry disk dsz mode name fsz off1 s = Some (Inr (code, off2, t))" "fs_ok t"
      "code \<in> {0, -3, -5, -6}" "code = 0 \<Longrightarrow> in_disk disk dsz off2 \<and> unat off1 \<le> unat off2"
      using cpio_entry_ok [OF less(2) 2(2,3)] by metis
    show ?thesis
    proof (cases "code = 0")
      case True
      have d2: "in_disk disk dsz off2" "unat off1 \<le> unat off2" using e(4) True by auto
      then have "unat off2 \<le> unat dsz" by (auto simp: in_disk_def word_le_nat_alt)
      then have "unat dsz - unat off2 < unat dsz - unat off" using 2(4) d2(2) by linarith
      from less(1) [OF this e(2) d2(1)] show ?thesis using 2(1) e(1) True by (subst cpio_loop.simps) simp
    next
      case False
      then show ?thesis using 2(1) e by (subst cpio_loop.simps) auto
    qed
  qed
qed

section \<open>Properties\<close>

text \<open>
  C32. Whatever bytes the ramdisk holds, \<open>parse_cpio_disk\<close> ends, reads nothing outside the disk,
  returns one of its codes and leaves the file system well formed; \<open>init_fs\<close> therefore panics on a bad
  ramdisk and never faults or hangs.
\<close>

theorem parse_cpio_disk_total:
  assumes "fs_ok s" and "\<forall>d. disk = Some d \<longrightarrow> length d < 18446744073709551616"
  shows "\<exists>code t. parse_cpio_disk disk s = Some (Inr (code, t)) \<and> fs_ok t \<and> code \<in> {0, -1, -2, -3, -4, -5, -6, -7}"
proof (cases disk)
  case None
  then show ?thesis using assms(1) by (simp add: parse_cpio_disk_def)
next
  case (Some d)
  have "in_disk d (word_of_nat (length d)) 0" using assms(2) Some by (simp add: in_disk_def)
  from cpio_loop_ok [OF assms(1) this] show ?thesis using Some by (auto simp: parse_cpio_disk_def)
qed

lemma demo_fs_ok: "fs_ok demo_fs"
  using demo_fs_inv by (auto simp: fs_ok_def)

theorem parse_cpio_disk_total_witness:
  "\<exists>code t. parse_cpio_disk (Some [48, 55, 48]) demo_fs = Some (Inr (code, t)) \<and> code \<noteq> 1 \<and> fs_ok t"
  using parse_cpio_disk_total [OF demo_fs_ok, of "Some [48, 55, 48]"] by auto

section \<open>Archives\<close>

text \<open>The \<open>newc\<close> format as \<open>cpio\<close> writes it: numbers as eight hexadecimal digits, everything aligned to 4.\<close>

definition digit_char :: "u32 \<Rightarrow> u8" where
  "digit_char d = (if d < 10 then 48 + ucast d else 55 + ucast d)"

definition hex_enc :: "u32 \<Rightarrow> bytes" where
  "hex_enc v = map (\<lambda>i. digit_char (drop_bit (4 * i) v AND 15)) (rev [0..<8])"

lemma hex_enc_length [simp]: "length (hex_enc v) = 8"
  by (simp add: hex_enc_def)

lemma hex_digit_char: "d < 16 \<Longrightarrow> hex_digit (digit_char d) = Some d"
proof -
  assume "d < 16"
  then have "unat d \<in> set [0..<16]" by (simp add: word_less_nat_alt)
  moreover have "\<forall>x \<in> set [0..<16]. hex_digit (digit_char (word_of_nat x)) = Some (word_of_nat x)" by code_simp
  ultimately have "hex_digit (digit_char (word_of_nat (unat d))) = Some (word_of_nat (unat d))" by (rule bspec [rotated])
  then show ?thesis by simp
qed

lemma and_15: "x AND 15 = take_bit 4 x" for x :: u32
  by (simp add: take_bit_eq_mask mask_eq_exp_minus_1)

text \<open>Reading the digits of a number from the first on rebuilds it.\<close>

lemma hex_loop_append:
  assumes "k \<le> 8"
  shows "hex_loop (map (\<lambda>i. digit_char (drop_bit (4 * i) v AND 15)) (rev [0..<k])) (drop_bit (4 * k) v) = Some v"
  using assms
proof (induction k)
  case (Suc k)
  have d: "drop_bit (4 * k) v AND 15 < 16"
    using take_bit_nat_less_exp [of 4] by (simp add: and_15 word_less_nat_alt unsigned_take_bit_eq)
  have "push_bit 4 (drop_bit (4 * Suc k) v) OR (drop_bit (4 * k) v AND 15) = drop_bit (4 * k) v"
    unfolding and_15 by (rule bit_word_eqI) (auto simp: bit_simps)
  then show ?case using Suc hex_digit_char [OF d] by simp
qed simp

lemma hex8_enc: "hex8 (hex_enc v @ rest) = Some v"
proof -
  have "drop_bit 32 v = 0" by (rule bit_word_eqI) (auto simp: bit_simps)
  then show ?thesis using hex_loop_append [of 8 v] by (simp add: hex8_def hex_enc_def del: upt_rec_numeral)
qed


text \<open>
  An entry: mode, name, data, and the other ten header fields, which the parser reads and ignores.
\<close>

record cpio_file =
  c_mode :: u32
  c_name :: bytes
  c_data :: bytes
  c_other :: "nat \<Rightarrow> u32"

definition header_fields :: "cpio_file \<Rightarrow> u32 list" where
  "header_fields e = map (\<lambda>i. if i = 1 then c_mode e else if i = 6 then word_of_nat (length (c_data e))
     else if i = 11 then word_of_nat (length (c_name e) + 1) else c_other e i) [0..<13]"

definition pad4 :: "nat \<Rightarrow> bytes" where
  "pad4 n = replicate ((4 - n mod 4) mod 4) 0"

definition enc_name :: "cpio_file \<Rightarrow> bytes" where
  "enc_name e = c_name e @ [0] @ pad4 (110 + length (c_name e) + 1)"

definition enc_entry :: "cpio_file \<Rightarrow> bytes" where
  "enc_entry e = (NEWC_MAGIC @ concat (map hex_enc (header_fields e))) @ enc_name e @ c_data e @ pad4 (length (c_data e))"

definition entry_ok :: "cpio_file \<Rightarrow> bool" where
  "entry_ok e \<longleftrightarrow> 0 \<notin> set (c_name e) \<and> length (c_name e) \<le> 4096 \<and> length (c_data e) < 4294967296"

definition trailer :: cpio_file where
  "trailer = \<lparr>c_mode = 0, c_name = TRAILER, c_data = [], c_other = (\<lambda>_. 0)\<rparr>"

definition archive :: "cpio_file list \<Rightarrow> bytes" where
  "archive es = concat (map enc_entry es) @ enc_entry trailer"

text \<open>What extracting an entry means, and a list of entries.\<close>

definition cpio_extract :: "cpio_file \<Rightarrow> fsys \<Rightarrow> (int \<times> fsys) result option" where
  "cpio_extract e s =
     (let name = strip_dots (c_name e)
      in if name \<noteq> [] \<and> hd name = SLASH then Some (Inr (-3, s))
         else if name = [] \<or> name = [DOT] then Some (Inr (0, s))
         else cpio_install (c_mode e) name (c_data e) s)"

fun extract_all :: "cpio_file list \<Rightarrow> fsys \<Rightarrow> (int \<times> fsys) result option" where
  "extract_all [] s = Some (Inr (0, s))"
| "extract_all (e # es) s = bind_loop (cpio_extract e s) (\<lambda>(code, s1).
     if code \<noteq> 0 then Some (Inr (code, s1)) else extract_all es s1)"

lemma pad_length: "length (pad4 n) = (4 - n mod 4) mod 4"
  by (simp add: pad4_def)

lemma pad_aligned: "4 dvd n + length (pad4 n)"
proof -
  have "n mod 4 = 0 \<or> n mod 4 = 1 \<or> n mod 4 = 2 \<or> n mod 4 = 3" by linarith
  then show ?thesis unfolding pad_length dvd_eq_mod_eq_0 by (elim disjE) (simp, presburger+)
qed

lemma padding_nat:
  assumes "n < 18446744073709551616"
  shows "unat (padding (word_of_nat n)) = length (pad4 n)"
proof -
  have a3: "unat (x AND 3) = unat x mod 4" for x :: u64
  proof -
    have "x AND 3 = take_bit 2 x" by (simp add: take_bit_eq_mask mask_eq_exp_minus_1)
    then have "unat (x AND 3) = take_bit 2 (unat x)" by (simp only: unsigned_take_bit_eq)
    then show ?thesis by (simp add: take_bit_eq_mod)
  qed
  have m: "unat ((word_of_nat n :: u64) AND 3) = n mod 4" using assms a3 by (simp add: unat_of_nat_u64)
  have "n mod 4 < 4" by simp
  then have "unat (4 - ((word_of_nat n :: u64) AND 3)) = 4 - n mod 4"
    by (subst unat_sub_u64) (simp_all add: word_le_nat_alt m)
  then show ?thesis using a3 [of "4 - ((word_of_nat n :: u64) AND 3)"] by (simp add: padding_def pad_length)
qed

lemma concat_hex_length: "length (concat (map hex_enc vs)) = 8 * length vs"
  by (induction vs) auto

lemma drop_hex: "i < length vs \<Longrightarrow> \<exists>rest. drop (8 * i) (concat (map hex_enc vs)) = hex_enc (vs ! i) @ rest"
proof (induction vs arbitrary: i)
  case (Cons v vs)
  then show ?case by (cases i) auto
qed simp

lemma header_decode:
  assumes "header = NEWC_MAGIC @ concat (map hex_enc (header_fields e)) "
  shows "map (\<lambda>i. hex8 (drop (6 + 8 * i) header)) [0..<13] = map Some (header_fields e)"
proof (rule nth_equalityI)
  fix i
  assume "i < length (map (\<lambda>i. hex8 (drop (6 + 8 * i) header)) [0..<13])"
  then have i: "i < 13" by simp
  then obtain rest where "drop (8 * i) (concat (map hex_enc (header_fields e))) = hex_enc (header_fields e ! i) @ rest"
    using drop_hex [of i "header_fields e"] by (auto simp: header_fields_def)
  moreover have "drop (6 + 8 * i) header = drop (8 * i) (concat (map hex_enc (header_fields e)))"
    unfolding assms by (simp only: drop_append) simp
  ultimately have "hex8 (drop (6 + 8 * i) header) = Some (header_fields e ! i)" by (simp add: hex8_enc)
  then show "map (\<lambda>i. hex8 (drop (6 + 8 * i) header)) [0..<13] ! i = map Some (header_fields e) ! i"
    using i by (simp add: header_fields_def del: upt_rec_numeral)
qed (simp add: header_fields_def)

lemma header_length: "length (NEWC_MAGIC @ concat (map hex_enc (header_fields e))) = 110"
  by (simp only: length_append concat_hex_length) (simp add: header_fields_def)


section \<open>Parsing an archive\<close>

lemma word_of_unat_eq: "unat (w :: u64) = n \<Longrightarrow> w = word_of_nat n"
  by auto

lemma rest_of_disk:
  assumes "k \<le> length disk" and "length disk < 18446744073709551616"
  shows "word_of_nat (length disk) - word_of_nat k < n \<longleftrightarrow> length disk - k < unat (n :: u64)"
proof -
  have "unat (word_of_nat (length disk) - word_of_nat k :: u64) = length disk - k"
    using assms by (subst unat_sub_u64) (simp_all add: word_le_nat_alt unat_of_nat_u64)
  then show ?thesis by (simp add: word_less_nat_alt)
qed

lemma slice_middle:
  assumes "disk = pre @ xs @ post" and "length disk < 18446744073709551616"
  shows "slice disk (word_of_nat (length pre)) (length xs) = Some xs"
  using assms by (simp add: slice_def unat_of_nat_u64)

lemma pad4_shift: "4 dvd k \<Longrightarrow> pad4 (k + n) = pad4 n"
  unfolding pad4_def by (metis dvd_imp_mod_0 mod_add_left_eq add_0)

lemma takeWhile_name: "0 \<notin> set xs \<Longrightarrow> takeWhile (\<lambda>c. c \<noteq> 0) (xs @ [0]) = (xs :: bytes)"
  by (induction xs) auto

lemma cpio_name_enc:
  assumes disk: "disk = pre @ enc_name e @ c_data e @ post" and lim: "length disk < 18446744073709551616"
    and ok: "entry_ok e" and al: "length pre = 110 + k" "4 dvd k"
  shows "cpio_name disk (word_of_nat (length disk)) (word_of_nat (length (c_data e))) (word_of_nat (length (c_name e) + 1)) mode
      (word_of_nat (length pre)) =
    Inr (if c_name e = TRAILER then Stop 0
         else if strip_dots (c_name e) \<noteq> [] \<and> hd (strip_dots (c_name e)) = SLASH then Stop (-3)
         else Entry mode (strip_dots (c_name e)) (word_of_nat (length (c_data e))) (word_of_nat (length pre + length (enc_name e))))"
proof -
  let ?D = "word_of_nat (length disk) :: u64"
  define n where "n = length (c_name e) + 1"
  have n: "unat (word_of_nat n :: u32) = n" "n \<le> 4097" "0 < n"
    using ok by (auto simp: entry_ok_def n_def unat_of_nat simp del: of_nat_add of_nat_Suc)
  have un: "ucast (word_of_nat n :: u32) = (word_of_nat n :: u64)" by (metis n(1) of_nat_unat)
  have fz: "unat (word_of_nat (length (c_data e)) :: u32) = length (c_data e)" using ok by (auto simp: entry_ok_def unat_of_nat)
  have uf: "ucast (word_of_nat (length (c_data e)) :: u32) = (word_of_nat (length (c_data e)) :: u64)" by (metis fz of_nat_unat)
  have len: "length disk = length pre + length (enc_name e) + length (c_data e) + length post"
    "length (enc_name e) = n + length (pad4 (110 + n))" by (simp_all add: disk enc_name_def n_def)
  have raw: "slice disk (word_of_nat (length pre)) (unat (word_of_nat n :: u32)) = Some (c_name e @ [0])"
    using slice_middle [of disk pre "c_name e @ [0]" "pad4 (110 + n) @ c_data e @ post"] lim n(1) by (simp add: disk enc_name_def n_def)
  have pd: "unat (padding (word_of_nat (length pre + n))) = length (pad4 (110 + n))"
  proof -
    have e: "pad4 (length pre + n) = pad4 (110 + n)" unfolding al(1) using pad4_shift [OF al(2), of "110 + n"] by (simp add: ac_simps)
    have "length pre + n < 18446744073709551616" using lim len by linarith
    then show ?thesis using padding_nat e by metis
  qed
  then have pw: "padding (word_of_nat (length pre + n)) = word_of_nat (length (pad4 (110 + n)))" by (rule word_of_unat_eq)
  have o1: "word_of_nat (length pre) + word_of_nat n = (word_of_nat (length pre + n) :: u64)" by simp
  have o2: "word_of_nat (length pre + n) + word_of_nat (length (pad4 (110 + n))) = (word_of_nat (length pre + length (enc_name e)) :: u64)"
    by (simp add: len(2) add.assoc)
  note rest = rest_of_disk [OF _ lim]
  have c1: "\<not> ?D < word_of_nat (length pre)" using lim len by (simp add: word_less_nat_alt unat_of_nat_u64)
  have c2: "\<not> ?D - word_of_nat (length pre) < word_of_nat n"
    using rest [of "length pre"] len lim by (simp add: unat_of_nat_u64)
  have c3: "\<not> ?D - word_of_nat (length pre + n) < word_of_nat (length (pad4 (110 + n)))"
    using rest [of "length pre + n"] len lim by (simp add: unat_of_nat_u64)
  have c4: "\<not> ?D - word_of_nat (length pre + length (enc_name e)) < word_of_nat (length (c_data e))"
    using rest [of "length pre + length (enc_name e)"] len lim by (simp add: unat_of_nat_u64)
  have c5: "\<not> ((word_of_nat n :: u32) = 0 \<or> 4097 < (word_of_nat n :: u32))"
    using n by (auto simp: word_less_nat_alt)
  have tw: "length (takeWhile (\<lambda>c. c \<noteq> 0) (c_name e @ [0])) = n - 1" using takeWhile_name ok by (simp add: entry_ok_def n_def)
  show ?thesis
    unfolding n_def [symmetric] cpio_name_def n(1) raw [unfolded n(1)] un uf Let_def option.case o1 pw o2 tw using c1 c2 c3 c4 c5 by (simp del: of_nat_add)
qed


lemma cpio_header_enc:
  assumes disk: "disk = pre @ enc_entry e @ post" and lim: "length disk < 18446744073709551616"
    and ok: "entry_ok e" and al: "4 dvd length pre"
  shows "cpio_header disk (word_of_nat (length disk)) (word_of_nat (length pre)) =
    Inr (if c_name e = TRAILER then Stop 0
         else if strip_dots (c_name e) \<noteq> [] \<and> hd (strip_dots (c_name e)) = SLASH then Stop (-3)
         else Entry (c_mode e) (strip_dots (c_name e)) (word_of_nat (length (c_data e)))
           (word_of_nat (length pre + 110 + length (enc_name e))))"
proof -
  define header where "header = NEWC_MAGIC @ concat (map hex_enc (header_fields e))"
  have hl: "length header = 110" unfolding header_def by (rule header_length)
  have d: "disk = pre @ header @ (enc_name e @ c_data e @ pad4 (length (c_data e)) @ post)"
    by (simp add: disk enc_entry_def header_def)
  have sl: "slice disk (word_of_nat (length pre)) 110 = Some header" using slice_middle [OF d lim] hl by simp
  have c: "\<not> word_of_nat (length disk) < (word_of_nat (length pre) :: u64)"
    "\<not> word_of_nat (length disk) - word_of_nat (length pre) < (110 :: u64)"
    using lim rest_of_disk [of "length pre" disk 110] hl by (simp_all add: d word_less_nat_alt unat_of_nat_u64)
  have magic: "take 6 header = NEWC_MAGIC" by (simp add: header_def)
  have "None \<notin> set (map Some (header_fields e))" by auto
  moreover have "map Some (header_fields e) ! 6 = Some (word_of_nat (length (c_data e)))"
    "map Some (header_fields e) ! 11 = Some (word_of_nat (length (c_name e) + 1))" "map Some (header_fields e) ! 1 = Some (c_mode e)"
    by (simp_all add: header_fields_def del: upt_rec_numeral)
  moreover have "disk = (pre @ header) @ enc_name e @ c_data e @ (pad4 (length (c_data e)) @ post)" using d by simp
  note nm = cpio_name_enc [OF this lim ok, of "length pre" "c_mode e"]
  moreover have "word_of_nat (length pre) + 110 = (word_of_nat (length (pre @ header)) :: u64)" using hl by simp
  moreover have "length (pre @ header) = 110 + length pre" "length (pre @ header) = length pre + 110" using hl by simp_all
  ultimately show ?thesis
    unfolding cpio_header_def sl option.case Let_def header_decode [OF header_def] magic
    using c al by (simp only: option.sel simp_thms if_False)
qed

lemma cpio_entry_enc:
  assumes disk: "disk = pre @ enc_entry e @ post" and lim: "length disk < 18446744073709551616"
    and ok: "entry_ok e" and al: "4 dvd length pre"
  shows "cpio_entry disk (word_of_nat (length disk)) mode name (word_of_nat (length (c_data e)))
      (word_of_nat (length pre + 110 + length (enc_name e))) s =
    bind_loop (if name = [] \<or> name = [DOT] then Some (Inr (0, s)) else cpio_install mode name (c_data e) s) (\<lambda>(code, s1).
      Some (Inr (code, word_of_nat (if code \<noteq> 0 then length pre + 110 + length (enc_name e) else length (pre @ enc_entry e)), s1)))"
proof -
  let ?D = "word_of_nat (length disk) :: u64"
  define o1 where "o1 = length pre + 110 + length (enc_name e)"
  define n where "n = length (c_data e)"
  define header where "header = NEWC_MAGIC @ concat (map hex_enc (header_fields e))"
  have hl: "length header = 110" unfolding header_def by (rule header_length)
  have d: "disk = (pre @ header @ enc_name e) @ c_data e @ (pad4 n @ post)" by (simp add: disk enc_entry_def header_def n_def)
  have lo: "length (pre @ header @ enc_name e) = o1" using hl by (simp add: o1_def)
  have fz: "unat (word_of_nat n :: u32) = n" using ok by (auto simp: entry_ok_def n_def unat_of_nat)
  have uf: "ucast (word_of_nat n :: u32) = (word_of_nat n :: u64)" by (metis fz of_nat_unat)
  have sl: "slice disk (word_of_nat o1) (unat (word_of_nat n :: u32)) = Some (c_data e)"
    using slice_middle [OF d lim] unfolding lo fz n_def [symmetric] .
  have len: "length disk = o1 + n + length (pad4 n) + length post" "length (pre @ enc_entry e) = o1 + n + length (pad4 n)"
    using hl by (simp_all add: disk enc_entry_def header_def o1_def n_def)
  have "4 dvd o1"
    using dvd_add [OF al pad_aligned [of "110 + length (c_name e) + 1"]] by (simp add: o1_def enc_name_def algebra_simps)
  then have "unat (padding (word_of_nat (o1 + n))) = length (pad4 n)"
    using padding_nat [of "o1 + n"] pad4_shift [of o1 n] len lim by (simp del: of_nat_add)
  then have pw: "padding (word_of_nat (o1 + n)) = word_of_nat (length (pad4 n))" by (rule word_of_unat_eq)
  have c: "\<not> ?D - word_of_nat (o1 + n) < word_of_nat (length (pad4 n))"
    using rest_of_disk [of "o1 + n" disk] len lim by (simp add: unat_of_nat_u64 del: of_nat_add)
  have a: "word_of_nat o1 + word_of_nat n = (word_of_nat (o1 + n) :: u64)"
    "word_of_nat (o1 + n) + word_of_nat (length (pad4 n)) = (word_of_nat (o1 + n + length (pad4 n)) :: u64)" by simp_all
  show ?thesis
    unfolding o1_def [symmetric] n_def [symmetric] cpio_entry_def sl option.case Let_def uf a(1) pw a(2) len(2)
    using c by (intro arg_cong2 [where f = bind_loop] refl ext) auto
qed

lemma cpio_loop_archive:
  assumes "length disk < 18446744073709551616" and "\<forall>e \<in> set es. entry_ok e \<and> c_name e \<noteq> TRAILER"
  shows "disk = pre @ archive es @ post \<Longrightarrow> 4 dvd length pre \<Longrightarrow>
    cpio_loop disk (word_of_nat (length disk)) (word_of_nat (length pre)) s = extract_all es s"
  using assms(2)
proof (induction es arbitrary: pre s)
  case Nil
  have "entry_ok trailer" "c_name trailer = TRAILER" by (auto simp: entry_ok_def trailer_def)
  then show ?case
    using cpio_header_enc [of disk pre trailer post] Nil assms(1) by (subst cpio_loop.simps) (simp add: archive_def)
next
  case (Cons e es)
  have d: "disk = pre @ enc_entry e @ (archive es @ post)" using Cons.prems(1) by (simp add: archive_def)
  have ok: "entry_ok e" "c_name e \<noteq> TRAILER" using Cons.prems(3) by auto
  note H = cpio_header_enc [OF d assms(1) ok(1) Cons.prems(2)] and E = cpio_entry_enc [OF d assms(1) ok(1) Cons.prems(2)]
  have al: "4 dvd length (pre @ enc_entry e)"
  proof -
    have "length (enc_entry e) = (110 + length (c_name e) + 1 + length (pad4 (110 + length (c_name e) + 1))) +
        (length (c_data e) + length (pad4 (length (c_data e))))"
      using header_length [of e] by (simp add: enc_entry_def enc_name_def)
    then show ?thesis
      using Cons.prems(2) pad_aligned [of "110 + length (c_name e) + 1"] pad_aligned [of "length (c_data e)"] by (metis dvd_add length_append)
  qed
  have IH: "cpio_loop disk (word_of_nat (length disk)) (word_of_nat (length (pre @ enc_entry e))) t = extract_all es t" for t
    by (rule Cons.IH) (use Cons.prems d al in auto)
  show ?case
  proof (cases "strip_dots (c_name e) \<noteq> [] \<and> hd (strip_dots (c_name e)) = SLASH")
    case True
    then show ?thesis using H ok(2) by (subst cpio_loop.simps) (simp add: cpio_extract_def Let_def)
  next
    case False
    let ?r = "if strip_dots (c_name e) = [] \<or> strip_dots (c_name e) = [DOT] then Some (Inr (0, s))
      else cpio_install (c_mode e) (strip_dots (c_name e)) (c_data e) s"
    have x: "cpio_extract e s = ?r" using False by (auto simp: cpio_extract_def Let_def)
    show ?thesis
      using H False ok(2) unfolding extract_all.simps x
      by (subst cpio_loop.simps, simp only: E if_False sum.case cpio_head.case)
        (cases ?r; auto simp: IH bind_loop_def simp del: length_append of_nat_add split: sum.splits option.splits)
  qed
qed


definition demo_entries :: "cpio_file list" where
  "demo_entries =
     [\<lparr>c_mode = 0x41ED, c_name = [46, 47, 97], c_data = [], c_other = (\<lambda>_. 0)\<rparr>,
      \<lparr>c_mode = 0x81A4, c_name = [97, 47, 98], c_data = [1, 2, 3], c_other = (\<lambda>_. 0)\<rparr>]"

lemma enc_entry_length:
  "length (enc_entry e) = 110 + length (c_name e) + 1 + length (pad4 (110 + length (c_name e) + 1)) + length (c_data e) + length (pad4 (length (c_data e)))"
  unfolding enc_entry_def enc_name_def length_append [of _ "_ @ _"] header_length by simp

lemma demo_entries_ok: "length (archive demo_entries) < 18446744073709551616" "\<forall>e \<in> set demo_entries. entry_ok e \<and> c_name e \<noteq> TRAILER"
  by (simp_all add: archive_def demo_entries_def trailer_def enc_entry_length pad_length entry_ok_def)


end
