(* ===== verification/Cpu.thy ===== *)
theory Cpu
  imports Prelude
begin

unbundle bit_operations_syntax

text \<open>
  The processor tables and the interrupt hardware, \<open>kernel/arch/x86_64/cpu\<close>, \<open>interrupts\<close> and \<open>timer\<close>:
  segment descriptors (\<open>gdt.c\<close>), the task state segment (\<open>tss.c\<close>), interrupt gates (\<open>idt.c\<close>), model
  specific registers (\<open>msr.c\<close>), the two interrupt controllers (\<open>pic.c\<close>), the interval timer (\<open>pit.c\<close>),
  the local APIC (\<open>apic.c\<close>) and the clock (\<open>clock.c\<close>).

  The state \<open>cpu\<close> holds the static variables of these files, the registers they load, the memory
  mapped APIC registers, the writes to I/O ports in order (value first, as \<open>outb\<close> takes them) and the
  answer of the devices to a port read, which may depend on the writes so far. The addresses of
  tables and assembly stubs are the record \<open>image\<close>.

  The lemmas show what the hardware decodes from the descriptors and gates the code composes, and
  what the interrupt controllers do on the bytes sent to them, by their data sheet.
\<close>

section \<open>State\<close>

record tss_t =
  reserved0 :: u32
  rsp0 :: u64
  rsp1 :: u64
  rsp2 :: u64
  reserved1 :: u64
  ist1 :: u64
  ist2 :: u64
  ist3 :: u64
  ist4 :: u64
  ist5 :: u64
  ist6 :: u64
  ist7 :: u64
  reserved2 :: u64
  reserved3 :: u16
  iomap_base :: u16

record idt_entry =
  offset_low :: u16
  selector :: u16
  ist :: u8
  type_attr :: u8
  offset_mid :: u16
  offset_high :: u32
  zero :: u32

record cpuid_result =
  eax :: u32
  ebx :: u32
  ecx :: u32
  edx :: u32

record cpu =
  gdt :: "u64 list"
  tss :: tss_t
  gdtr :: "u16 \<times> u64"
  task_register :: u16
  idt :: "idt_entry list"
  idt_changed :: bool
  idtr :: "u16 \<times> u64"
  msr :: "u32 \<Rightarrow> u64"
  cpuid_leaf :: "u32 \<Rightarrow> u32 \<Rightarrow> cpuid_result"
  mmio :: "u64 \<Rightarrow> u32"
  ports :: "(u8 \<times> u16) list"
  port_in :: "(u8 \<times> u16) list \<Rightarrow> u16 \<Rightarrow> u8"
  apic_addr :: u64
  total_ticks :: u64
  interrupt_flag :: bool

record image =
  gdt_address :: u64
  idt_address :: u64
  divide_handler :: u64
  invalid_opcode_handler :: u64
  general_protection_handler :: u64
  page_fault_handler :: u64
  double_fault_handler :: u64
  spurious_int_handler :: u64
  tick_interrupt :: u64
  syscall_entry :: u64

section \<open>Ports and registers\<close>

definition outb :: "u8 \<Rightarrow> u16 \<Rightarrow> cpu \<Rightarrow> cpu" where
  "outb value port c = c\<lparr>ports := ports c @ [(value, port)]\<rparr>"

definition inb :: "u16 \<Rightarrow> cpu \<Rightarrow> u8" where
  "inb port c = port_in c (ports c) port"

definition rdmsr :: "u32 \<Rightarrow> cpu \<Rightarrow> u64" where
  "rdmsr reg c =
     (let low = ucast (msr c reg) :: u32; high = ucast (drop_bit 32 (msr c reg)) :: u32
      in push_bit 32 (ucast high) OR ucast low)"

definition wrmsr :: "u32 \<Rightarrow> u64 \<Rightarrow> cpu \<Rightarrow> cpu" where
  "wrmsr reg val c =
     (let low = ucast val :: u32; high = ucast (drop_bit 32 val) :: u32
      in c\<lparr>msr := (msr c)(reg := push_bit 32 (ucast high) OR ucast low)\<rparr>)"

definition has_cpu_msr :: "cpu \<Rightarrow> bool" where
  "has_cpu_msr c = (let r = cpuid_leaf c 0 0 in if eax r < 1 then False else True)"

definition cli :: "cpu \<Rightarrow> cpu" where
  "cli c = c\<lparr>interrupt_flag := False\<rparr>"

definition sti :: "cpu \<Rightarrow> cpu" where
  "sti c = c\<lparr>interrupt_flag := True\<rparr>"

section \<open>Segment descriptors\<close>

abbreviation (input) KERNEL_CS :: u16 where "KERNEL_CS \<equiv> 0x08"

abbreviation (input) KERNEL_DS :: u16 where "KERNEL_DS \<equiv> 0x10"

abbreviation (input) USER_CS :: u16 where "USER_CS \<equiv> 0x18"

abbreviation (input) USER_DS :: u16 where "USER_DS \<equiv> 0x20"

abbreviation (input) TSS_GDT_INDEX :: nat where "TSS_GDT_INDEX \<equiv> 5"

abbreviation (input) TSS_SELECTOR :: u16 where "TSS_SELECTOR \<equiv> push_bit 3 5"

definition seg_flags :: "u16 \<Rightarrow> u16 \<Rightarrow> u16 \<Rightarrow> u16 \<Rightarrow> u16" where
  "seg_flags long sz priv kind =
     push_bit 0x04 1 OR push_bit 0x07 1 OR push_bit 0x0D long OR push_bit 0x0E sz OR push_bit 0x0F 1
     OR push_bit 0x05 (priv AND 0x03) OR kind"

abbreviation GDT_CODE_PL0 :: u16 where "GDT_CODE_PL0 \<equiv> seg_flags 1 0 0 0x0A"

abbreviation GDT_DATA_PL0 :: u16 where "GDT_DATA_PL0 \<equiv> seg_flags 0 1 0 0x02"

abbreviation GDT_CODE_PL3 :: u16 where "GDT_CODE_PL3 \<equiv> seg_flags 0 1 3 0x0A"

abbreviation GDT_DATA_PL3 :: u16 where "GDT_DATA_PL3 \<equiv> seg_flags 0 1 3 0x02"

definition create_descriptor :: "u32 \<Rightarrow> u32 \<Rightarrow> u16 \<Rightarrow> u64" where
  "create_descriptor base limit flag =
     (let descriptor = ucast (limit AND 0x000F0000) :: u64;
          descriptor = descriptor OR ucast (push_bit 8 (ucast flag :: u32) AND 0x00F0FF00);
          descriptor = descriptor OR ucast (drop_bit 16 base AND 0x000000FF);
          descriptor = descriptor OR ucast (base AND 0xFF000000);
          descriptor = push_bit 32 descriptor;
          descriptor = descriptor OR ucast (push_bit 16 base);
          descriptor = descriptor OR ucast (limit AND 0xFFFF)
      in descriptor)"

definition set_tss_descriptor :: "u64 \<Rightarrow> u32 \<Rightarrow> cpu \<Rightarrow> cpu" where
  "set_tss_descriptor base limit c =
     (let low = 0 :: u64;
          high = 0 :: u64;
          low = low OR ucast (limit AND 0xFFFF);
          low = low OR push_bit 16 (base AND 0xFFFF);
          low = low OR push_bit 32 (drop_bit 16 base AND 0xFF);
          low = low OR push_bit 40 0x89;
          low = low OR push_bit 48 (ucast (drop_bit 16 limit AND 0x0F));
          low = low OR push_bit 56 (drop_bit 24 base AND 0xFF);
          high = drop_bit 32 base
      in c\<lparr>gdt := (gdt c)[TSS_GDT_INDEX := low, TSS_GDT_INDEX + 1 := high]\<rparr>)"

text \<open>\<open>sizeof(tss)\<close> is 112: the structure is not packed, its 64-bit members start at offset 8.\<close>

definition init_tss :: "cpu \<Rightarrow> cpu" where
  "init_tss c = c\<lparr>tss := (tss c)\<lparr>rsp0 := 0, ist1 := 0, ist2 := 0, ist3 := 0, ist4 := 0, ist5 := 0, ist6 := 0,
     ist7 := 0, iomap_base := 112\<rparr>\<rparr>"

definition load_gdt :: "u16 \<Rightarrow> u64 \<Rightarrow> cpu \<Rightarrow> cpu" where
  "load_gdt limit base c = c\<lparr>gdtr := (limit, base)\<rparr>"

definition load_tss :: "u8 \<Rightarrow> cpu \<Rightarrow> cpu" where
  "load_tss segment c = c\<lparr>task_register := ucast segment\<rparr>"

definition init_gdt :: "image \<Rightarrow> cpu \<Rightarrow> cpu" where
  "init_gdt im c =
     (let c = c\<lparr>gdt := (gdt c)[0 := 0]\<rparr>;
          c = c\<lparr>gdt := (gdt c)[1 := create_descriptor 0 0xFFFFF GDT_CODE_PL0]\<rparr>;
          c = c\<lparr>gdt := (gdt c)[2 := create_descriptor 0 0xFFFFF GDT_DATA_PL0]\<rparr>;
          c = c\<lparr>gdt := (gdt c)[3 := create_descriptor 0 0xFFFFF GDT_CODE_PL3]\<rparr>;
          c = c\<lparr>gdt := (gdt c)[4 := create_descriptor 0 0xFFFFF GDT_DATA_PL3]\<rparr>;
          c = init_tss c;
          c = set_tss_descriptor 0 0xFFFFF c;
          c = load_gdt (7 * 8 - 1) (gdt_address im) c
      in load_tss (ucast TSS_SELECTOR) c)"

section \<open>Interrupt gates\<close>

definition idt_set_gate :: "u8 \<Rightarrow> u64 \<Rightarrow> cpu \<Rightarrow> cpu" where
  "idt_set_gate vector addr c =
     c\<lparr>idt := (idt c)[unat vector := (idt c ! unat vector)
        \<lparr>offset_low := ucast (addr AND 0xFFFF), selector := KERNEL_CS, ist := 0, type_attr := 0x8E,
         offset_mid := ucast (drop_bit 16 addr AND 0xFFFF), offset_high := ucast (drop_bit 32 addr), zero := 0\<rparr>]\<rparr>"

definition idt_set_custom_gate :: "u8 \<Rightarrow> u64 \<Rightarrow> cpu \<Rightarrow> cpu" where
  "idt_set_custom_gate vector addr c =
     c\<lparr>idt := (idt c)[unat vector := (idt c ! unat vector)
        \<lparr>offset_low := ucast (addr AND 0xFFFF), selector := KERNEL_CS, ist := 0, type_attr := 0x8E,
         offset_mid := ucast (drop_bit 16 addr AND 0xFFFF), offset_high := ucast (drop_bit 32 addr), zero := 0\<rparr>]\<rparr>"

definition set_idt_vector :: "u8 \<Rightarrow> u64 \<Rightarrow> cpu \<Rightarrow> cpu" where
  "set_idt_vector vector handler c =
     (if offset_low (idt c ! unat vector) \<noteq> 0 then c
      else
        let c = (if idt_changed c = False then c\<lparr>idt_changed := True\<rparr> else c)
        in idt_set_gate vector handler c)"

definition load_idt :: "u16 \<Rightarrow> u64 \<Rightarrow> cpu \<Rightarrow> cpu" where
  "load_idt limit base c = c\<lparr>idtr := (limit, base)\<rparr>"

definition flush_idt_vector :: "image \<Rightarrow> cpu \<Rightarrow> cpu" where
  "flush_idt_vector im c = (if idt_changed c then load_idt (256 * 16 - 1) (idt_address im) c else c)"

section \<open>The interrupt controllers and the interval timer\<close>

definition pic_init :: "u32 \<Rightarrow> u32 \<Rightarrow> cpu \<Rightarrow> cpu" where
  "pic_init pic0base pic1base c =
     (let c = outb 0x11 0x20 c;
          c = outb (ucast pic0base) 0x21 c;
          c = outb (push_bit 2 1) 0x21 c;
          c = outb 0x01 0x21 c;
          c = outb (NOT (push_bit 2 1)) 0x21 c;
          c = outb 0x11 0xA0 c;
          c = outb (ucast pic1base) 0xA1 c;
          c = outb 2 0xA1 c;
          c = outb 0x05 0xA1 c
      in outb (NOT 0) 0xA1 c)"

text \<open>\<open>1 << irq\<close> is an \<open>int\<close>; only its low byte counts. C leaves a shift by more than 31 undefined.\<close>

definition pic_enable_low :: "u8 \<Rightarrow> cpu \<Rightarrow> cpu" where
  "pic_enable_low irq c =
     (let mask = inb 0x21 c;
          mask = ucast ((ucast mask :: u32) AND NOT (push_bit (unat irq) 1))
      in outb mask 0x21 c)"

definition pic_enable :: "u8 \<Rightarrow> cpu \<Rightarrow> cpu" where
  "pic_enable irq c =
     (if irq < 8 then pic_enable_low irq c
      else
        let irq = irq - 8;
            mask = inb 0xA1 c;
            mask = ucast ((ucast mask :: u32) AND NOT (push_bit (unat irq) 1))
        in pic_enable_low 2 (outb mask 0xA1 c))"

definition pic_disable :: "u8 \<Rightarrow> cpu \<Rightarrow> cpu" where
  "pic_disable irq c =
     (if irq < 8 then
        let mask = inb 0x21 c;
            mask = ucast ((ucast mask :: u32) OR push_bit (unat irq) 1)
        in outb mask 0x21 c
      else
        let irq = irq - 8;
            mask = inb 0xA1 c;
            mask = ucast ((ucast mask :: u32) OR push_bit (unat irq) 1)
        in outb mask 0xA1 c)"

definition pic_acknowledge :: "u8 \<Rightarrow> cpu \<Rightarrow> cpu" where
  "pic_acknowledge irq c =
     (if 8 \<le> irq then outb (0x60 + 2) 0x20 (outb (0x60 + (irq - 8)) 0xA0 c)
      else outb (0x60 + irq) 0x20 c)"

definition pic_disable_total :: "cpu \<Rightarrow> cpu" where
  "pic_disable_total c =
     (let c = outb 0x20 0x11 c;
          c = outb 0xA0 0x11 c;
          c = outb 0x21 0x20 c;
          c = outb 0xA1 0x28 c;
          c = outb 0x21 0x2 c;
          c = outb 0xA1 0x4 c;
          c = outb 0x21 0x01 c;
          c = outb 0xA1 0x01 c;
          c = outb 0x21 0xFF c
      in outb 0xA1 0xFF c)"

definition pit_count :: "u8 \<Rightarrow> u64 \<Rightarrow> cpu \<Rightarrow> cpu" where
  "pit_count irq cnt c =
     (let c = cli c;
          c = outb 0x40 (ucast (cnt AND 0xFF)) c
      in outb 0x40 (ucast (drop_bit 8 (cnt AND 0xFF00))) c)"

section \<open>The local APIC and the clock\<close>

abbreviation (input) IA32_APIC_BASE :: u32 where "IA32_APIC_BASE \<equiv> 0x1B"

definition apic_discover :: "cpu \<Rightarrow> u64" where
  "apic_discover c = rdmsr IA32_APIC_BASE c"

definition apic_read_reg :: "u64 \<Rightarrow> u32 \<Rightarrow> cpu \<Rightarrow> u32" where
  "apic_read_reg base reg c = mmio c (base + ucast reg)"

definition apic_write_reg :: "u64 \<Rightarrow> u32 \<Rightarrow> u32 \<Rightarrow> cpu \<Rightarrow> cpu" where
  "apic_write_reg base reg val c = c\<lparr>mmio := (mmio c)(base + ucast reg := val)\<rparr>"

definition local_apic_init :: "image \<Rightarrow> u64 \<Rightarrow> bool \<Rightarrow> cpu \<Rightarrow> cpu" where
  "local_apic_init im base enabled c =
     (let c = (if \<not> enabled then
                 let ia32_apic = rdmsr IA32_APIC_BASE c;
                     ia32_apic = ia32_apic OR push_bit 11 1
                 in wrmsr IA32_APIC_BASE ia32_apic c
               else c);
          spurious = apic_read_reg base 0xF0 c;
          spurious = spurious OR push_bit 8 1;
          spurious = spurious AND NOT (push_bit 9 1);
          spurious = (spurious AND 0xFFFFFF00) OR 0xFF;
          c = apic_write_reg base 0xF0 spurious c;
          c = idt_set_gate 0xFF (spurious_int_handler im) c;
          lvt = 32;
          lvt = lvt OR push_bit 16 1;
          lvt = lvt OR push_bit 17 1;
          c = apic_write_reg base 0x320 lvt c;
          c = apic_write_reg base 0x3E0 0xB c
      in idt_set_gate 32 (tick_interrupt im) c)"

definition apic_timer_start :: "cpu \<Rightarrow> cpu" where
  "apic_timer_start c =
     (let lvt = apic_read_reg (apic_addr c) 0x320 c;
          lvt = lvt OR push_bit 16 1;
          lvt = lvt OR push_bit 17 1;
          lvt = (lvt AND NOT 0xFF) OR 32;
          c = apic_write_reg (apic_addr c) 0x320 lvt c;
          c = apic_write_reg (apic_addr c) 0x3E0 0xB c;
          c = apic_write_reg (apic_addr c) 0x380 10000000 c;
          lvt = lvt AND NOT (push_bit 16 1)
      in apic_write_reg (apic_addr c) 0x320 lvt c)"

definition apic_timer_stop :: "cpu \<Rightarrow> cpu" where
  "apic_timer_stop c =
     (let timer = apic_read_reg (apic_addr c) 0x320 c;
          timer = timer OR push_bit 16 1
      in apic_write_reg (apic_addr c) 0x320 timer c)"

definition apic_eoi :: "cpu \<Rightarrow> cpu" where
  "apic_eoi c = apic_write_reg (apic_addr c) 0xB0 0 c"

definition apic_start :: "cpu \<Rightarrow> cpu" where
  "apic_start c = apic_write_reg (apic_addr c) 0x380 10000000 c"

definition local_apic_init_msr :: "u64 \<Rightarrow> bool \<Rightarrow> cpu \<Rightarrow> cpu" where
  "local_apic_init_msr base enabled c = c"

definition apic_init :: "image \<Rightarrow> cpu \<Rightarrow> cpu" where
  "apic_init im c =
     (let a = apic_discover c;
          enabled = (drop_bit 11 a AND 1 \<noteq> 0);
          x2apic = (drop_bit 10 a AND 1 \<noteq> 0);
          page = drop_bit 12 a AND 0xFFFFF;
          apic_base = push_bit 12 page;
          c = c\<lparr>apic_addr := apic_base\<rparr>
      in if \<not> x2apic then local_apic_init im (apic_addr c) enabled c
         else local_apic_init_msr (apic_addr c) enabled c)"

definition clock_interrupt :: "cpu \<Rightarrow> cpu" where
  "clock_interrupt c = apic_eoi (c\<lparr>total_ticks := total_ticks c + 1\<rparr>)"

definition get_ticks :: "cpu \<Rightarrow> u64" where
  "get_ticks c = total_ticks c"

definition get_milliseconds :: "cpu \<Rightarrow> u64" where
  "get_milliseconds c = (get_ticks c * 1000) div 100"

definition timer_reset :: "cpu \<Rightarrow> cpu" where
  "timer_reset c = c\<lparr>total_ticks := 0\<rparr>"

definition start_clock :: "cpu \<Rightarrow> cpu" where
  "start_clock c = apic_timer_start c"

definition stop_clock :: "cpu \<Rightarrow> cpu" where
  "stop_clock c = apic_timer_stop c"

section \<open>What the hardware decodes\<close>

text \<open>The fields of a segment descriptor, of a task segment descriptor and of a gate in the processor's manual.\<close>

definition seg_base :: "u64 \<Rightarrow> u32" where
  "seg_base d = ucast (take_bit 24 (drop_bit 16 d) OR push_bit 24 (drop_bit 56 d))"

definition seg_limit :: "u64 \<Rightarrow> u32" where
  "seg_limit d = ucast (take_bit 16 d OR push_bit 16 (take_bit 4 (drop_bit 48 d)))"

definition seg_attributes :: "u64 \<Rightarrow> u16" where
  "seg_attributes d = ucast (take_bit 8 (drop_bit 40 d) OR push_bit 12 (take_bit 4 (drop_bit 52 d)))"

definition tss_base :: "u64 \<Rightarrow> u64 \<Rightarrow> u64" where
  "tss_base low high = ucast (seg_base low) OR push_bit 32 high"

definition gate_target :: "idt_entry \<Rightarrow> u64" where
  "gate_target e = ucast (offset_low e) OR push_bit 16 (ucast (offset_mid e)) OR push_bit 32 (ucast (offset_high e))"

text \<open>Words agree when all their bits do, one by one.\<close>

lemma bits_upt:
  "[0..<LENGTH(16)] = [0, 1, 2, 3, 4, 5, 6, 7, 8, 9, 10, 11, 12, 13, 14, 15]"
  "[0..<LENGTH(32)] = [0, 1, 2, 3, 4, 5, 6, 7, 8, 9, 10, 11, 12, 13, 14, 15, 16, 17, 18, 19, 20, 21, 22, 23, 24, 25, 26, 27, 28, 29, 30, 31]"
  "[0..<LENGTH(64)] = [0, 1, 2, 3, 4, 5, 6, 7, 8, 9, 10, 11, 12, 13, 14, 15, 16, 17, 18, 19, 20, 21, 22, 23, 24, 25, 26, 27, 28, 29, 30, 31, 32, 33, 34, 35, 36, 37, 38, 39, 40, 41, 42, 43, 44, 45, 46, 47, 48, 49, 50, 51, 52, 53, 54, 55, 56, 57, 58, 59, 60, 61, 62, 63]"
  by (simp_all add: upt_conv_Cons)

lemma word_eq_bits:
  fixes v w :: "'a::len word"
  assumes "list_all (\<lambda>n. bit v n = bit w n) [0..<LENGTH('a)]"
  shows "v = w"
  using assms by (intro bit_word_eqI) (auto simp: list_all_iff)

lemma create_descriptor_base: "seg_base (create_descriptor base limit flag) = base"
  unfolding seg_base_def create_descriptor_def Let_def
  by (rule word_eq_bits, simp only: bits_upt list.pred_inject, simp add: bit_simps)

lemma create_descriptor_limit: "seg_limit (create_descriptor base limit flag) = take_bit 20 limit"
  unfolding seg_limit_def create_descriptor_def Let_def
  by (rule word_eq_bits, simp only: bits_upt list.pred_inject, simp add: bit_simps)

lemma create_descriptor_attributes: "seg_attributes (create_descriptor base limit flag) = flag AND 0xF0FF"
  unfolding seg_attributes_def create_descriptor_def Let_def
  by (rule word_eq_bits, simp only: bits_upt list.pred_inject, simp add: bit_simps)

lemma gate_target_set:
  assumes "unat v < length (idt c)"
  shows "gate_target (idt (idt_set_gate v h c) ! unat v) = h"
  using assms unfolding gate_target_def idt_set_gate_def
  by simp (rule word_eq_bits, simp only: bits_upt list.pred_inject, simp add: bit_simps)

lemma idt_set_gate_frame:
  "length (idt (idt_set_gate v h c)) = length (idt c)"
  "i \<noteq> unat v \<Longrightarrow> idt (idt_set_gate v h c) ! i = idt c ! i"
  by (simp_all add: idt_set_gate_def)

lemma idt_set_gate_entry:
  assumes "unat v < length (idt c)"
  shows "selector (idt (idt_set_gate v h c) ! unat v) = KERNEL_CS" "type_attr (idt (idt_set_gate v h c) ! unat v) = 0x8E"
    "ist (idt (idt_set_gate v h c) ! unat v) = 0"
  using assms by (simp_all add: idt_set_gate_def)

lemma tss_descriptor:
  assumes "length (gdt c) = 7"
  shows "tss_base (gdt (set_tss_descriptor base limit c) ! 5) (gdt (set_tss_descriptor base limit c) ! 6) = base"
    "seg_limit (gdt (set_tss_descriptor base limit c) ! 5) = take_bit 20 limit"
    "seg_attributes (gdt (set_tss_descriptor base limit c) ! 5) = 0x89"
proof -
  show "tss_base (gdt (set_tss_descriptor base limit c) ! 5) (gdt (set_tss_descriptor base limit c) ! 6) = base"
    unfolding tss_base_def seg_base_def set_tss_descriptor_def Let_def using assms
    by simp (rule word_eq_bits, simp only: bits_upt list.pred_inject, simp add: bit_simps)
  show "seg_limit (gdt (set_tss_descriptor base limit c) ! 5) = take_bit 20 limit"
    unfolding seg_limit_def set_tss_descriptor_def Let_def using assms
    by simp (rule word_eq_bits, simp only: bits_upt list.pred_inject, simp add: bit_simps)
  show "seg_attributes (gdt (set_tss_descriptor base limit c) ! 5) = 0x89"
    unfolding seg_attributes_def set_tss_descriptor_def Let_def using assms
    by simp (rule word_eq_bits, simp only: bits_upt list.pred_inject, simp add: bit_simps)
qed

lemma rdmsr_value: "rdmsr reg c = msr c reg"
  unfolding rdmsr_def Let_def by (rule word_eq_bits, simp only: bits_upt list.pred_inject, simp add: bit_simps)

lemma wrmsr_value: "wrmsr reg v c = c\<lparr>msr := (msr c)(reg := v)\<rparr>"
proof -
  have "push_bit 32 (ucast (ucast (drop_bit 32 v) :: u32)) OR ucast (ucast v :: u32) = v"
    by (rule word_eq_bits, simp only: bits_upt list.pred_inject, simp add: bit_simps)
  then show ?thesis by (simp add: wrmsr_def Let_def)
qed

text \<open>
  The tables keep their sizes. This is the type invariant of the state: C would write behind an array
  otherwise.
\<close>

definition cpu_ok :: "cpu \<Rightarrow> bool" where
  "cpu_ok c \<longleftrightarrow> length (gdt c) = 7 \<and> length (idt c) = 256"

lemma cpu_ok_vector: "cpu_ok c \<Longrightarrow> unat (v :: u8) < length (idt c)"
  using unsigned_less [of v] by (simp add: cpu_ok_def)

lemma cpu_ok_simps [simp]:
  "cpu_ok (outb b p c) = cpu_ok c" "cpu_ok (wrmsr r v c) = cpu_ok c" "cpu_ok (cli c) = cpu_ok c" "cpu_ok (sti c) = cpu_ok c"
  "cpu_ok (idt_set_gate n h c) = cpu_ok c" "cpu_ok (apic_write_reg a r x c) = cpu_ok c" "cpu_ok (init_gdt im c) = cpu_ok c"
  "cpu_ok (load_idt l a c) = cpu_ok c" "cpu_ok (timer_reset c) = cpu_ok c"
  by (simp_all add: cpu_ok_def outb_def wrmsr_value cli_def sti_def idt_set_gate_frame idt_set_gate_def apic_write_reg_def init_gdt_def Let_def
      set_tss_descriptor_def init_tss_def load_gdt_def load_tss_def load_idt_def timer_reset_def)

lemma init_gdt_table:
  assumes "cpu_ok c"
  shows "gdt (init_gdt im c) ! 0 = 0"
    "gdt (init_gdt im c) ! 1 = create_descriptor 0 0xFFFFF GDT_CODE_PL0"
    "gdt (init_gdt im c) ! 2 = create_descriptor 0 0xFFFFF GDT_DATA_PL0"
    "gdt (init_gdt im c) ! 3 = create_descriptor 0 0xFFFFF GDT_CODE_PL3"
    "gdt (init_gdt im c) ! 4 = create_descriptor 0 0xFFFFF GDT_DATA_PL3"
    "gdtr (init_gdt im c) = (55, gdt_address im)" "task_register (init_gdt im c) = TSS_SELECTOR"
  using assms by (simp_all add: cpu_ok_def init_gdt_def Let_def set_tss_descriptor_def init_tss_def load_gdt_def load_tss_def)

text \<open>
  What the processor decodes from a descriptor \<open>create_descriptor\<close> made is what went in: the base
  address, the low 20 bits of the limit, and of the flags the access byte and the four attribute bits.
\<close>
lemma create_descriptor_decodes:
  "seg_base (create_descriptor base limit flag) = base \<and>
   seg_limit (create_descriptor base limit flag) = take_bit 20 limit \<and>
   seg_attributes (create_descriptor base limit flag) = flag AND 0xF0FF"
  by (simp add: create_descriptor_base create_descriptor_limit create_descriptor_attributes)

section \<open>The 8259A interrupt controllers\<close>

text \<open>
  A controller by its data sheet. A byte with bit 4 set to the command port starts the
  initialisation and clears the mask; the following bytes to the data port are the vector base, the
  cascade wiring unless bit 1 of the first byte says single, and the mode if its bit 0 asks for it.
  After that a byte to the data port is the mask.
\<close>

datatype pic_phase = Ready | Icw2 u8 | Icw3 u8 | Icw4

record pic_chip =
  phase :: pic_phase
  vector_base :: u8
  imr :: u8

definition after_icw3 :: "u8 \<Rightarrow> pic_phase" where
  "after_icw3 icw1 = (if bit icw1 0 then Icw4 else Ready)"

definition chip_command :: "u8 \<Rightarrow> pic_chip \<Rightarrow> pic_chip" where
  "chip_command b p = (if bit b 4 then p\<lparr>phase := Icw2 b, imr := 0\<rparr> else p)"

definition chip_data :: "u8 \<Rightarrow> pic_chip \<Rightarrow> pic_chip" where
  "chip_data b p =
     (case phase p of
        Ready \<Rightarrow> p\<lparr>imr := b\<rparr>
      | Icw2 icw1 \<Rightarrow> p\<lparr>vector_base := b AND 0xF8, phase := (if bit icw1 1 then after_icw3 icw1 else Icw3 icw1)\<rparr>
      | Icw3 icw1 \<Rightarrow> p\<lparr>phase := after_icw3 icw1\<rparr>
      | Icw4 \<Rightarrow> p\<lparr>phase := Ready\<rparr>)"

text \<open>The pair: the master at the ports 0x20 and 0x21, the slave at 0xA0 and 0xA1.\<close>

definition pair_write :: "u8 \<times> u16 \<Rightarrow> pic_chip \<times> pic_chip \<Rightarrow> pic_chip \<times> pic_chip" where
  "pair_write = (\<lambda>(b, port) (m, s).
     if port = 0x20 then (chip_command b m, s) else if port = 0x21 then (chip_data b m, s)
     else if port = 0xA0 then (m, chip_command b s) else if port = 0xA1 then (m, chip_data b s) else (m, s))"

definition pic_pair :: "pic_chip \<times> pic_chip \<Rightarrow> (u8 \<times> u16) list \<Rightarrow> pic_chip \<times> pic_chip" where
  "pic_pair ms log = fold pair_write log ms"

lemma pic_pair_append [simp]: "pic_pair ms (log @ ws) = fold pair_write ws (pic_pair ms log)"
  by (simp add: pic_pair_def)

text \<open>The devices answer a read of a data port with the mask.\<close>

definition pic_wired :: "pic_chip \<times> pic_chip \<Rightarrow> cpu \<Rightarrow> bool" where
  "pic_wired ms c \<longleftrightarrow> (\<forall>log. port_in c log 0x21 = imr (fst (pic_pair ms log)) \<and> port_in c log 0xA1 = imr (snd (pic_pair ms log)))"

abbreviation pics :: "pic_chip \<times> pic_chip \<Rightarrow> cpu \<Rightarrow> pic_chip \<times> pic_chip" where
  "pics ms c \<equiv> pic_pair ms (ports c)"

definition masked :: "pic_chip \<times> pic_chip \<Rightarrow> nat \<Rightarrow> bool" where
  "masked ms irq = (if irq < 8 then bit (imr (fst ms)) irq else bit (imr (snd ms)) (irq - 8))"

definition pics_ready :: "pic_chip \<times> pic_chip \<Rightarrow> bool" where
  "pics_ready ms \<longleftrightarrow> phase (fst ms) = Ready \<and> phase (snd ms) = Ready"

lemma outb_simps [simp]:
  "ports (outb b p c) = ports c @ [(b, p)]" "port_in (outb b p c) = port_in c"
  by (simp_all add: outb_def)

lemmas pair_simps = pair_write_def chip_data_def chip_command_def after_icw3_def

lemma pic_init_pics:
  "pics ms (pic_init b0 b1 c) =
     ((fst (pics ms c))\<lparr>phase := Ready, vector_base := ucast b0 AND 0xF8, imr := 0xFB\<rparr>,
      (snd (pics ms c))\<lparr>phase := Ready, vector_base := ucast b1 AND 0xF8, imr := 0xFF\<rparr>)"
  by (cases "pics ms c") (simp add: pic_init_def Let_def pair_simps bit_simps)

lemma clear_mask_bit:
  assumes "irq < 8"
  shows "bit (ucast ((ucast (m :: u8) :: u32) AND NOT (2 ^ unat (irq :: u8))) :: u8) n \<longleftrightarrow> bit m n \<and> n \<noteq> unat irq"
  using assms bit_imp_le_length [of m n] by (auto simp: bit_simps bit_exp_iff word_less_nat_alt)

lemma set_mask_bit:
  assumes "irq < 8"
  shows "bit (ucast ((ucast (m :: u8) :: u32) OR 2 ^ unat (irq :: u8)) :: u8) n \<longleftrightarrow> bit m n \<or> n = unat irq"
  using assms bit_imp_le_length [of m n] by (auto simp: bit_simps bit_exp_iff word_less_nat_alt)

lemma pic_enable_masks:
  assumes "pic_wired ms c" and "pics_ready (pics ms c)" and "irq < 16"
  shows "pics_ready (pics ms (pic_enable irq c)) \<and>
    (\<forall>n. masked (pics ms (pic_enable irq c)) n \<longleftrightarrow> masked (pics ms c) n \<and> n \<noteq> unat irq \<and> (irq < 8 \<or> n \<noteq> 2))"
proof (cases "irq < 8")
  case True
  then show ?thesis
    using assms by (cases "pics ms c") (auto simp: pic_enable_def pic_enable_low_def Let_def pair_simps pics_ready_def masked_def inb_def
        pic_wired_def clear_mask_bit word_less_nat_alt)
next
  case False
  have u: "unat (irq - 8) = unat irq - 8" using False by (simp add: unat_sub word_le_nat_alt not_less)
  have l: "irq - 8 < 8" using False assms(3) by (simp add: word_less_nat_alt u) 
  show ?thesis
    using False assms clear_mask_bit [OF l] clear_mask_bit [of 2]
    by (cases "pics ms c") (auto simp: pic_enable_def pic_enable_low_def Let_def pair_simps pics_ready_def masked_def inb_def
        pic_wired_def u word_less_nat_alt)
qed

lemma pic_disable_masks:
  assumes "pic_wired ms c" and "pics_ready (pics ms c)" and "irq < 16"
  shows "pics_ready (pics ms (pic_disable irq c)) \<and>
    (\<forall>n. masked (pics ms (pic_disable irq c)) n \<longleftrightarrow> masked (pics ms c) n \<or> n = unat irq)"
proof (cases "irq < 8")
  case True
  then show ?thesis
    using assms by (cases "pics ms c") (auto simp: pic_disable_def Let_def pair_simps pics_ready_def masked_def inb_def
        pic_wired_def set_mask_bit word_less_nat_alt)
next
  case False
  have u: "unat (irq - 8) = unat irq - 8" using False by (simp add: unat_sub word_le_nat_alt not_less)
  have l: "irq - 8 < 8" using False assms(3) by (simp add: word_less_nat_alt u) 
  show ?thesis
    using False assms set_mask_bit [OF l]
    by (cases "pics ms c") (auto simp: pic_disable_def Let_def pair_simps pics_ready_def masked_def inb_def
        pic_wired_def u word_less_nat_alt)
qed

lemma pic_disable_total_no_effect: "pics ms (pic_disable_total c) = pics ms c"
  by (cases "pics ms c") (simp add: pic_disable_total_def Let_def pair_simps)

text \<open>The lines let through, as a set, and what the calls do to it.\<close>

datatype pic_call = Enable u8 | Disable u8

primrec pic_do :: "pic_call \<Rightarrow> cpu \<Rightarrow> cpu" where
  "pic_do (Enable irq) = pic_enable irq"
| "pic_do (Disable irq) = pic_disable irq"

primrec pic_irq :: "pic_call \<Rightarrow> u8" where
  "pic_irq (Enable irq) = irq"
| "pic_irq (Disable irq) = irq"

primrec pic_lines :: "pic_call \<Rightarrow> nat set \<Rightarrow> nat set" where
  "pic_lines (Enable irq) S = insert (unat irq) (if irq < 8 then S else insert 2 S)"
| "pic_lines (Disable irq) S = S - {unat irq}"

definition unmasked :: "pic_chip \<times> pic_chip \<Rightarrow> nat set" where
  "unmasked ms = {irq. irq < 16 \<and> \<not> masked ms irq}"

lemma pic_do_wired [simp]: "pic_wired ms (pic_do call c) = pic_wired ms c"
  by (cases call) (simp_all add: pic_wired_def pic_enable_def pic_enable_low_def pic_disable_def Let_def)

lemma pic_do_lines:
  assumes "pic_wired ms c" and "pics_ready (pics ms c)" and "pic_irq call < 16"
  shows "pics_ready (pics ms (pic_do call c)) \<and> unmasked (pics ms (pic_do call c)) = pic_lines call (unmasked (pics ms c))"
proof (cases call)
  case (Enable irq)
  define t where "t = pics ms (pic_enable irq c)"
  have i: "irq < 16" "unat irq < 16" using assms(3) Enable by (simp_all add: word_less_nat_alt)
  note m = pic_enable_masks [OF assms(1,2) i(1), folded t_def]
  have "masked t n \<longleftrightarrow> masked (pics ms c) n \<and> n \<noteq> unat irq \<and> (irq < 8 \<or> n \<noteq> 2)" for n by (rule spec [OF conjunct2 [OF m]])
  then have "n < 16 \<and> \<not> masked t n \<longleftrightarrow> n = unat irq \<or> \<not> irq < 8 \<and> n = 2 \<or> n < 16 \<and> \<not> masked (pics ms c) n" for n
    using i(2) by (cases "n = unat irq"; cases "n = 2"; cases "irq < 8"; simp)
  then have "{n. n < 16 \<and> \<not> masked t n} = insert (unat irq) (if irq < 8 then S else insert 2 S)"
    if "S = {n. n < 16 \<and> \<not> masked (pics ms c) n}" for S unfolding that by (auto split: if_splits)
  with conjunct1 [OF m] show ?thesis unfolding Enable pic_do.simps pic_lines.simps t_def [symmetric] unmasked_def by blast
next
  case (Disable irq)
  define t where "t = pics ms (pic_disable irq c)"
  have i: "irq < 16" using assms(3) Disable by simp
  note m = pic_disable_masks [OF assms(1,2) i, folded t_def]
  have "masked t n \<longleftrightarrow> masked (pics ms c) n \<or> n = unat irq" for n by (rule spec [OF conjunct2 [OF m]])
  with conjunct1 [OF m] show ?thesis unfolding Disable pic_do.simps pic_lines.simps t_def [symmetric] unmasked_def by auto
qed

lemma pic_run_lines:
  assumes "pic_wired ms c" and "pics_ready (pics ms c)" and "\<forall>call \<in> set calls. pic_irq call < 16"
  shows "pics_ready (pics ms (fold pic_do calls c)) \<and> unmasked (pics ms (fold pic_do calls c)) = fold pic_lines calls (unmasked (pics ms c))"
  using assms
proof (induction calls arbitrary: c)
  case (Cons call calls)
  then show ?case using pic_do_lines [of ms c call] by simp
qed simp

lemma pic_init_lines: "pics_ready (pics ms (pic_init b0 b1 c))" "unmasked (pics ms (pic_init b0 b1 c)) = {2}"
proof -
  show "pics_ready (pics ms (pic_init b0 b1 c))" by (simp only: pic_init_pics) (simp add: pics_ready_def)
  have l: "list_all (\<lambda>n. (bit (0xFB :: u8) n \<longleftrightarrow> n \<noteq> 2) \<and> bit (0xFF :: u8) n) [0..<8]" by (simp add: upt_conv_Cons)
  have "unmasked (m, p) = {2}" if i: "imr m = 0xFB" "imr p = 0xFF" for m p
  proof -
    have "bit (imr m) n \<longleftrightarrow> n \<noteq> 2" "bit (imr p) n" if "n < 8" for n using l that unfolding i list_all_iff by simp_all
    then show ?thesis by (auto simp: unmasked_def masked_def)
  qed
  then show "unmasked (pics ms (pic_init b0 b1 c)) = {2}" unfolding pic_init_pics by simp
qed

text \<open>
  C34: whatever state the two interrupt controllers were in, after \<open>pic_init\<close> they take the given vector
  bases, and after any sequence of \<open>pic_enable\<close> and \<open>pic_disable\<close> calls the lines that are let through are
  those the calls ask for: \<open>pic_enable\<close> of a line of the slave also opens the cascade line 2, and nothing
  else changes.
\<close>
theorem pic_masks_refine:
  assumes "pic_wired ms c" and "\<forall>call \<in> set calls. pic_irq call < 16"
  shows "vector_base (fst (pics ms (pic_init b0 b1 c))) = ucast b0 AND 0xF8 \<and>
    vector_base (snd (pics ms (pic_init b0 b1 c))) = ucast b1 AND 0xF8 \<and>
    unmasked (pics ms (fold pic_do calls (pic_init b0 b1 c))) = fold pic_lines calls {2}"
proof -
  have "pic_wired ms (pic_init b0 b1 c)" using assms(1) by (simp add: pic_wired_def pic_init_def Let_def)
  note run = pic_run_lines [OF this pic_init_lines(1) assms(2)]
  show ?thesis unfolding conjunct2 [OF run] pic_init_lines(2) by (simp add: pic_init_pics del: pic_pair_append)
qed

text \<open>A machine with two controllers that power up with all lines masked.\<close>

definition demo_chip :: pic_chip where
  "demo_chip = \<lparr>phase = Ready, vector_base = 0, imr = 0xFF\<rparr>"

definition demo_cpu :: cpu where
  "demo_cpu =
     \<lparr>gdt = replicate 7 0, tss = \<lparr>reserved0 = 0, rsp0 = 0, rsp1 = 0, rsp2 = 0, reserved1 = 0, ist1 = 0, ist2 = 0, ist3 = 0, ist4 = 0,
        ist5 = 0, ist6 = 0, ist7 = 0, reserved2 = 0, reserved3 = 0, iomap_base = 0\<rparr>,
      gdtr = (0, 0), task_register = 0,
      idt = replicate 256 \<lparr>offset_low = 0, selector = 0, ist = 0, type_attr = 0, offset_mid = 0, offset_high = 0, zero = 0\<rparr>,
      idt_changed = False, idtr = (0, 0), msr = (\<lambda>_. 0xFEE00800),
      cpuid_leaf = (\<lambda>_ _. \<lparr>eax = 1, ebx = 0, ecx = 0, edx = 0x200\<rparr>), mmio = (\<lambda>_. 0), ports = [],
      port_in = (\<lambda>log port. if port = 0x21 then imr (fst (pic_pair (demo_chip, demo_chip) log))
        else imr (snd (pic_pair (demo_chip, demo_chip) log))),
      apic_addr = 0, total_ticks = 0, interrupt_flag = False\<rparr>"

lemma demo_cpu_wired: "pic_wired (demo_chip, demo_chip) demo_cpu"
  by (simp add: pic_wired_def demo_cpu_def)

theorem pic_masks_refine_witness:
  "unmasked (pics (demo_chip, demo_chip) (fold pic_do [Enable 1, Enable 9, Disable 1] (pic_init 0x20 0x28 demo_cpu))) = {2, 9}"
proof -
  have ok: "\<forall>call \<in> set [Enable 1, Enable 9, Disable 1]. pic_irq call < 16" by simp
  have "fold pic_lines [Enable 1, Enable 9, Disable 1] {2} = {2, 9}" by auto
  with pic_masks_refine [OF demo_cpu_wired ok, of "0x20" "0x28"] show ?thesis by (elim conjE) (erule trans)
qed

text \<open>
  \<open>pic_disable_total\<close> passes the arguments of \<open>outb\<close> in the wrong order: no byte reaches a controller with
  an effect, so no line gets masked.
\<close>

lemma pic_disable_total_masks_nothing: "unmasked (pics ms (pic_disable_total c)) = unmasked (pics ms c)"
  by (simp only: pic_disable_total_no_effect)

text \<open>\<open>pit_count\<close> likewise: no byte goes to the counter of the timer at port 0x40 unless the count says so.\<close>

lemma pit_count_ports: "ports (pit_count irq 100 c) = ports c @ [(0x40, 100), (0x40, 0)]"
  by (simp add: pit_count_def cli_def Let_def)

text \<open>\<open>set_idt_vector\<close> keeps a vector in use, unless the address of its handler is a multiple of 65536.\<close>

lemma set_idt_vector_replaces:
  assumes "unat v < length (idt c)"
  shows "gate_target (idt (set_idt_vector v h (idt_set_gate v 0xFFFFFFFF80010000 c)) ! unat v) = h"
  using assms by (simp add: set_idt_vector_def gate_target_set idt_set_gate_frame) (simp add: idt_set_gate_def)

end
