(* ===== verification/Syscalls.thy ===== *)
theory Syscalls
  imports Cpu
begin

unbundle bit_operations_syntax

text \<open>
  The system call table, \<open>kernel/arch/x86_64/syscalls/syscalls.c\<close>. The table has 2048 handlers; the code
  also reads the place behind it, whose contents are the field \<open>behind\<close>. A function pointer is the NULL
  pointer, one of the functions of the file, or another address; what other functions do is a
  parameter of \<open>syscall_dispatch\<close>. Handlers in user memory are read through \<open>peek\<close>.

  The lemmas show the outcome of every operation, and that the dispatcher only calls a function that
  was assigned to the number of the call and never the NULL pointer.
\<close>

section \<open>The code\<close>

datatype syscall_fn =
    NULL_fn
  | Assign_syscall_usermode
  | Remove_syscall_usermode
  | Return_syscall_usermode
  | Syscall_config_mode
  | Other_fn u64

record SYSCALL_HANDLER =
  ID :: u64
  FLAGS :: u64
  handler_fn :: syscall_fn

datatype syscall_return =
    SYSCALL_SUCCESS
  | SYSCALL_ERROR
  | SYSCALL_VALID
  | SYSCALL_INVALID
  | SYSCALL_TAKEN
  | SYSCALL_NOT_PRIVILAGED

primrec return_code :: "syscall_return \<Rightarrow> u64" where
  "return_code SYSCALL_SUCCESS = 0"
| "return_code SYSCALL_ERROR = 1"
| "return_code SYSCALL_VALID = 2"
| "return_code SYSCALL_INVALID = 3"
| "return_code SYSCALL_TAKEN = 4"
| "return_code SYSCALL_NOT_PRIVILAGED = 5"

abbreviation (input) SYSCALL_COUNT :: u64 where "SYSCALL_COUNT \<equiv> 2048"

abbreviation (input) SYSCALL_FLAG_EXISTS :: u64 where "SYSCALL_FLAG_EXISTS \<equiv> 1"

abbreviation (input) SYSCALL_FLAG_KERNEL_ONLY :: u64 where "SYSCALL_FLAG_KERNEL_ONLY \<equiv> 2"

abbreviation (input) SYSCALL_FLAG_WRITE_PROTECTED :: u64 where "SYSCALL_FLAG_WRITE_PROTECTED \<equiv> 8"

record systab =
  syscalls :: "SYSCALL_HANDLER list"
  behind :: SYSCALL_HANDLER

definition no_handler :: SYSCALL_HANDLER where
  "no_handler = \<lparr>ID = 0, FLAGS = 0, handler_fn = NULL_fn\<rparr>"

definition syscalls_boot :: "SYSCALL_HANDLER \<Rightarrow> systab" where
  "syscalls_boot other_data = \<lparr>syscalls = replicate 2048 no_handler, behind = other_data\<rparr>"

definition handler_at :: "u64 \<Rightarrow> systab \<Rightarrow> SYSCALL_HANDLER" where
  "handler_at nr s = (if nr < SYSCALL_COUNT then syscalls s ! unat nr else behind s)"

text \<open>The part of \<open>init_syscalls\<close> that programs the processor.\<close>

definition init_syscall_msrs :: "image \<Rightarrow> cpu \<Rightarrow> cpu" where
  "init_syscall_msrs im c =
     (let c = wrmsr 0xC0000080 (rdmsr 0xC0000080 c OR 1) c;
          star = rdmsr 0xC0000081 c;
          star = star OR push_bit 32 (ucast KERNEL_CS);
          star = star OR push_bit 48 (ucast USER_CS);
          c = wrmsr 0xC0000081 star c;
          c = wrmsr 0xC0000082 (syscall_entry im) c
      in wrmsr 0xC0000084 0 c)"

definition assign_syscall_handler :: "SYSCALL_HANDLER \<Rightarrow> systab \<Rightarrow> syscall_return \<times> systab" where
  "assign_syscall_handler handler s =
     (if SYSCALL_COUNT \<le> ID handler \<or> handler_fn handler = NULL_fn then (SYSCALL_INVALID, s)
      else if FLAGS (handler_at (ID handler) s) AND SYSCALL_FLAG_EXISTS \<noteq> 0 then (SYSCALL_TAKEN, s)
      else (SYSCALL_SUCCESS, s\<lparr>syscalls := (syscalls s)[unat (ID handler) := handler]\<rparr>))"

definition remove_syscall_handler :: "SYSCALL_HANDLER \<Rightarrow> systab \<Rightarrow> syscall_return \<times> systab" where
  "remove_syscall_handler handler s =
     (if SYSCALL_COUNT \<le> ID handler then (SYSCALL_INVALID, s)
      else (SYSCALL_SUCCESS, s\<lparr>syscalls := (syscalls s)[unat (ID handler) := (handler_at (ID handler) s)\<lparr>FLAGS := 0\<rparr>]\<rparr>))"

definition assign_syscall :: "u64 \<Rightarrow> syscall_fn \<Rightarrow> u64 \<Rightarrow> systab \<Rightarrow> syscall_return \<times> systab" where
  "assign_syscall nr fn flags s =
     (if SYSCALL_COUNT \<le> nr \<or> fn = NULL_fn then (SYSCALL_INVALID, s)
      else if FLAGS (handler_at nr s) AND SYSCALL_FLAG_EXISTS \<noteq> 0 then (SYSCALL_TAKEN, s)
      else (SYSCALL_SUCCESS,
            s\<lparr>syscalls := (syscalls s)[unat nr := (handler_at nr s)\<lparr>ID := nr, handler_fn := fn, FLAGS := flags\<rparr>]\<rparr>))"

definition remove_syscall :: "u64 \<Rightarrow> systab \<Rightarrow> syscall_return \<times> systab" where
  "remove_syscall nr s =
     (if SYSCALL_COUNT \<le> nr then (SYSCALL_INVALID, s)
      else (SYSCALL_SUCCESS, s\<lparr>syscalls := (syscalls s)[unat nr := (handler_at nr s)\<lparr>FLAGS := 0\<rparr>]\<rparr>))"

definition assign_syscall_usermode :: "(u64 \<Rightarrow> SYSCALL_HANDLER) \<Rightarrow> u64 \<Rightarrow> systab \<Rightarrow> syscall_return \<times> systab" where
  "assign_syscall_usermode peek ARG1 s =
     (let sys_handler = peek ARG1 in assign_syscall (ID sys_handler) (handler_fn sys_handler) (FLAGS sys_handler) s)"

definition remove_syscall_usermode :: "(u64 \<Rightarrow> SYSCALL_HANDLER) \<Rightarrow> u64 \<Rightarrow> systab \<Rightarrow> syscall_return \<times> systab" where
  "remove_syscall_usermode peek ARG1 s = (let sys_handler = peek ARG1 in remove_syscall (ID sys_handler) s)"

definition return_syscall_usermode :: "u64 \<Rightarrow> systab \<Rightarrow> SYSCALL_HANDLER" where
  "return_syscall_usermode ARG1 s =
     (if SYSCALL_COUNT < ARG1 then handler_at (2048 - 1) s else handler_at ARG1 s)"

definition syscall_config_mode :: "systab \<Rightarrow> systab" where
  "syscall_config_mode s =
     (let s = snd (remove_syscall 2046 s);
          s = snd (remove_syscall 2047 s);
          s = snd (remove_syscall 2048 s);
          flags = SYSCALL_FLAG_EXISTS OR SYSCALL_FLAG_KERNEL_ONLY;
          s = snd (assign_syscall 2046 Assign_syscall_usermode flags s);
          s = snd (assign_syscall 2047 Remove_syscall_usermode flags s)
      in snd (assign_syscall 2048 Return_syscall_usermode flags s))"

record syscall_frame =
  f_ID :: u64
  ARG1 :: u64
  ARG2 :: u64
  ARG3 :: u64
  ARG4 :: u64
  ARG5 :: u64
  ARG6 :: u64

text \<open>
  The call through a function pointer. \<open>syscall_config_mode\<close> returns nothing, its value is whatever the
  register holds: it is left to \<open>other\<close>, as are functions that are not of this file and the call of
  \<open>return_syscall_usermode\<close>, which returns a structure and is called as if it returned a number. The
  NULL pointer faults.
\<close>

type_synonym other_fns = "syscall_fn \<Rightarrow> u64 list \<Rightarrow> systab \<Rightarrow> u64 \<times> systab"

definition call_syscall ::
  "(u64 \<Rightarrow> SYSCALL_HANDLER) \<Rightarrow> other_fns \<Rightarrow> syscall_fn \<Rightarrow> u64 list \<Rightarrow> systab \<Rightarrow> (u64 \<times> systab) result" where
  "call_syscall peek other fn args s =
     (case fn of
        NULL_fn \<Rightarrow> Inl (Page_Fault 0)
      | Assign_syscall_usermode \<Rightarrow> (let (r, t) = assign_syscall_usermode peek (hd args) s in Inr (return_code r, t))
      | Remove_syscall_usermode \<Rightarrow> (let (r, t) = remove_syscall_usermode peek (hd args) s in Inr (return_code r, t))
      | Syscall_config_mode \<Rightarrow> (let t = syscall_config_mode s in Inr (fst (other fn args t), t))
      | _ \<Rightarrow> Inr (other fn args s))"

definition syscall_dispatch ::
  "(u64 \<Rightarrow> SYSCALL_HANDLER) \<Rightarrow> other_fns \<Rightarrow> syscall_frame \<Rightarrow> systab \<Rightarrow> (u64 \<times> systab) result" where
  "syscall_dispatch peek other f s =
     (if SYSCALL_COUNT < f_ID f \<or> ID (handler_at (f_ID f) s) = 0
         \<or> FLAGS (handler_at (f_ID f) s) AND SYSCALL_FLAG_EXISTS \<noteq> 0
      then Inr (return_code SYSCALL_INVALID, s)
      else call_syscall peek other (handler_fn (handler_at (f_ID f) s)) [ARG1 f, ARG2 f, ARG3 f, ARG4 f, ARG5 f, ARG6 f] s)"

text \<open>
  \<open>memset(syscalls, 0, SYSCALL_COUNT)\<close> counts bytes: a handler has 24, so the first 85 are cleared and
  the first word, the number, of the next one.
\<close>

definition clear_bytes :: "systab \<Rightarrow> systab" where
  "clear_bytes s = s\<lparr>syscalls :=
     map (\<lambda>i. if i < 85 then no_handler else if i = 85 then (syscalls s ! i)\<lparr>ID := 0\<rparr> else syscalls s ! i) [0..<length (syscalls s)]\<rparr>"

definition init_syscalls :: "image \<Rightarrow> cpu \<Rightarrow> systab \<Rightarrow> bool \<times> cpu \<times> systab" where
  "init_syscalls im c s =
     (if \<not> has_cpu_msr c then (False, c, s)
      else
        let c = init_syscall_msrs im c;
            s = clear_bytes s;
            s = snd (assign_syscall 2049 Syscall_config_mode (SYSCALL_FLAG_EXISTS OR SYSCALL_FLAG_WRITE_PROTECTED) s)
        in (True, c, s))"

section \<open>The table\<close>

text \<open>
  The states of the table the functions of the file lead to, with the assignments that succeeded so
  far.
\<close>

inductive sys_reach :: "(u64 \<times> syscall_fn) set \<Rightarrow> systab \<Rightarrow> bool" where
  boot: "sys_reach {} (syscalls_boot d)"
| assign: "sys_reach H s \<Longrightarrow> assign_syscall nr fn flags s = (SYSCALL_SUCCESS, t) \<Longrightarrow> sys_reach (insert (nr, fn) H) t"
| assign_handler: "sys_reach H s \<Longrightarrow> assign_syscall_handler h s = (SYSCALL_SUCCESS, t) \<Longrightarrow> sys_reach (insert (ID h, handler_fn h) H) t"
| remove: "sys_reach H s \<Longrightarrow> sys_reach H (snd (remove_syscall nr s))"
| remove_handler: "sys_reach H s \<Longrightarrow> sys_reach H (snd (remove_syscall_handler h s))"
| config: "sys_reach H s \<Longrightarrow> sys_reach ({(2046, Assign_syscall_usermode), (2047, Remove_syscall_usermode)} \<union> H) (syscall_config_mode s)"
| init: "sys_reach H s \<Longrightarrow> sys_reach H (snd (snd (init_syscalls im c s)))"

definition slot_ok :: "(u64 \<times> syscall_fn) set \<Rightarrow> nat \<Rightarrow> SYSCALL_HANDLER \<Rightarrow> bool" where
  "slot_ok H i h \<longleftrightarrow> ID h = 0 \<or> ID h = word_of_nat i \<and> (word_of_nat i, handler_fn h) \<in> H \<and> handler_fn h \<noteq> NULL_fn"

definition sys_inv :: "(u64 \<times> syscall_fn) set \<Rightarrow> systab \<Rightarrow> bool" where
  "sys_inv H s \<longleftrightarrow> length (syscalls s) = 2048 \<and> (\<forall>i<2048. slot_ok H i (syscalls s ! i))"

lemma sys_inv_mono: "sys_inv H s \<Longrightarrow> H \<subseteq> H' \<Longrightarrow> sys_inv H' s"
  by (auto simp: sys_inv_def slot_ok_def)

lemma sys_inv_update:
  assumes "sys_inv H s" and "i < 2048" and "slot_ok H i h"
  shows "sys_inv H (s\<lparr>syscalls := (syscalls s)[i := h]\<rparr>)"
  using assms by (auto simp: sys_inv_def nth_list_update)

lemma assign_syscall_cases:
  obtains "assign_syscall nr fn flags s = (SYSCALL_INVALID, s)" "2048 \<le> nr \<or> fn = NULL_fn"
  | "assign_syscall nr fn flags s = (SYSCALL_TAKEN, s)" "nr < 2048" "bit (FLAGS (handler_at nr s)) 0"
  | "nr < 2048" "fn \<noteq> NULL_fn" "\<not> bit (FLAGS (handler_at nr s)) 0"
    "assign_syscall nr fn flags s = (SYSCALL_SUCCESS, s\<lparr>syscalls := (syscalls s)[unat nr := \<lparr>ID = nr, FLAGS = flags, handler_fn = fn\<rparr>]\<rparr>)"
proof -
  have e: "FLAGS (handler_at nr s) AND 1 \<noteq> 0 \<longleftrightarrow> bit (FLAGS (handler_at nr s)) 0"
    by (simp add: and_one_eq bit_0 odd_iff_mod_2_eq_one)
  have u: "(handler_at nr s)\<lparr>ID := nr, handler_fn := fn, FLAGS := flags\<rparr> = \<lparr>ID = nr, FLAGS = flags, handler_fn = fn\<rparr>" by simp
  consider "2048 \<le> nr \<or> fn = NULL_fn" | "nr < 2048" "fn \<noteq> NULL_fn" "bit (FLAGS (handler_at nr s)) 0"
    | "nr < 2048" "fn \<noteq> NULL_fn" "\<not> bit (FLAGS (handler_at nr s)) 0"
    by (meson not_le)
  then show ?thesis
  proof cases
    case 1
    then show ?thesis by (intro that(1)) (auto simp: assign_syscall_def)
  next
    case 2
    then show ?thesis by (intro that(2)) (auto simp: assign_syscall_def e)
  next
    case 3
    then show ?thesis by (intro that(3)) (simp_all add: assign_syscall_def e u not_le del: SYSCALL_HANDLER.update_convs)
  qed
qed

lemma assign_syscall_inv:
  assumes "sys_inv H s" shows "sys_inv (insert (nr, fn) H) (snd (assign_syscall nr fn flags s))"
proof (cases rule: assign_syscall_cases [of nr fn flags s])
  case 3
  have "unat nr < 2048" using 3(1) by (simp add: word_less_nat_alt)
  moreover have "sys_inv (insert (nr, fn) H) s" using assms by (rule sys_inv_mono) auto
  ultimately show ?thesis using 3 by (auto intro!: sys_inv_update simp: slot_ok_def)
qed (use assms in \<open>auto intro: sys_inv_mono\<close>)

lemma remove_syscall_inv:
  assumes "sys_inv H s" shows "sys_inv H (snd (remove_syscall nr s))"
proof (cases "nr < 2048")
  case True
  then have u: "unat nr < 2048" by (simp add: word_less_nat_alt)
  then have "slot_ok H (unat nr) ((handler_at nr s)\<lparr>FLAGS := 0\<rparr>)"
    using assms True by (auto simp: sys_inv_def handler_at_def slot_ok_def)
  then show ?thesis using True assms u by (auto simp: remove_syscall_def intro: sys_inv_update)
qed (use assms in \<open>simp add: remove_syscall_def not_less\<close>)

lemma handler_calls:
  "remove_syscall_handler h = remove_syscall (ID h)"
  "assign_syscall_handler h s = assign_syscall (ID h) (handler_fn h) (FLAGS h) s"
proof -
  show "remove_syscall_handler h = remove_syscall (ID h)" by (simp add: fun_eq_iff remove_syscall_handler_def remove_syscall_def)
  have u: "(handler_at (ID h) s)\<lparr>ID := ID h, handler_fn := handler_fn h, FLAGS := FLAGS h\<rparr> = h" by simp
  show "assign_syscall_handler h s = assign_syscall (ID h) (handler_fn h) (FLAGS h) s"
    unfolding assign_syscall_handler_def assign_syscall_def u by (rule refl)
qed

lemma config_inv:
  assumes "sys_inv H s"
  shows "sys_inv ({(2046, Assign_syscall_usermode), (2047, Remove_syscall_usermode)} \<union> H) (syscall_config_mode s)"
proof -
  have n: "snd (assign_syscall 2048 f g t) = t" for f g t by (simp add: assign_syscall_def)
  have "sys_inv (insert (2047, Remove_syscall_usermode) (insert (2046, Assign_syscall_usermode) H)) (syscall_config_mode s)"
    unfolding syscall_config_mode_def Let_def n by (intro assign_syscall_inv remove_syscall_inv assms)
  then show ?thesis by (rule sys_inv_mono) auto
qed

lemma init_inv:
  assumes "sys_inv H s" shows "sys_inv H (snd (snd (init_syscalls im c s)))"
proof -
  have "sys_inv H (clear_bytes s)" using assms by (auto simp: sys_inv_def clear_bytes_def slot_ok_def no_handler_def)
  moreover have "snd (assign_syscall 2049 f g t) = t" for f g t by (simp add: assign_syscall_def)
  ultimately show ?thesis using assms by (simp add: init_syscalls_def Let_def)
qed

lemma sys_reach_inv: "sys_reach H s \<Longrightarrow> sys_inv H s"
proof (induction rule: sys_reach.induct)
  case (boot d)
  then show ?case by (simp add: sys_inv_def syscalls_boot_def slot_ok_def no_handler_def)
next
  case (assign H s nr fn flags t)
  then show ?case using assign_syscall_inv [of H s nr fn flags] by simp
next
  case (assign_handler H s h t)
  then show ?case using assign_syscall_inv [of H s "ID h" "handler_fn h" "FLAGS h"] by (simp add: handler_calls)
qed (simp_all only: remove_syscall_inv handler_calls config_inv init_inv)

text \<open>
  C35: in every state of the table, a system call with any number but 2048 is either refused as
  invalid, with nothing changed, or calls a function that was assigned to exactly this number and is
  not the NULL pointer, and gives back what it returns.
\<close>
theorem syscall_dispatch_safe:
  assumes "sys_reach H s" and "f_ID f \<noteq> 2048"
  shows "syscall_dispatch peek other f s = Inr (3, s) \<or>
    (\<exists>fn r. (f_ID f, fn) \<in> H \<and> fn \<noteq> NULL_fn \<and>
       syscall_dispatch peek other f s = call_syscall peek other fn [ARG1 f, ARG2 f, ARG3 f, ARG4 f, ARG5 f, ARG6 f] s \<and>
       syscall_dispatch peek other f s = Inr r)"
proof (cases "2048 < f_ID f \<or> ID (handler_at (f_ID f) s) = 0 \<or> FLAGS (handler_at (f_ID f) s) AND 1 \<noteq> 0")
  case False
  let ?h = "handler_at (f_ID f) s"
  have lt: "f_ID f < 2048" using False assms(2) by auto
  then have "slot_ok H (unat (f_ID f)) ?h"
    using sys_reach_inv [OF assms(1)] by (simp add: sys_inv_def handler_at_def word_less_nat_alt)
  then have h: "(f_ID f, handler_fn ?h) \<in> H" "handler_fn ?h \<noteq> NULL_fn" using False by (auto simp: slot_ok_def)
  have "syscall_dispatch peek other f s = call_syscall peek other (handler_fn ?h) [ARG1 f, ARG2 f, ARG3 f, ARG4 f, ARG5 f, ARG6 f] s"
    using False by (simp add: syscall_dispatch_def)
  moreover have "\<exists>r. call_syscall peek other (handler_fn ?h) args s = Inr r" for args
    using h(2) by (cases "handler_fn ?h") (auto simp: call_syscall_def Let_def split: prod.splits)
  ultimately show ?thesis using h by auto
qed (simp add: syscall_dispatch_def)

text \<open>A table with one function, assigned without the flag \<open>SYSCALL_FLAG_EXISTS\<close>.\<close>

definition demo_table :: systab where
  "demo_table = snd (assign_syscall 7 (Other_fn 0x1000) 4 (syscalls_boot no_handler))"

definition demo_frame :: syscall_frame where
  "demo_frame = \<lparr>f_ID = 7, ARG1 = 1, ARG2 = 2, ARG3 = 3, ARG4 = 4, ARG5 = 5, ARG6 = 6\<rparr>"

theorem syscall_dispatch_safe_witness:
  "\<exists>r. syscall_dispatch (\<lambda>_. no_handler) (\<lambda>fn args s. (sum_list args, s)) demo_frame demo_table = Inr r"
proof -
  have "assign_syscall 7 (Other_fn 0x1000) 4 (syscalls_boot no_handler) = (SYSCALL_SUCCESS, demo_table)"
    by (simp add: demo_table_def assign_syscall_def handler_at_def syscalls_boot_def no_handler_def)
  then have "sys_reach (insert (7, Other_fn 0x1000) {}) demo_table" by (rule sys_reach.assign [OF sys_reach.boot])
  from syscall_dispatch_safe [OF this, of demo_frame "\<lambda>_. no_handler" "\<lambda>fn args s. (sum_list args, s)"] show ?thesis
    by (auto simp: demo_frame_def)
qed

text \<open>
  The test of \<open>SYSCALL_FLAG_EXISTS\<close> in the dispatcher is the wrong way round: a function that was assigned
  with the flag cannot be called. Number 0 cannot be called either, and neither configuration mode
  (2049) nor its third service (2048) is ever installed, as both numbers are outside of the table.
\<close>

lemma existing_syscall_refused:
  assumes "assign_syscall nr fn flags s = (SYSCALL_SUCCESS, t)" and "bit flags 0" and "length (syscalls s) = 2048" and "f_ID f = nr"
  shows "syscall_dispatch peek other f t = Inr (3, t)"
proof (cases rule: assign_syscall_cases [of nr fn flags s])
  case 3
  have "unat nr < 2048" using 3(1) by (simp add: word_less_nat_alt)
  then have "FLAGS (handler_at nr t) = flags" using 3 assms by (auto simp: handler_at_def)
  moreover have "flags AND 1 \<noteq> 0" using assms(2) by (simp add: and_one_eq bit_0 odd_iff_mod_2_eq_one)
  ultimately show ?thesis using assms(4) by (simp add: syscall_dispatch_def)
qed (use assms(1) in auto)

lemma config_mode_not_installed:
  "assign_syscall 2049 Syscall_config_mode flags s = (SYSCALL_INVALID, s)"
  "assign_syscall 2048 Return_syscall_usermode flags s = (SYSCALL_INVALID, s)"
  by (simp_all add: assign_syscall_def)

text \<open>Number 2048 passes the bound of the dispatcher: the function it calls is read from behind the table.\<close>

lemma dispatch_behind_table:
  assumes "f_ID f = 2048" and "ID (behind s) \<noteq> 0" and "\<not> bit (FLAGS (behind s)) 0"
  shows "syscall_dispatch peek other f s = call_syscall peek other (handler_fn (behind s)) [ARG1 f, ARG2 f, ARG3 f, ARG4 f, ARG5 f, ARG6 f] s"
  using assms by (simp add: syscall_dispatch_def handler_at_def and_one_eq bit_0 odd_iff_mod_2_eq_one)

end
