(* ===== verification/Thread.thy ===== *)
theory Thread
  imports Kmalloc Cpu
begin

unbundle bit_operations_syntax

text \<open>
  Kernel threads, \<open>kernel/arch/x86_64/thread/thread.c\<close>, with the assembly routine \<open>restore_context\<close> of
  \<open>thread_s.s\<close>. A context is 18 words of the heap memory \<open>kmem\<close>, in the order of \<open>context_t\<close>. The selector
  \<open>get_cs\<close> reads and the context \<open>grab_context\<close> returns are arguments.

  The lemmas show that the context of a new thread lies in its own stack and what is loaded from it.
\<close>

section \<open>The code\<close>

datatype status_t = READY | RUNNING | DEAD | ASLEEP

record thread_t =
  thread_status :: status_t
  kernel_stack :: u64
  cpu_state :: u64
  next_thread :: u64

abbreviation (input) STACK_SIZE :: u64 where "STACK_SIZE \<equiv> 4 * PAGE_SIZE"

abbreviation (input) sizeof_context :: u64 where "sizeof_context \<equiv> 144"

definition initial_context :: "u8 \<Rightarrow> u64 \<Rightarrow> u64 \<Rightarrow> u64 \<Rightarrow> kmemory \<Rightarrow> u64 \<times> kmemory" where
  "initial_context get_cs stack stack_size entry_point m =
     (let stack_top = stack + stack_size;
          stack_top = stack_top AND NOT 0xF;
          ctx = stack_top - sizeof_context;
          m = fold (\<lambda>i m. m(ctx + word_of_nat (8 * i) := 0)) [0..<18] m;
          m = m(ctx + 120 := entry_point);
          m = m(ctx + 128 := ucast get_cs);
          m = m(ctx + 136 := 0x202)
      in (ctx, m))"

definition catch_current_context :: "u64 \<Rightarrow> u64" where
  "catch_current_context context_address = context_address"

definition thread_create :: "u8 \<Rightarrow> u64 \<Rightarrow> kheap \<Rightarrow> (thread_t \<times> kheap) result option" where
  "thread_create get_cs entry_point s =
     bind_loop (kmalloc STACK_SIZE s) (\<lambda>(stack, s1).
       let (ctx, m) = initial_context get_cs stack STACK_SIZE entry_point (kmem s1)
       in Some (Inr (\<lparr>thread_status = READY, kernel_stack = stack, cpu_state = ctx, next_thread = 0\<rparr>, s1\<lparr>kmem := m\<rparr>)))"

definition thread_kill :: "thread_t \<Rightarrow> thread_t" where
  "thread_kill thread = thread\<lparr>thread_status := DEAD\<rparr>"

text \<open>
  \<open>restore_context\<close> pops fifteen registers and ends with \<open>iretq\<close>, which in 64-bit mode pops five words:
  instruction pointer, code segment, flags, stack pointer and stack segment.
\<close>

record registers =
  general :: "u64 list"
  rip :: u64
  cs :: u64
  rflags :: u64
  rsp :: u64
  ss :: u64

definition restore_context :: "kmemory \<Rightarrow> u64 \<Rightarrow> registers" where
  "restore_context m ctx =
     \<lparr>general = map (\<lambda>i. m (ctx + word_of_nat (8 * i))) [0..<15], rip = m (ctx + 120), cs = m (ctx + 128),
      rflags = m (ctx + 136), rsp = m (ctx + 144), ss = m (ctx + 152)\<rparr>"

definition thread_switch :: "u64 \<Rightarrow> thread_t \<Rightarrow> thread_t \<Rightarrow> kmemory \<Rightarrow> thread_t \<times> registers" where
  "thread_switch grab_context current_thread next m =
     (let current_context = grab_context;
          current_thread = current_thread\<lparr>cpu_state := current_context\<rparr>;
          next_context = cpu_state next
      in (current_thread, restore_context m next_context))"

section \<open>Data in the heap\<close>

lemma areas_split:
  "(x, l) \<in> areas a bs \<Longrightarrow> \<exists>xs n ys. bs = xs @ (True, n) # ys \<and> x = a + span xs + 32 \<and> l = n - 32"
proof (induction a bs rule: areas.induct)
  case (2 a u n bs)
  show ?case
  proof (cases "u \<and> (x, l) = (a + 32, n - 32)")
    case True
    then have "(u, n) # bs = [] @ (True, n) # bs \<and> x = a + span [] + 32 \<and> l = n - 32" by simp
    then show ?thesis by blast
  next
    case False
    then have "(x, l) \<in> areas (a + n) bs" using 2(2) by (auto split: if_splits)
    from 2(1) [OF this] obtain xs k ys where "bs = xs @ (True, k) # ys" "x = a + n + span xs + 32" "l = k - 32" by auto
    then have "(u, n) # bs = ((u, n) # xs) @ (True, k) # ys \<and> x = a + span ((u, n) # xs) + 32 \<and> l = k - 32" by simp
    then show ?thesis by blast
  qed
qed simp

text \<open>Writing into an area in use keeps the heap, and the data of the other areas.\<close>

lemma area_write:
  assumes inv: "kinv s bs" and ar: "(x, l) \<in> areas (unat (heap_start s)) bs" and i: "x \<le> y" "y < x + l"
  shows "kinv (s\<lparr>kmem := (kmem s)(W y := v)\<rparr>) bs"
proof -
  obtain xs n ys where b: "bs = xs @ (True, n) # ys" "x = unat (heap_start s) + span xs + 32" "l = n - 32"
    using areas_split [OF ar] by blast
  define k where "k = y - (unat (heap_start s) + span xs)"
  have k: "32 \<le> k" "k < n" "y = unat (heap_start s) + span xs + k" using i b(2,3) by (auto simp: k_def)
  have ne: "bs \<noteq> []" using b(1) by simp
  have h: "blocks_ok bs" "unat (heap_start s) + span bs < 18446744073709551616" "seg (kmem s) 0 (unat (heap_start s)) bs 0"
    using inv ne by (auto simp: kinv_def)
  have "seg ((kmem s)(W y := v)) 0 (unat (heap_start s)) bs 0"
    unfolding b(1) k(3) by (rule seg_free_upd) (use h b(1) k(1,2) in auto)
  then show ?thesis using inv ne by (simp add: kinv_def del: fun_upd_apply)
qed

definition writes :: "(nat \<times> u64) list \<Rightarrow> kmemory \<Rightarrow> kmemory" where
  "writes ws m = fold (\<lambda>(y, v) m. m(W y := v)) ws m"

lemma area_writes:
  assumes "(x, l) \<in> areas (unat (heap_start s)) bs" and "\<forall>(y, v) \<in> set ws. x \<le> y \<and> y < x + l"
  shows "kinv s bs \<Longrightarrow> kinv (s\<lparr>kmem := writes ws (kmem s)\<rparr>) bs"
  using assms
proof (induction ws arbitrary: s)
  case (Cons w ws)
  obtain y v where w: "w = (y, v)" by fastforce
  let ?s = "s\<lparr>kmem := (kmem s)(W y := v)\<rparr>"
  have "kinv ?s bs" using area_write [OF Cons.prems(1,2)] Cons.prems(3) w by simp
  then have "kinv (?s\<lparr>kmem := writes ws (kmem ?s)\<rparr>) bs" by (rule Cons.IH) (use Cons.prems in auto)
  then show ?case by (simp add: w writes_def)
qed (simp add: writes_def)

lemma writes_outside:
  assumes "\<forall>(y, v) \<in> set ws. y < 18446744073709551616 \<and> y \<noteq> z" and "z < 18446744073709551616"
  shows "writes ws m (W z) = m (W z)"
  using assms(1) unfolding writes_def
proof (induction ws arbitrary: m)
  case (Cons w ws)
  obtain y v where w: "w = (y, v)" by fastforce
  then show ?case using Cons assms(2) by (simp add: W_eq)
qed simp

section \<open>New threads\<close>

lemma zeroed_words:
  "fold (\<lambda>i m. m(c + word_of_nat (8 * i) := 0)) [0..<n] m a = (if \<exists>i<n. a = c + word_of_nat (8 * i) then 0 else m a)"
  by (induction n) (auto simp: less_Suc_eq)

lemma offset_neq: "i < 100 \<Longrightarrow> j < 100 \<Longrightarrow> (word_of_nat (8 * i) :: u64) = word_of_nat (8 * j) \<longleftrightarrow> i = j"
proof -
  assume "i < 100" "j < 100"
  then have "unat (word_of_nat (8 * i) :: u64) = 8 * i" "unat (word_of_nat (8 * j) :: u64) = 8 * j"
    by (simp_all only: unat_of_nat_u64)
  then show "(word_of_nat (8 * i) :: u64) = word_of_nat (8 * j) \<longleftrightarrow> i = j" unfolding u64_eq_iff_unat by linarith
qed

lemma restore_initial_context:
  assumes "initial_context sel stack n e m = (ctx, m')"
  shows "restore_context m' ctx =
    \<lparr>general = replicate 15 0, rip = e, cs = ucast sel, rflags = 0x202, rsp = m (ctx + 144), ss = m (ctx + 152)\<rparr>"
proof -
  let ?z = "fold (\<lambda>i m. m(ctx + word_of_nat (8 * i) := 0)) [0..<18] m"
  have m': "m' = ?z(ctx + word_of_nat (8 * 15) := e, ctx + word_of_nat (8 * 16) := ucast sel, ctx + word_of_nat (8 * 17) := 0x202)"
    using assms by (auto simp: initial_context_def Let_def simp del: of_nat_mult)
  have at: "m' (ctx + word_of_nat (8 * j)) =
    (if j = 15 then e else if j = 16 then ucast sel else if j = 17 then 0x202 else if j < 18 then 0 else m (ctx + word_of_nat (8 * j)))"
    if "j < 100" for j
  proof -
    have "(\<exists>i<18. (word_of_nat (8 * j) :: u64) = word_of_nat (8 * i)) \<longleftrightarrow> j < 18"
    proof -
      have "(i < 18 \<and> (word_of_nat (8 * j) :: u64) = word_of_nat (8 * i)) \<longleftrightarrow> (i < 18 \<and> j = i)" for i
        by (rule conj_cong [OF refl]) (rule offset_neq, use that in auto)
      then show ?thesis by simp
    qed
    then show ?thesis unfolding m' fun_upd_apply zeroed_words add_left_cancel using that by (simp only: offset_neq) auto
  qed
  from at [of 15] at [of 16] at [of 17] at [of 18] at [of 19] have
    "m' (ctx + 120) = e" "m' (ctx + 128) = ucast sel" "m' (ctx + 136) = 0x202" "m' (ctx + 144) = m (ctx + 144)" "m' (ctx + 152) = m (ctx + 152)"
    by simp_all
  moreover have "map (\<lambda>i. m' (ctx + word_of_nat (8 * i))) [0..<15] = replicate 15 0"
    by (rule nth_equalityI) (auto simp: at simp del: of_nat_mult upt_rec_numeral)
  ultimately show ?thesis by (simp add: restore_context_def del: of_nat_mult)
qed

definition context_writes :: "nat \<Rightarrow> u8 \<Rightarrow> u64 \<Rightarrow> (nat \<times> u64) list" where
  "context_writes c sel e = map (\<lambda>i. (c + 8 * i, 0)) [0..<18] @ [(c + 120, e), (c + 128, ucast sel), (c + 136, 0x202)]"

lemma initial_context_writes:
  assumes "16 dvd unat stack" and "unat stack + 16384 < 18446744073709551616"
  shows "initial_context sel stack 0x4000 e m = (W (unat stack + 16240), writes (context_writes (unat stack + 16240) sel e) m)"
proof -
  have "stack + 0x4000 = W (unat stack + 16384)" by (simp add: W_def)
  moreover have "W (unat stack + 16384) AND NOT 0xF = W (unat stack + 16384)"
  proof -
    have "unat (W (unat stack + 16384) AND NOT (mask 4)) = unat stack + 16384"
      using assms by (simp only: and_not_mask) (simp add: unat_W)
    then have "W (unat stack + 16384) AND NOT (mask 4) = W (unat stack + 16384)" by (metis W_unat)
    then show ?thesis by (simp add: mask_eq_exp_minus_1)
  qed
  moreover have "W (unat stack + 16384) - 144 = W (unat stack + 16240)"
    using W_diff [of 144 "unat stack + 16384"] by (simp add: W_def)
  moreover have "W (unat stack + 16240) + word_of_nat (8 * i) = W (unat stack + 16240 + 8 * i)" for i by (simp add: W_def)
  ultimately show ?thesis
    unfolding initial_context_def Let_def by (simp add: writes_def context_writes_def fold_map comp_def)
qed

text \<open>
  C36: when \<open>thread_create\<close> gets a stack, the heap stays well formed and the stack is a new area of it; the
  context lies at the end of this area, no byte of the areas in use before changes, and restoring the
  context starts at the entry point, with cleared registers, the kernel's code segment and interrupts on.
\<close>
theorem thread_create_context:
  assumes inv: "kinv s bs"
    and nv: "16 dvd unat (next_virt (kvm s))" "unat (next_virt (kvm s)) + 86384 < 18446744073709551616"
    and run: "thread_create sel e s = Some (Inr (th, s'))" and stack: "kernel_stack th \<noteq> 0"
  shows "\<exists>bs' k. kinv s' bs' \<and>
    areas (unat (heap_start s')) bs' = insert (unat (kernel_stack th), k) (areas (unat (heap_start s)) bs) \<and>
    16384 \<le> k \<and> unat (cpu_state th) = unat (kernel_stack th) + 16384 - 144 \<and>
    (\<forall>(x, l) \<in> areas (unat (heap_start s)) bs. \<forall>y. x \<le> y \<and> y < x + l \<longrightarrow> kmem s' (word_of_nat y) = kmem s (word_of_nat y)) \<and>
    general (restore_context (kmem s') (cpu_state th)) = replicate 15 0 \<and>
    rip (restore_context (kmem s') (cpu_state th)) = e \<and> cs (restore_context (kmem s') (cpu_state th)) = ucast sel \<and>
    rflags (restore_context (kmem s') (cpu_state th)) = 0x202 \<and> thread_status th = READY"
proof -
  obtain p s1 where k: "kmalloc 0x4000 s = Some (Inr (p, s1))"
    using run by (auto simp: thread_create_def bind_loop_Inr_iff)
  obtain ctx m where ic: "initial_context sel p 0x4000 e (kmem s1) = (ctx, m)" by fastforce
  have th: "th = \<lparr>thread_status = READY, kernel_stack = p, cpu_state = ctx, next_thread = 0\<rparr>" "s' = s1\<lparr>kmem := m\<rparr>"
    using run k ic by (simp_all add: thread_create_def)
  let ?A = "areas (unat (heap_start s)) bs"
  have "unat (0x4000 :: u64) = 16384" "p \<noteq> 0" using stack th(1) by simp_all
  then obtain bs' l where f: "kinv s1 bs'" "areas (unat (heap_start s1)) bs' = insert (unat p, l) ?A" "16384 \<le> l" "16 dvd unat p"
    and fe: "unat p + l \<le> unat (heap_end s1)" and dis: "\<forall>(x, n) \<in> ?A. x + n \<le> unat p \<or> unat p + l \<le> x"
    and old: "\<forall>(x, n) \<in> ?A. \<forall>y. x \<le> y \<and> y < x + n \<longrightarrow> kmem s1 (word_of_nat y) = kmem s (word_of_nat y)"
    using kmalloc_fresh [OF inv _ nv(1) _ k] nv(2) by auto
  have top: "unat p + 16384 < 18446744073709551616" using fe f(3) u64_less_wrap [of "heap_end s1"] by linarith
  define c where "c = unat p + 16240"
  have m: "ctx = W c" "m = writes (context_writes c sel e) (kmem s1)"
    using initial_context_writes [OF f(4) top] ic by (simp_all add: c_def)
  have inside: "\<forall>(y, v) \<in> set (context_writes c sel e). unat p \<le> y \<and> y < unat p + l"
    using f(3) by (auto simp: context_writes_def c_def)
  have "kinv s' bs'" unfolding th(2) m(2) by (rule area_writes [OF _ inside f(1)]) (simp add: f(2))
  moreover have "kmem s' (word_of_nat y) = kmem s (word_of_nat y)" if a: "(x, n) \<in> ?A" and y: "x \<le> y" "y < x + n" for x n y
  proof -
    have "y < unat p \<or> unat p + l \<le> y" using dis a y by fastforce
    moreover have "y < 18446744073709551616"
    proof -
      have "(x, n) \<in> areas (unat (heap_start s1)) bs'" using a f(2) by simp
      moreover have "bs' \<noteq> []" using f(2) by auto
      ultimately have "x + n \<le> unat (heap_start s1) + span bs'" "unat (heap_start s1) + span bs' < 18446744073709551616"
        using areas_inside f(1) by (auto simp: kinv_def)
      then show ?thesis using y by linarith
    qed
    ultimately have "writes (context_writes c sel e) (kmem s1) (W y) = kmem s1 (W y)"
      using inside fe u64_less_wrap [of "heap_end s1"] by (intro writes_outside) fastforce+
    then show ?thesis using old a y by (auto simp: th(2) m(2) W_def)
  qed
  moreover have "unat ctx = unat p + 16384 - 144" using top by (simp add: m(1) c_def unat_W)
  ultimately show ?thesis
    using f(2,3) restore_initial_context [OF ic] by (intro exI [of _ bs'] exI [of _ l]) (auto simp: th)
qed

theorem thread_create_context_witness:
  "\<exists>th s'. thread_create 8 0x1234 demo_heap = Some (Inr (th, s')) \<and> rip (restore_context (kmem s') (cpu_state th)) = 0x1234"
proof -
  have k: "first_fit 16416 [(False, 65536)] = Some ([], 65536, [])" by simp
  have h: "align_up 0x4000 KMALLOC_ALIGNMENT + sizeof_chunk = W 16416" "W (unat (heap_start demo_heap)) = 0xFFFFFFFE00000000"
    by (simp_all add: align_up_def W_def demo_heap_def)
  have "find_chunk (kmem demo_heap) (W 16416) (khead demo_heap) = Some 0xFFFFFFFE00000000"
    using kinv_find [OF demo_heap_inv, of 16416] k h(2) by simp
  then obtain s1 where "kmalloc 0x4000 demo_heap = Some (Inr (0xFFFFFFFE00000020, s1))"
    by (simp add: kmalloc_def h take_chunk_def Let_def)
  moreover obtain c m where "initial_context 8 0xFFFFFFFE00000020 0x4000 0x1234 (kmem s1) = (c, m)" by fastforce
  ultimately obtain th s' where run: "thread_create 8 0x1234 demo_heap = Some (Inr (th, s'))" "kernel_stack th = 0xFFFFFFFE00000020"
    by (simp add: thread_create_def)
  then have "kernel_stack th \<noteq> 0" by simp
  from thread_create_context [OF demo_heap_inv _ _ run(1) this] show ?thesis using run(1) by (auto simp: demo_heap_brk)
qed

text \<open>
  A context has no room for the stack pointer and the stack segment \<open>iretq\<close> loads: they come from the two
  words behind the stack, which belong to the next block of the heap.
\<close>

lemma thread_stack_pointer_behind:
  assumes "initial_context sel stack 0x4000 e m = (ctx, m')" and "16 dvd unat stack" and "unat stack + 16384 < 18446744073709551616"
  shows "rsp (restore_context m' ctx) = m (W (unat stack + 16384))" "ss (restore_context m' ctx) = m (W (unat stack + 16392))"
proof -
  have "ctx = W (unat stack + 16240)" using initial_context_writes [OF assms(2,3)] assms(1) by simp
  then have "ctx + 144 = W (unat stack + 16384)" "ctx + 152 = W (unat stack + 16392)" by (simp_all add: W_def)
  then show "rsp (restore_context m' ctx) = m (W (unat stack + 16384))" "ss (restore_context m' ctx) = m (W (unat stack + 16392))"
    using restore_initial_context [OF assms(1)] by simp_all
qed

end
