(* ===== verification/Grs.thy ===== *)
theory Grs
  imports Str
begin

unbundle bit_operations_syntax

text \<open>
  The registry of named values, \<open>kernel/grs/grs.c\<close>. The registers are structures of three 64-bit words
  in the byte memory of \<open>Str\<close>, where the names are as well; \<open>NOT_EXISTS\<close> is the address of the string
  literal. A local variable that is not initialised is an argument.

  The lemmas show when registers can be made and where they are kept, and that no operation ever
  finds one: the loop that looks for it does not run.
\<close>

section \<open>The code\<close>

record register_t =
  reg_name :: u64
  reg_id :: u64
  reg_value :: u64

datatype GRS_RETURN = GRS_SUCCESS | GRS_FAILED | GRS_REG_FILLED | GRS_NOT_EXISTS | GRS_INVALID

abbreviation (input) MAX_REGISTERS :: u64 where "MAX_REGISTERS \<equiv> 500"

abbreviation (input) sizeof_register :: u64 where "sizeof_register \<equiv> 24"

record grs =
  registry_mem_base :: u64
  registry_mem_size :: u64
  registry_mem_ptr :: u64
  reg_mem :: mem

definition load_word :: "mem \<Rightarrow> u64 \<Rightarrow> u64" where
  "load_word m p = fold (\<lambda>i w. w OR push_bit (8 * i) (ucast (m (p + word_of_nat i)))) [0..<8] 0"

definition store_word :: "u64 \<Rightarrow> u64 \<Rightarrow> mem \<Rightarrow> mem" where
  "store_word p w m = fold (\<lambda>i m. m(p + word_of_nat i := ucast (drop_bit (8 * i) w))) [0..<8] m"

definition store_register :: "u64 \<Rightarrow> register_t \<Rightarrow> mem \<Rightarrow> mem" where
  "store_register p r m = store_word (p + 16) (reg_value r) (store_word (p + 8) (reg_id r) (store_word p (reg_name r) m))"

text \<open>An element of a buffer of type \<open>void\<close> has size 1.\<close>

definition remove_at :: "u64 \<Rightarrow> u64 \<Rightarrow> u64 \<Rightarrow> mem \<Rightarrow> u64 \<times> mem" where
  "remove_at buffer cnt index m =
     (if load_word m cnt \<le> index then (0, m)
      else
        let m = snd (memmove (buffer + index) (buffer + (index + 1)) ((load_word m cnt - index - 1) * 1) m)
        in (1, store_word cnt (load_word m cnt - 1) m))"

text \<open>The loop counter is an \<open>int\<close>.\<close>

partial_function (option) ret_loop :: "u64 \<Rightarrow> register_t \<Rightarrow> int \<Rightarrow> register_t option option" where
  "ret_loop nm a i =
     (if i > 500 then if reg_name a = nm then Some (Some a) else ret_loop nm a (i + 1) else Some None)"

definition ret_register_handler :: "u64 \<Rightarrow> register_t \<Rightarrow> u64 \<Rightarrow> register_t option" where
  "ret_register_handler NOT_EXISTS a nm =
     (case ret_loop nm a 0 of
        None \<Rightarrow> None
      | Some (Some r) \<Rightarrow> Some r
      | Some None \<Rightarrow> Some (a\<lparr>reg_name := NOT_EXISTS\<rparr>))"

definition wrt_register_handler :: "register_t \<Rightarrow> grs \<Rightarrow> grs" where
  "wrt_register_handler handler s =
     s\<lparr>reg_mem := store_register (registry_mem_base s + reg_id handler * sizeof_register) handler (reg_mem s)\<rparr>"

text \<open>The first argument is what \<open>kcalloc\<close> returned, with the memory after it.\<close>

definition init_registry :: "u64 \<times> mem \<Rightarrow> grs \<Rightarrow> grs" where
  "init_registry kc s =
     s\<lparr>registry_mem_base := fst kc, reg_mem := snd kc, registry_mem_size := MAX_REGISTERS * sizeof_register, registry_mem_ptr := 0\<rparr>"

text \<open>\<open>strcmp\<close> with the NULL pointer faults.\<close>

definition same_string :: "u64 \<Rightarrow> u64 \<Rightarrow> mem \<Rightarrow> bool result option" where
  "same_string p q m =
     (if p = 0 then Some (Inl (Page_Fault 0))
      else case strcmp p q m of None \<Rightarrow> None | Some d \<Rightarrow> Some (Inr (d = 0)))"

definition create_register :: "u64 \<Rightarrow> u64 \<Rightarrow> u64 \<Rightarrow> grs \<Rightarrow> (GRS_RETURN \<times> grs) result option" where
  "create_register NOT_EXISTS nm val s =
     bind_loop (same_string nm NOT_EXISTS (reg_mem s)) (\<lambda>eq.
       if eq then Some (Inr (GRS_INVALID, s))
       else if nm = 0 \<or> val = 0 then Some (Inr (GRS_INVALID, s))
       else
         let s = s\<lparr>registry_mem_ptr := registry_mem_ptr s + 1\<rparr>;
             reg_a = \<lparr>reg_name = nm, reg_id = registry_mem_ptr s, reg_value = val\<rparr>
         in if MAX_REGISTERS \<le> registry_mem_ptr s then Some (Inr (GRS_REG_FILLED, s))
            else Some (Inr (GRS_SUCCESS,
              s\<lparr>reg_mem := store_register (registry_mem_base s + registry_mem_ptr s * sizeof_register) reg_a (reg_mem s)\<rparr>)))"

definition found_register :: "u64 \<Rightarrow> register_t \<Rightarrow> u64 \<Rightarrow> grs \<Rightarrow> (bool \<times> register_t) result option" where
  "found_register NOT_EXISTS a nm s =
     (case ret_register_handler NOT_EXISTS a nm of
        None \<Rightarrow> None
      | Some b \<Rightarrow> bind_loop (same_string (reg_name b) NOT_EXISTS (reg_mem s)) (\<lambda>eq. Some (Inr (\<not> eq, b))))"

text \<open>The assignment to \<open>read_buf\<close> changes the local copy of the pointer only.\<close>

definition read_register :: "u64 \<Rightarrow> register_t \<Rightarrow> u64 \<Rightarrow> u64 \<Rightarrow> grs \<Rightarrow> GRS_RETURN result option" where
  "read_register NOT_EXISTS a nm read_buf s =
     (if nm = 0 \<or> read_buf = 0 then Some (Inr GRS_INVALID)
      else bind_loop (found_register NOT_EXISTS a nm s) (\<lambda>(found, b).
        if \<not> found then Some (Inr GRS_NOT_EXISTS) else Some (Inr GRS_SUCCESS)))"

text \<open>Without a \<open>return\<close> at the end the value is whatever the register holds.\<close>

definition write_register :: "GRS_RETURN \<Rightarrow> u64 \<Rightarrow> register_t \<Rightarrow> u64 \<Rightarrow> u64 \<Rightarrow> grs \<Rightarrow> (GRS_RETURN \<times> grs) result option" where
  "write_register eax NOT_EXISTS a nm write_buf s =
     (if nm = 0 \<or> write_buf = 0 then Some (Inr (GRS_INVALID, s))
      else bind_loop (found_register NOT_EXISTS a nm s) (\<lambda>(found, b).
        if \<not> found then Some (Inr (GRS_NOT_EXISTS, s)) else Some (Inr (eax, wrt_register_handler b s))))"

definition destroy_register :: "u64 \<Rightarrow> register_t \<Rightarrow> u64 \<Rightarrow> grs \<Rightarrow> (GRS_RETURN \<times> grs) result option" where
  "destroy_register NOT_EXISTS a nm s =
     (if nm = 0 then Some (Inr (GRS_INVALID, s))
      else bind_loop (found_register NOT_EXISTS a nm s) (\<lambda>(found, c).
        if \<not> found then Some (Inr (GRS_NOT_EXISTS, s))
        else Some (Inr (GRS_SUCCESS, s\<lparr>reg_mem := snd (remove_at (registry_mem_base s) (reg_id c) sizeof_register (reg_mem s))\<rparr>))))"

section \<open>Looking up registers\<close>

text \<open>
  The loop runs while its counter is greater than 500 and starts at 0, so the search always ends with
  the name of the missing register, which every operation compares equal to itself.
\<close>

lemma ret_register_handler_missing: "ret_register_handler l a nm = Some (a\<lparr>reg_name := l\<rparr>)"
  by (simp add: ret_register_handler_def ret_loop.simps)

lemma byte_cmp_refl [simp]: "byte_cmp as as = 0"
  by (induction as) auto

lemma no_register_found:
  assumes "l \<noteq> 0" and "cstr_at (reg_mem s) l cs"
  shows "found_register l a nm s = Some (Inr (False, a\<lparr>reg_name := l\<rparr>))"
proof -
  have "strcmp l l (reg_mem s) = Some 0" using strcmp_cstr [OF assms(2) assms(2)] by simp
  then show ?thesis using assms(1) by (simp add: found_register_def ret_register_handler_missing same_string_def)
qed

text \<open>So reading, writing and destroying a register fail even when it was created just before.\<close>

lemma registers_never_found:
  assumes "l \<noteq> 0" and "cstr_at (reg_mem s) l cs" and "nm \<noteq> 0" and "buf \<noteq> 0"
  shows "read_register l a nm buf s = Some (Inr GRS_NOT_EXISTS)" "write_register x l a nm buf s = Some (Inr (GRS_NOT_EXISTS, s))"
    "destroy_register l a nm s = Some (Inr (GRS_NOT_EXISTS, s))"
  using assms no_register_found [OF assms(1,2)] by (simp_all add: read_register_def write_register_def destroy_register_def)

section \<open>Making registers\<close>

text \<open>The first register gets slot 1, and the counter goes on when the registry is full.\<close>

lemma create_register_codes:
  assumes "nm \<noteq> 0" and "cstr_at (reg_mem s) nm as" and "cstr_at (reg_mem s) l bs"
  shows "\<exists>r s'. create_register l nm val s = Some (Inr (r, s')) \<and>
    r = (if as = bs \<or> val = 0 then GRS_INVALID else if 500 \<le> registry_mem_ptr s + 1 then GRS_REG_FILLED else GRS_SUCCESS) \<and>
    registry_mem_ptr s' = (if r = GRS_INVALID then registry_mem_ptr s else registry_mem_ptr s + 1) \<and>
    (r \<noteq> GRS_SUCCESS \<longrightarrow> reg_mem s' = reg_mem s)"
proof -
  have "0 \<notin> set as" "0 \<notin> set bs" using assms cstr_at_nonzero by blast+
  then have "strcmp nm l (reg_mem s) = Some (byte_cmp as bs)" "byte_cmp as bs = 0 \<longleftrightarrow> as = bs"
    using strcmp_cstr [OF assms(2,3)] byte_cmp_zero_iff by auto
  then show ?thesis using assms(1) by (auto simp: create_register_def same_string_def Let_def)
qed

text \<open>A NULL name faults: it is compared before it is checked.\<close>

lemma create_register_null: "create_register l 0 val s = Some (Inl (Page_Fault 0))"
  by (simp add: create_register_def same_string_def)

end
