(* ===== verification/Kernel.thy ===== *)
theory Kernel
  imports Cpio Stdio Syscalls Kmalloc
begin

unbundle bit_operations_syntax

text \<open>
  Bringing the kernel up: \<open>kernel/arch/x86_64/init.c\<close> and \<open>kernel_main\<close> of \<open>kernel/startup.c\<close>, with the
  panic screen and the exception handlers of \<open>kernel/errs\<close> and the sleep loop of \<open>kernel/lib/time.h\<close>.
  Messages are left out. What \<open>get_ticks\<close> and \<open>get_milliseconds\<close> return at successive calls, while the
  timer interrupts run, is an argument.

  The lemmas show that the self test of the page allocator passes whenever a page is free, what the
  processor finds in its tables after \<open>init_cpu\<close>, and which boot information the kernel accepts.
\<close>

section \<open>Panics\<close>

definition panic_screen :: "tty \<Rightarrow> tty" where
  "panic_screen s =
     (case framebuffer_pb s of
        None \<Rightarrow> s
      | Some fb \<Rightarrow> fill_rect (ucast (fb_width fb div 2 + 100)) (ucast (fb_height fb div 2 + 50))
          (ucast (fb_width fb div 2 - 100)) (ucast (fb_height fb div 2 - 50)) 0xFFFF8C15 s)"

definition divide_error :: "'a result" where
  "divide_error = Inl (Kernel_Panic ''DIVIDE BY ZERO'')"

definition invalid_opcode :: "'a result" where
  "invalid_opcode = Inl (Kernel_Panic ''INVALID OPCODE'')"

definition general_protection :: "'a result" where
  "general_protection = Inl (Kernel_Panic ''GENERAL PROTECTION'')"

definition page_fault :: "'a result" where
  "page_fault = Inl (Kernel_Panic ''PAGE FAULT'')"

definition double_fault :: "'a result" where
  "double_fault = Inl (Kernel_Panic ''DOUBLE FAULT'')"

section \<open>Memory\<close>

definition test_ppm_func ::
  "(u64 \<Rightarrow> EFI_MEMORY_DESCRIPTOR) \<Rightarrow> u64 \<Rightarrow> u64 \<Rightarrow> u64 \<Rightarrow> pmm \<Rightarrow> pmm result" where
  "test_ppm_func descs mem_map mem_map_size descriptor_size p =
     (let (page, p) = palloc p
      in if page \<noteq> 0 then Inl (Kernel_Panic ''Allocated before PMM init'')
         else
           let p = for_u64 15 (\<lambda>i. pfree (i * 0x1000)) p
           in bind_result (init_pmm descs mem_map mem_map_size descriptor_size p) (\<lambda>p.
                let before = get_free_pages p; (page, p) = palloc p
                in if page = 0 then Inl (Kernel_Panic ''Allocation failed'')
                   else
                     let p = pfree page p
                     in if get_free_pages p \<noteq> before then Inl (Kernel_Panic ''Page count mismatch'') else Inr p))"

definition init_memory ::
  "cpu_env \<Rightarrow> (u64 \<Rightarrow> EFI_MEMORY_DESCRIPTOR) \<Rightarrow> u64 \<Rightarrow> BootInfo \<Rightarrow> vmm \<Rightarrow> vmm result option" where
  "init_memory env descs boot_addr boot s =
     bind_loop (Some (test_ppm_func descs (memory_map boot) (memory_map_size boot) (memory_descriptor_size boot) (vm_pmm s))) (\<lambda>p.
       init_vmm env descs boot_addr boot (s\<lparr>vm_pmm := p\<rparr>))"

section \<open>The processor\<close>

definition set_fault_gates :: "image \<Rightarrow> cpu \<Rightarrow> cpu" where
  "set_fault_gates im c =
     (let c = idt_set_gate 0 (divide_handler im) c;
          c = idt_set_gate 6 (invalid_opcode_handler im) c;
          c = idt_set_gate 13 (general_protection_handler im) c;
          c = idt_set_gate 14 (page_fault_handler im) c
      in idt_set_gate 8 (double_fault_handler im) c)"

definition init_primitivs :: "image \<Rightarrow> cpu \<Rightarrow> cpu" where
  "init_primitivs im c =
     (let c = cli c;
          c = init_gdt im c;
          c = set_fault_gates im c;
          c = load_idt (256 * 16 - 1) (idt_address im) c
      in sti c)"

definition init_interrupts :: "image \<Rightarrow> cpu \<Rightarrow> cpu" where
  "init_interrupts im c =
     (let cres = cpuid_leaf c 1 0;
          support_apic = (edx cres AND push_bit 9 1 \<noteq> 0);
          c = pic_init 0x20 0x28 c;
          c = pic_enable 1 c;
          c = pit_count 0 100 c
      in if support_apic then
           let c = apic_init im c;
               c = apic_start c;
               c = load_idt (256 * 16 - 1) (idt_address im) c;
               c = pic_disable_total c
           in timer_reset c
         else
           let c = pic_init 0x20 0x28 c;
               c = pic_enable 0 c
           in load_idt (256 * 16 - 1) (idt_address im) c)"

definition init_cpu :: "image \<Rightarrow> cpu \<Rightarrow> systab \<Rightarrow> cpu \<times> systab" where
  "init_cpu im c s =
     (let c = cli c;
          c = init_gdt im c;
          c = set_fault_gates im c;
          c = init_interrupts im c;
          c = sti c
      in snd (init_syscalls im c s))"

section \<open>Time\<close>

text \<open>\<open>abs\<close> takes an \<open>int\<close>: the difference of the times is cut to 32 bits. Compared with a 64-bit number the result is sign extended.\<close>

definition abs_int :: "u32 \<Rightarrow> u32" where
  "abs_int x = (if x <s 0 then - x else x)"

partial_function (option) sleep_loop :: "(nat \<Rightarrow> u64) \<Rightarrow> u64 \<Rightarrow> u64 \<Rightarrow> nat \<Rightarrow> nat option" where
  "sleep_loop milliseconds start_time time_ms i =
     (if scast (abs_int (ucast (start_time - milliseconds i))) \<le> time_ms
      then sleep_loop milliseconds start_time time_ms (i + 1) else Some i)"

definition kernel_sleep_ms :: "(nat \<Rightarrow> u64) \<Rightarrow> u64 \<Rightarrow> nat option" where
  "kernel_sleep_ms milliseconds time_ms = sleep_loop milliseconds (milliseconds 0) time_ms 1"

text \<open>\<open>while (get_ticks() != 200)\<close>\<close>

partial_function (option) wait_ticks :: "(nat \<Rightarrow> u64) \<Rightarrow> nat \<Rightarrow> nat option" where
  "wait_ticks ticks i = (if ticks i \<noteq> 200 then wait_ticks ticks (i + 1) else Some i)"

section \<open>The kernel\<close>

record kernel =
  k_tty :: tty
  k_cpu :: cpu
  k_sys :: systab
  k_heap :: kheap
  k_fs :: fsys

text \<open>What the machine provides: link addresses, registers, the memory map, the font, the clock and the ramdisk.\<close>

record machine =
  m_image :: image
  m_env :: cpu_env
  m_descs :: "u64 \<Rightarrow> EFI_MEMORY_DESCRIPTOR"
  m_font :: u64
  m_root_name :: u64
  m_ramdisk :: "u64 \<Rightarrow> u64 \<Rightarrow> bytes"
  m_ticks :: "nat \<Rightarrow> u64"
  m_milliseconds :: "nat \<Rightarrow> u64"

datatype boot_error = Missing_Magic | Missing_Framebuffer | Missing_Sizes | Unsupported_Format | Invalid_Initramfs

definition boot_problem :: "u64 \<Rightarrow> BootInfo \<Rightarrow> boot_error option" where
  "boot_problem boot_addr boot =
     (if boot_addr = 0 then Some Missing_Magic
      else if magic boot \<noteq> BOOTINFOMAGIC then Some Missing_Magic
      else if framebuffer_base boot = 0 then Some Missing_Framebuffer
      else if width boot = 0 \<or> height boot = 0 then Some Missing_Sizes
      else if 1 < framebuffer_pixel_format boot then Some Unsupported_Format
      else if initramfs_address boot = 0 \<or> initramfs_size boot = 0 then Some Invalid_Initramfs
      else None)"

definition boot_screen :: "u64 \<Rightarrow> BootInfo \<Rightarrow> tty \<Rightarrow> tty" where
  "boot_screen font boot s =
     (let framebuffer_fb = \<lparr>fb_width = ucast (width boot), fb_height = ucast (height boot),
            fb_pitch = ucast (pixels_per_scanline boot), fb_address = framebuffer_base boot\<rparr>
      in print_init font (init_graphics (Some framebuffer_fb) s))"

text \<open>
  \<open>kernel_main\<close> up to the start of the demo: it gives back the reason to return to the boot loader, or
  the code of \<open>list_files\<close> and the first entry of the root directory.
\<close>

definition kernel_main ::
  "machine \<Rightarrow> u64 \<Rightarrow> BootInfo \<Rightarrow> kernel \<Rightarrow> ((boot_error + u32 \<times> u64) \<times> kernel) result option" where
  "kernel_main mc boot_addr boot k =
     (case boot_problem boot_addr boot of
        Some e \<Rightarrow> Some (Inr (Inl e, k))
      | None \<Rightarrow>
          let k = k\<lparr>k_tty := boot_screen (m_font mc) boot (k_tty k)\<rparr>;
              k = k\<lparr>k_cpu := init_primitivs (m_image mc) (k_cpu k)\<rparr>;
              k = k\<lparr>k_cpu := cli (k_cpu k)\<rparr>
          in bind_loop (init_memory (m_env mc) (m_descs mc) boot_addr boot (kvm (k_heap k))) (\<lambda>v.
             let k = k\<lparr>k_heap := (k_heap k)\<lparr>kvm := v\<rparr>\<rparr>;
                 k = k\<lparr>k_cpu := sti (k_cpu k)\<rparr>;
                 (c, t) = init_cpu (m_image mc) (k_cpu k) (k_sys k);
                 k = k\<lparr>k_cpu := c, k_sys := t\<rparr>;
                 k = k\<lparr>k_heap := kmalloc_init (k_heap k)\<rparr>
             in bind_loop (init_fs (m_root_name mc) (Some (m_ramdisk mc (initramfs_address boot) (initramfs_size boot))) (k_fs k)) (\<lambda>f.
                let k = k\<lparr>k_fs := f\<rparr>;
                    k = k\<lparr>k_cpu := start_clock (k_cpu k)\<rparr>
                in case wait_ticks (m_ticks mc) 0 of
                     None \<Rightarrow> None
                   | Some _ \<Rightarrow>
                       (case kernel_sleep_ms (m_milliseconds mc) 1000 of
                          None \<Rightarrow> None
                        | Some _ \<Rightarrow>
                            (case list_files (Some [SLASH]) False (k_fs k) of
                               None \<Rightarrow> None
                             | Some r \<Rightarrow> Some (Inr (Inr r, k)))))))"

section \<open>The self test of the page allocator\<close>

lemma test_before_init: "palloc pmm_boot = (0, pmm_boot)" "pfree a pmm_boot = pmm_boot"
  by (simp_all add: pmm_boot_def palloc_def pfree_def mark_free_def)

lemma for_u64_id: "(\<And>i. f i s = s) \<Longrightarrow> for_u64 n f s = s"
  unfolding for_u64_def by (induction "[0..<unat n]") (simp_all add: fold_frame fold_invariant [where P = "\<lambda>x. x = s" and Q = "\<lambda>_. True"])

text \<open>
  C37: run on the booted kernel, \<open>test_ppm_func\<close> ends as \<open>init_pmm\<close> does when that panics, panics itself
  exactly when the memory map leaves no page free, and otherwise passes: neither of its other two
  panics can happen, and it leaves the same pages free as \<open>init_pmm\<close>.
\<close>
theorem test_ppm_func_outcome:
  "case init_pmm descs mem_map mem_map_size descriptor_size pmm_boot of
     Inl h \<Rightarrow> test_ppm_func descs mem_map mem_map_size descriptor_size pmm_boot = Inl h
   | Inr p \<Rightarrow>
       if \<forall>page. page_used p page
       then test_ppm_func descs mem_map mem_map_size descriptor_size pmm_boot = Inl (Kernel_Panic ''Allocation failed'')
       else \<exists>t. test_ppm_func descs mem_map mem_map_size descriptor_size pmm_boot = Inr t \<and>
         page_used t = page_used p \<and> get_free_pages t = get_free_pages p"
proof (cases "init_pmm descs mem_map mem_map_size descriptor_size pmm_boot")
  case (Inl h)
  then show ?thesis by (simp add: test_ppm_func_def test_before_init for_u64_id)
next
  case (Inr p)
  note spec = init_pmm_spec [OF Inr refl refl]
  have ready: "pmm_ready p" using spec(1,2,5) by (simp add: pmm_ready_def)
  have none: "(\<forall>page. page_used p page) \<longleftrightarrow> free_set p = {}" by (auto simp: free_set_def)
  obtain a q where a: "palloc p = (a, q)" by fastforce
  have z: "a = 0 \<longleftrightarrow> free_set p = {}" using pages.alloc_zero_iff [OF ready] a by (simp add: free_frames_def)
  show ?thesis
  proof (cases "a = 0")
    case True
    then show ?thesis using Inr a z none by (simp add: test_ppm_func_def test_before_init for_u64_id)
  next
    case False
    then show ?thesis
      using Inr a z none palloc_then_pfree [OF ready a] by (simp add: test_ppm_func_def test_before_init for_u64_id)
  qed
qed

section \<open>The tables of the processor\<close>

definition gate_ok :: "idt_entry \<Rightarrow> u64 \<Rightarrow> bool" where
  "gate_ok e h \<longleftrightarrow> gate_target e = h \<and> selector e = KERNEL_CS \<and> type_attr e = 0x8E \<and> ist e = 0"

lemma gate_at:
  assumes "cpu_ok c" and "n < 256"
  shows "n = unat v \<Longrightarrow> gate_ok (idt (idt_set_gate v h c) ! n) h" "n \<noteq> unat v \<Longrightarrow> idt (idt_set_gate v h c) ! n = idt c ! n"
  using gate_target_set [OF cpu_ok_vector [OF assms(1)]] idt_set_gate_entry [OF cpu_ok_vector [OF assms(1)]]
  by (simp_all add: gate_ok_def idt_set_gate_frame)

text \<open>Of the state, these operations change the ports, registers of the APIC, a register or the clock only.\<close>

lemmas device_defs = outb_def wrmsr_value apic_write_reg_def cli_def sti_def load_idt_def timer_reset_def

lemma device_idt [simp]:
  "idt (outb b p c) = idt c" "idt (wrmsr r v c) = idt c" "idt (apic_write_reg a r x c) = idt c" "idt (cli c) = idt c" "idt (sti c) = idt c"
  "idt (load_idt l d c) = idt c" "idt (timer_reset c) = idt c" "idt (pic_enable irq c) = idt c" "idt (pic_init b0 b1 c) = idt c"
  "idt (pit_count irq n c) = idt c" "idt (pic_disable_total c) = idt c" "idt (apic_start c) = idt c" "idt (init_gdt im c) = idt c"
  "idt (init_syscall_msrs im c) = idt c"
  by (simp_all add: device_defs pic_enable_def pic_enable_low_def pic_init_def pit_count_def pic_disable_total_def apic_start_def init_gdt_def
      set_tss_descriptor_def init_tss_def load_gdt_def load_tss_def init_syscall_msrs_def Let_def)

lemma device_gdt [simp]:
  "gdt (outb b p c) = gdt c" "gdt (wrmsr r v c) = gdt c" "gdt (apic_write_reg a r x c) = gdt c" "gdt (cli c) = gdt c" "gdt (sti c) = gdt c"
  "gdt (load_idt l d c) = gdt c" "gdt (timer_reset c) = gdt c" "gdt (pic_enable irq c) = gdt c" "gdt (pic_init b0 b1 c) = gdt c"
  "gdt (pit_count irq n c) = gdt c" "gdt (pic_disable_total c) = gdt c" "gdt (apic_start c) = gdt c" "gdt (idt_set_gate vec h c) = gdt c"
  "gdt (init_syscall_msrs im c) = gdt c" "gdt (apic_init im c) = gdt c" "gdt (set_fault_gates im c) = gdt c" "gdt (init_interrupts im c) = gdt c"
  by (simp_all add: device_defs pic_enable_def pic_enable_low_def pic_init_def pit_count_def pic_disable_total_def apic_start_def
      idt_set_gate_def init_syscall_msrs_def apic_init_def local_apic_init_def local_apic_init_msr_def set_fault_gates_def init_interrupts_def Let_def)

lemmas init_defs = device_defs pic_enable_def pic_enable_low_def pic_init_def pit_count_def pic_disable_total_def apic_start_def
  idt_set_gate_def init_syscall_msrs_def apic_init_def local_apic_init_def local_apic_init_msr_def set_fault_gates_def init_interrupts_def Let_def

lemma init_interrupts_fields [simp]:
  "gdtr (init_interrupts im c) = gdtr c" "idtr (init_interrupts im c) = (4095, idt_address im)"
  "cpuid_leaf (init_interrupts im c) = cpuid_leaf c" "task_register (init_interrupts im c) = task_register c"
  by (simp_all add: init_defs)

lemma set_fault_gates_fields [simp]:
  "gdtr (set_fault_gates im c) = gdtr c" "cpuid_leaf (set_fault_gates im c) = cpuid_leaf c" "msr (set_fault_gates im c) = msr c"
  "task_register (set_fault_gates im c) = task_register c"
  by (simp_all add: set_fault_gates_def idt_set_gate_def Let_def)

lemma init_gdt_fields [simp]:
  "cpuid_leaf (init_gdt im c) = cpuid_leaf c" "msr (init_gdt im c) = msr c"
  by (simp_all add: init_gdt_def set_tss_descriptor_def init_tss_def load_gdt_def load_tss_def Let_def)

lemma flag_fields [simp]:
  "gdtr (cli c) = gdtr c" "gdtr (sti c) = gdtr c" "idtr (sti c) = idtr c" "cpuid_leaf (cli c) = cpuid_leaf c" "cpuid_leaf (sti c) = cpuid_leaf c"
  "msr (cli c) = msr c" "msr (sti c) = msr c" "interrupt_flag (sti c)" "task_register (sti c) = task_register c"
  by (simp_all add: cli_def sti_def)

lemma init_syscall_msrs_fields [simp]:
  "gdtr (init_syscall_msrs im c) = gdtr c" "idtr (init_syscall_msrs im c) = idtr c" "task_register (init_syscall_msrs im c) = task_register c"
  "interrupt_flag (init_syscall_msrs im c) = interrupt_flag c" "msr (init_syscall_msrs im c) 0xC0000082 = syscall_entry im"
  "msr (init_syscall_msrs im c) 0xC0000080 = msr c 0xC0000080 OR 1"
  by (simp_all add: init_syscall_msrs_def wrmsr_value rdmsr_value Let_def)

text \<open>The handler of a vector: five faults, and with a local APIC the timer and the spurious interrupt.\<close>

definition vector_handler :: "image \<Rightarrow> bool \<Rightarrow> nat \<Rightarrow> u64 option" where
  "vector_handler im apic n =
     (if n = 0 then Some (divide_handler im) else if n = 6 then Some (invalid_opcode_handler im)
      else if n = 13 then Some (general_protection_handler im) else if n = 14 then Some (page_fault_handler im)
      else if n = 8 then Some (double_fault_handler im)
      else if apic \<and> n = 32 then Some (tick_interrupt im) else if apic \<and> n = 255 then Some (spurious_int_handler im) else None)"

definition has_apic :: "cpu \<Rightarrow> bool" where
  "has_apic c \<longleftrightarrow> bit (edx (cpuid_leaf c 1 0)) 9 \<and> \<not> bit (msr c IA32_APIC_BASE) 10"

lemma bit_test: "(x AND push_bit n 1 \<noteq> 0) = bit x n" "(drop_bit n x AND 1 \<noteq> 0) = bit x n" for x :: "'a::len word"
proof -
  show "(drop_bit n x AND 1 \<noteq> 0) = bit x n" by (simp add: and_one_eq odd_iff_mod_2_eq_one [symmetric] bit_iff_odd_drop_bit)
  have "bit x n" if "bit (x AND push_bit n 1) k" for k using that by (auto simp: bit_simps)
  moreover have "bit (x AND push_bit n 1) n" if "bit x n" using that bit_imp_le_length [OF that] by (simp add: bit_simps)
  ultimately show "(x AND push_bit n 1 \<noteq> 0) = bit x n" by (metis bit_0_eq bot_apply bot_bool_def bit_eqI bit_0)
qed

lemma cpu_ok_apic_addr [simp]: "cpu_ok (c\<lparr>apic_addr := a\<rparr>) = cpu_ok c"
  by (simp add: cpu_ok_def)

lemma apic_init_gates:
  assumes "cpu_ok c" and "n < 256" and "\<not> bit (msr c IA32_APIC_BASE) 10"
  shows "n = 32 \<Longrightarrow> gate_ok (idt (apic_init im c) ! n) (tick_interrupt im)"
    "n = 255 \<Longrightarrow> gate_ok (idt (apic_init im c) ! n) (spurious_int_handler im)"
    "n \<noteq> 32 \<Longrightarrow> n \<noteq> 255 \<Longrightarrow> idt (apic_init im c) ! n = idt c ! n"
  using assms unfolding apic_init_def apic_discover_def rdmsr_value bit_test Let_def local_apic_init_def
  by (simp_all add: gate_at)

lemma apic_init_x2: "bit (msr c IA32_APIC_BASE) 10 \<Longrightarrow> idt (apic_init im c) = idt c"
  unfolding apic_init_def apic_discover_def rdmsr_value bit_test Let_def by (simp add: local_apic_init_msr_def)

lemma pic_cpu_fields [simp]:
  "msr (pic_enable irq c) = msr c" "msr (pic_init b0 b1 c) = msr c" "msr (pit_count irq n c) = msr c"
  "cpu_ok (pic_enable irq c) = cpu_ok c" "cpu_ok (pic_init b0 b1 c) = cpu_ok c" "cpu_ok (pit_count irq n c) = cpu_ok c"
  by (simp_all add: cpu_ok_def pic_enable_def pic_enable_low_def pic_init_def pit_count_def outb_def cli_def Let_def)

lemma init_interrupts_gates:
  assumes "cpu_ok c" and "n < 256"
  shows "has_apic c \<Longrightarrow> n = 32 \<Longrightarrow> gate_ok (idt (init_interrupts im c) ! n) (tick_interrupt im)"
    "has_apic c \<Longrightarrow> n = 255 \<Longrightarrow> gate_ok (idt (init_interrupts im c) ! n) (spurious_int_handler im)"
    "\<not> has_apic c \<or> n \<noteq> 32 \<and> n \<noteq> 255 \<Longrightarrow> idt (init_interrupts im c) ! n = idt c ! n"
proof -
  define d where "d = pit_count 0 100 (pic_enable 1 (pic_init 0x20 0x28 c))"
  have d: "cpu_ok d" "msr d = msr c" "idt d = idt c" using assms(1) by (simp_all add: d_def)
  have i: "idt (init_interrupts im c) = (if bit (edx (cpuid_leaf c 1 0)) 9 then idt (apic_init im d) else idt c)"
    unfolding init_interrupts_def Let_def bit_test d_def [symmetric] using d(3) by simp
  note g = apic_init_gates [OF d(1) assms(2), unfolded d(2,3), where im = im] and x = apic_init_x2 [of d im, unfolded d(2,3)]
  show "has_apic c \<Longrightarrow> n = 32 \<Longrightarrow> gate_ok (idt (init_interrupts im c) ! n) (tick_interrupt im)"
    unfolding i has_apic_def using g(1) by simp
  show "has_apic c \<Longrightarrow> n = 255 \<Longrightarrow> gate_ok (idt (init_interrupts im c) ! n) (spurious_int_handler im)"
    unfolding i has_apic_def using g(2) by simp
  show "\<not> has_apic c \<or> n \<noteq> 32 \<and> n \<noteq> 255 \<Longrightarrow> idt (init_interrupts im c) ! n = idt c ! n"
    unfolding i has_apic_def using g(3) x by (cases "bit (msr c IA32_APIC_BASE) 10") auto
qed

lemma fault_gates:
  assumes "cpu_ok c" and "n < 256"
  shows "case vector_handler im False n of Some h \<Rightarrow> gate_ok (idt (set_fault_gates im c) ! n) h | None \<Rightarrow> idt (set_fault_gates im c) ! n = idt c ! n"
  using assms by (simp add: vector_handler_def set_fault_gates_def Let_def gate_at)

lemma cpu_ok_init [simp]: "cpu_ok (set_fault_gates im c) = cpu_ok c" "cpu_ok (init_interrupts im c) = cpu_ok c" "cpu_ok (init_syscall_msrs im c) = cpu_ok c"
proof -
  show f: "cpu_ok (set_fault_gates im c) = cpu_ok c" by (simp add: set_fault_gates_def Let_def)
  show "cpu_ok (init_syscall_msrs im c) = cpu_ok c" by (simp add: init_syscall_msrs_def Let_def)
  have "length (idt (init_interrupts im c)) = length (idt c)"
    by (simp add: init_interrupts_def apic_init_def local_apic_init_def local_apic_init_msr_def Let_def idt_set_gate_frame)
  then show "cpu_ok (init_interrupts im c) = cpu_ok c" by (simp add: cpu_ok_def)
qed

text \<open>
  C38: after \<open>init_cpu\<close>, whatever the tables held before, the processor has loaded the kernel's segment
  and interrupt tables and takes interrupts; the vectors of the five faults, and with a local APIC the
  timer and the spurious interrupt, lead to their handlers through the kernel's code segment, every
  other vector is as before; that segment is 64-bit code of privilege 0 over all memory, the data
  segment is writable; and system calls are switched on and enter at \<open>syscall_entry\<close> when the processor
  has the registers for them.
\<close>
theorem init_cpu_tables:
  assumes "cpu_ok c" and "init_cpu im c s = (t, s')"
  shows "cpu_ok t \<and> gdtr t = (55, gdt_address im) \<and> idtr t = (4095, idt_address im) \<and> interrupt_flag t \<and>
    (\<forall>n<256. case vector_handler im (has_apic c) n of Some h \<Rightarrow> gate_ok (idt t ! n) h | None \<Rightarrow> idt t ! n = idt c ! n) \<and>
    (seg_base (gdt t ! 1), seg_limit (gdt t ! 1), seg_attributes (gdt t ! 1)) = (0, 0xFFFFF, 0xA09A) \<and>
    (seg_base (gdt t ! 2), seg_limit (gdt t ! 2), seg_attributes (gdt t ! 2)) = (0, 0xFFFFF, 0xC092) \<and>
    (has_cpu_msr c \<longrightarrow> bit (msr t 0xC0000080) 0 \<and> msr t 0xC0000082 = syscall_entry im)"
proof -
  define d where "d = set_fault_gates im (init_gdt im (cli c))"
  define e where "e = sti (init_interrupts im d)"
  have t: "t = (if has_cpu_msr c then init_syscall_msrs im e else e)"
    using assms(2) by (auto simp: init_cpu_def init_syscalls_def Let_def d_def e_def has_cpu_msr_def)
  have ok: "cpu_ok d" "cpu_ok e" using assms(1) by (simp_all add: d_def e_def)
  have ap: "has_apic d = has_apic c" by (simp add: has_apic_def d_def)
  have g: "gdt t = gdt (init_gdt im (cli c))" by (simp add: t e_def d_def)
  note tab = init_gdt_table [of "cli c" im, unfolded cpu_ok_simps, OF assms(1)]
  have idt: "idt t = idt (init_interrupts im d)" "idt d = idt (set_fault_gates im (init_gdt im (cli c)))" by (simp_all add: t e_def d_def)
  have "case vector_handler im (has_apic c) n of Some h \<Rightarrow> gate_ok (idt t ! n) h | None \<Rightarrow> idt t ! n = idt c ! n" if n: "n < 256" for n
  proof -
    note i = init_interrupts_gates [OF ok(1) n, where im = im, unfolded ap]
    have f: "case vector_handler im False n of Some h \<Rightarrow> gate_ok (idt d ! n) h | None \<Rightarrow> idt d ! n = idt c ! n"
      using fault_gates [OF _ n, of "init_gdt im (cli c)" im] assms(1) unfolding idt(2) device_idt by simp
    show ?thesis
    proof (cases "has_apic c \<and> (n = 32 \<or> n = 255)")
      case True
      then show ?thesis unfolding idt(1) using i(1,2) by (auto simp: vector_handler_def)
    next
      case False
      then have "vector_handler im (has_apic c) n = vector_handler im False n" by (auto simp: vector_handler_def)
      moreover have "idt (init_interrupts im d) ! n = idt d ! n" using i(3) False by blast
      ultimately show ?thesis unfolding idt(1) using f by (simp split: option.splits)
    qed
  qed
  moreover have "GDT_CODE_PL0 AND 0xF0FF = 0xA09A" "GDT_DATA_PL0 AND 0xF0FF = 0xC092" by (simp_all add: seg_flags_def)
  moreover have "take_bit 20 (0xFFFFF :: u32) = 0xFFFFF" by simp
  ultimately show ?thesis
    using ok(2) by (simp add: g tab tab(2) [simplified] create_descriptor_base create_descriptor_limit create_descriptor_attributes)
      (auto simp: t e_def d_def tab bit_simps)
qed

definition demo_image :: image where
  "demo_image = \<lparr>gdt_address = 0x1000, idt_address = 0x2000, divide_handler = 0x3000, invalid_opcode_handler = 0x3010,
     general_protection_handler = 0x3020, page_fault_handler = 0x3030, double_fault_handler = 0x3040,
     spurious_int_handler = 0x3050, tick_interrupt = 0x3060, syscall_entry = 0x3070\<rparr>"

theorem init_cpu_tables_witness:
  "gate_ok (idt (fst (init_cpu demo_image demo_cpu (syscalls_boot no_handler))) ! 32) 0x3060"
proof -
  obtain t s' where r: "init_cpu demo_image demo_cpu (syscalls_boot no_handler) = (t, s')" by fastforce
  have "cpu_ok demo_cpu" by (simp add: cpu_ok_def demo_cpu_def)
  note th = init_cpu_tables [OF this r]
  have "vector_handler demo_image (has_apic demo_cpu) 32 = Some 0x3060"
    by (simp add: vector_handler_def has_apic_def demo_cpu_def demo_image_def)
  moreover have "case vector_handler demo_image (has_apic demo_cpu) 32 of Some h \<Rightarrow> gate_ok (idt t ! 32) h | None \<Rightarrow> idt t ! 32 = idt demo_cpu ! 32"
    using th by (elim conjE allE [of _ 32]) simp
  ultimately show ?thesis by (simp add: r)
qed

section \<open>Boot information, waiting and panics\<close>

lemma boot_problem_None:
  "boot_problem boot_addr boot = None \<longleftrightarrow>
     boot_addr \<noteq> 0 \<and> magic boot = BOOTINFOMAGIC \<and> framebuffer_base boot \<noteq> 0 \<and> width boot \<noteq> 0 \<and> height boot \<noteq> 0 \<and>
     framebuffer_pixel_format boot \<le> 1 \<and> initramfs_address boot \<noteq> 0 \<and> initramfs_size boot \<noteq> 0"
  by (auto simp: boot_problem_def not_less)

text \<open>The difference of two times less than \<open>2 ^ 31\<close> milliseconds apart survives the cut to an \<open>int\<close>.\<close>

lemma abs_elapsed:
  assumes "unat d < 2147483648"
  shows "scast (abs_int (ucast (- d :: u64))) = d"
proof -
  define k where "k = uint d"
  have d: "d = word_of_int k" by (simp add: k_def)
  have "k = int (unat d)" unfolding k_def by simp
  then have k: "0 \<le> k" "k < 2147483648" using assms by linarith+
  have cut: "ucast (- d) = (word_of_int (- k) :: u32)"
  proof -
    have m: "- d = word_of_int (- k)" by (simp add: d)
    have "ucast (- d) = (word_of_int (uint (- d)) :: u32)" by (rule ucast_eq)
    also have "uint (- d) = take_bit 64 (- k)" unfolding m uint_word_of_int_eq by simp
    also have "(word_of_int (take_bit 64 (- k)) :: u32) = word_of_int (- k)"
      unfolding word_of_int_eq_iff take_bit_take_bit by simp
    finally show ?thesis .
  qed
  have s: "sint (word_of_int j :: u32) = j" if "- 2147483648 \<le> j" "j < 2147483648" for j
    using that by (simp add: signed_of_int signed_take_bit_int_eq_self)
  have "abs_int (word_of_int (- k)) = word_of_int k"
  proof (cases "k = 0")
    case False
    then show ?thesis using s [of "- k"] k by (simp add: abs_int_def word_sless_alt)
  qed (simp add: abs_int_def)
  moreover have "scast (word_of_int k :: u32) = (word_of_int k :: u64)" using s [of k] k by (simp add: scast_eq)
  ultimately show ?thesis unfolding cut by (simp add: d)
qed

text \<open>
  \<open>kernel_sleep_ms\<close> wakes up at the first reading more than \<open>time_ms\<close> after the start.
\<close>

lemma sleep_loop_wakes:
  assumes "time_ms < milliseconds n - start" and "unat (milliseconds n - start) < 2147483648"
  shows "i \<le> n \<Longrightarrow> \<forall>j. i \<le> j \<and> j < n \<longrightarrow> milliseconds j - start \<le> time_ms \<and> unat (milliseconds j - start) < 2147483648 \<Longrightarrow>
    sleep_loop milliseconds start time_ms i = Some n"
proof (induction "n - i" arbitrary: i)
  case 0
  then have "i = n" by simp
  moreover have "start - milliseconds n = - (milliseconds n - start)" by simp
  ultimately show ?case using assms abs_elapsed [OF assms(2)] by (subst sleep_loop.simps) (auto dest: leD)
next
  case (Suc k)
  have "milliseconds i - start \<le> time_ms" "unat (milliseconds i - start) < 2147483648" using Suc(2,4) by auto
  moreover have "start - milliseconds i = - (milliseconds i - start)" by simp
  ultimately have "scast (abs_int (ucast (start - milliseconds i))) \<le> time_ms" using abs_elapsed by metis
  moreover have "sleep_loop milliseconds start time_ms (i + 1) = Some n" by (rule Suc(1)) (use Suc(2-4) in auto)
  ultimately show ?case by (subst sleep_loop.simps) simp
qed

lemma kernel_sleep_ms_wakes:
  assumes "0 < n" and "time_ms < milliseconds n - milliseconds 0" and "unat (milliseconds n - milliseconds 0) < 2147483648"
    and "\<forall>j. 0 < j \<and> j < n \<longrightarrow> milliseconds j - milliseconds 0 \<le> time_ms \<and> unat (milliseconds j - milliseconds 0) < 2147483648"
  shows "kernel_sleep_ms milliseconds time_ms = Some n"
  unfolding kernel_sleep_ms_def by (rule sleep_loop_wakes) (use assms in \<open>auto simp: Suc_le_eq\<close>)

text \<open>\<open>kernel_main\<close> waits for the count 200 exactly and hangs when it is not read.\<close>

lemma wait_ticks_hangs:
  assumes "\<forall>i. ticks i \<noteq> 200" shows "wait_ticks ticks i = None"
proof -
  have "ticks k = 200" if "wait_ticks ticks i = Some k" for k
    using that by (rule wait_ticks.raw_induct [rotated]) (auto split: if_splits)
  then show ?thesis using assms by (cases "wait_ticks ticks i") auto
qed

text \<open>The corners of the rectangle of \<open>panic_screen\<close> are in the wrong order: nothing is drawn.\<close>

lemma panic_screen_blank:
  assumes "framebuffer_pb s = Some fb" and "200 \<le> unat (fb_width fb)" "unat (fb_width fb) < 4294967296"
  shows "panic_screen s = s"
proof -
  define w where "w = fb_width fb div 2"
  have w: "100 \<le> unat w" "unat w < 2147483648" using assms(2,3) by (simp_all add: w_def unat_div_u64)
  have "unat (ucast (w + 100) :: u32) = unat w + 100" "unat (ucast (w - 100) :: u32) = unat w - 100"
    using w by (simp_all add: unsigned_ucast_eq take_bit_nat_eq_self unat_sub_u64)
  then show ?thesis using assms(1) by (simp add: panic_screen_def fill_rect_def for_u32_def w_def [symmetric])
qed

end
