(* ===== verification/Boot_Map.thy ===== *)
theory Boot_Map
  imports Vmm_Init
begin

unbundle bit_operations_syntax

text \<open>
  The page tables of the boot loader, \<open>bootloader/uefi.c\<close>: the identity map of the first 512 GiB with
  pages of 2 MiB that \<open>efi_main\<close> builds, and \<open>map_handoff_page\<close> and \<open>map_handoff_range\<close>, which add pages
  of 4 KiB above it. The state is the memory as 64-bit words and the number of calls of the firmware's
  \<open>AllocatePages\<close>; what call \<open>n\<close> answers, a status and an address, is the argument \<open>ap\<close>.

  The lemmas show that with these tables loaded every address below 512 GiB and every address of the
  ranges handed over is translated to itself.
\<close>

section \<open>The code\<close>

type_synonym EFI_STATUS = u64

abbreviation (input) EFI_SUCCESS :: EFI_STATUS where "EFI_SUCCESS \<equiv> 0"

abbreviation (input) EFI_INVALID_PARAMETER :: EFI_STATUS where "EFI_INVALID_PARAMETER \<equiv> 0x8000000000000002"

abbreviation (input) PTE_PS :: u64 where "PTE_PS \<equiv> 0x80"

abbreviation (input) HANDOFF_IDENTITY_SIZE :: u64 where "HANDOFF_IDENTITY_SIZE \<equiv> 0x8000000000"

definition EFI_ERROR :: "EFI_STATUS \<Rightarrow> bool" where
  "EFI_ERROR status = (status AND 0x8000000000000000 \<noteq> 0)"

record efi =
  efi_mem :: "u64 \<Rightarrow> u64"
  efi_calls :: nat

text \<open>
  The services of the firmware: what call \<open>n\<close> of \<open>AllocatePages\<close> answers for one page, and the memory
  after \<open>SetMem(addr, len, value)\<close>.
\<close>

record page_service =
  allocate_page :: "nat \<Rightarrow> EFI_STATUS \<times> u64"
  set_mem :: "u64 \<Rightarrow> u64 \<Rightarrow> u8 \<Rightarrow> (u64 \<Rightarrow> u64) \<Rightarrow> (u64 \<Rightarrow> u64)"

definition AllocatePages :: "page_service \<Rightarrow> efi \<Rightarrow> EFI_STATUS \<times> u64 \<times> efi" where
  "AllocatePages ap s = (let (status, addr) = allocate_page ap (efi_calls s) in (status, addr, s\<lparr>efi_calls := efi_calls s + 1\<rparr>))"

definition SetMem_page :: "page_service \<Rightarrow> u64 \<Rightarrow> efi \<Rightarrow> efi" where
  "SetMem_page ap addr s = s\<lparr>efi_mem := set_mem ap addr PAGE_SIZE 0 (efi_mem s)\<rparr>"

definition put_entry :: "u64 \<Rightarrow> u64 \<Rightarrow> u64 \<Rightarrow> efi \<Rightarrow> efi" where
  "put_entry table i e s = s\<lparr>efi_mem := (efi_mem s)(table + 8 * i := e)\<rparr>"

definition allocate_table :: "page_service \<Rightarrow> efi \<Rightarrow> EFI_STATUS \<times> u64 \<times> efi" where
  "allocate_table ap s =
     (let (status, addr, s) = AllocatePages ap s
      in if EFI_ERROR status then (status, addr, s) else (EFI_SUCCESS, addr, SetMem_page ap addr s))"

text \<open>One of the three tests of \<open>map_handoff_page\<close> for a missing table.\<close>

definition handoff_table :: "page_service \<Rightarrow> u64 \<Rightarrow> u64 \<Rightarrow> efi \<Rightarrow> EFI_STATUS \<times> efi" where
  "handoff_table ap table i s =
     (if efi_mem s (table + 8 * i) AND PTE_PRESENT = 0 then
        let (status, table_addr, s) = allocate_table ap s
        in if EFI_ERROR status then (status, s)
           else (EFI_SUCCESS, put_entry table i ((table_addr OR PTE_PRESENT) OR PTE_RW) s)
      else (EFI_SUCCESS, s))"

definition map_handoff_page :: "page_service \<Rightarrow> u64 \<Rightarrow> u64 \<Rightarrow> efi \<Rightarrow> EFI_STATUS \<times> efi" where
  "map_handoff_page ap pml4 physical s =
     (let pml4_i = drop_bit 39 physical AND 0x1FF;
          pdpt_i = drop_bit 30 physical AND 0x1FF;
          pd_i = drop_bit 21 physical AND 0x1FF;
          pt_i = drop_bit 12 physical AND 0x1FF;
          (status, s) = handoff_table ap pml4 pml4_i s
      in if EFI_ERROR status then (status, s)
         else
           let pdpt = efi_mem s (pml4 + 8 * pml4_i) AND PTE_ADDR_MASK;
               (status, s) = handoff_table ap pdpt pdpt_i s
           in if EFI_ERROR status then (status, s)
              else
                let pd = efi_mem s (pdpt + 8 * pdpt_i) AND PTE_ADDR_MASK;
                    (status, s) = handoff_table ap pd pd_i s
                in if EFI_ERROR status then (status, s)
                   else
                     let pt = efi_mem s (pd + 8 * pd_i) AND PTE_ADDR_MASK
                     in (EFI_SUCCESS, put_entry pt pt_i (((physical AND PTE_ADDR_MASK) OR PTE_PRESENT) OR PTE_RW) s))"

text \<open>The loop of \<open>map_handoff_range\<close>; near the end of the address space its counter wraps and it may not end.\<close>

partial_function (option) handoff_loop :: "page_service \<Rightarrow> u64 \<Rightarrow> u64 \<Rightarrow> u64 \<Rightarrow> efi \<Rightarrow> (EFI_STATUS \<times> efi) option" where
  "handoff_loop ap pml4 stop page s =
     (if page < stop then
        if page < HANDOFF_IDENTITY_SIZE then handoff_loop ap pml4 stop (page + PAGE_SIZE) s
        else
          (case map_handoff_page ap pml4 page s of
             (status, s1) \<Rightarrow>
               if EFI_ERROR status then Some (status, s1)
               else handoff_loop ap pml4 stop (page + PAGE_SIZE) s1)
      else Some (EFI_SUCCESS, s))"

definition map_handoff_range :: "page_service \<Rightarrow> u64 \<Rightarrow> u64 \<Rightarrow> u64 \<Rightarrow> efi \<Rightarrow> (EFI_STATUS \<times> efi) option" where
  "map_handoff_range ap pml4 physical sz s =
     (let start = physical AND NOT (PAGE_SIZE - 1);
          stop = physical + sz
      in if stop < physical then Some (EFI_INVALID_PARAMETER, s) else handoff_loop ap pml4 stop start s)"

text \<open>\<open>efi_main\<close>: the allocation of the tables; the first error ends the boot.\<close>

primrec allocate_pds :: "page_service \<Rightarrow> nat \<Rightarrow> u64 list \<Rightarrow> efi \<Rightarrow> EFI_STATUS \<times> u64 list \<times> efi" where
  "allocate_pds ap 0 pds s = (EFI_SUCCESS, pds, s)"
| "allocate_pds ap (Suc n) pds s =
     (let (status, addr, s) = AllocatePages ap s
      in if EFI_ERROR status then (status, pds, s) else allocate_pds ap n (pds @ [addr]) s)"

definition fill_pd :: "u64 \<Rightarrow> nat \<Rightarrow> efi \<Rightarrow> efi" where
  "fill_pd pd j s = fold (\<lambda>i. put_entry pd (word_of_nat i)
     ((((word_of_nat j * 0x40000000 + word_of_nat i * 0x200000) OR PTE_PRESENT) OR PTE_RW) OR PTE_PS)) [0..<512] s"

definition fill_tables :: "page_service \<Rightarrow> u64 \<Rightarrow> u64 \<Rightarrow> u64 list \<Rightarrow> efi \<Rightarrow> efi" where
  "fill_tables ap pml4_addr pdpt_addr pd_addr s =
     (let s = SetMem_page ap pml4_addr s;
          s = SetMem_page ap pdpt_addr s;
          s = fold (\<lambda>i. SetMem_page ap (pd_addr ! i)) [0..<512] s;
          s = put_entry pml4_addr 0 ((pdpt_addr OR PTE_PRESENT) OR PTE_RW) s
      in fold (\<lambda>j s. fill_pd (pd_addr ! j) j
           (put_entry pdpt_addr (word_of_nat j) ((pd_addr ! j OR PTE_PRESENT) OR PTE_RW) s)) [0..<512] s)"

definition identity_tables :: "page_service \<Rightarrow> efi \<Rightarrow> EFI_STATUS \<times> u64 \<times> efi" where
  "identity_tables ap s =
     (let (status, pml4_addr, s) = AllocatePages ap s
      in if EFI_ERROR status then (status, pml4_addr, s)
         else
           let (status, pdpt_addr, s) = AllocatePages ap s
           in if EFI_ERROR status then (status, pml4_addr, s)
              else
                let (status, pd_addr, s) = allocate_pds ap 512 [] s
                in if EFI_ERROR status then (status, pml4_addr, s)
                   else (EFI_SUCCESS, pml4_addr, fill_tables ap pml4_addr pdpt_addr pd_addr s))"

text \<open>The ranges \<open>efi_main\<close> hands over, one after the other: image, stack and framebuffer.\<close>

fun map_handoff_ranges :: "page_service \<Rightarrow> u64 \<Rightarrow> (u64 \<times> u64) list \<Rightarrow> efi \<Rightarrow> (EFI_STATUS \<times> efi) option" where
  "map_handoff_ranges ap pml4 [] s = Some (EFI_SUCCESS, s)"
| "map_handoff_ranges ap pml4 ((physical, sz) # rs) s =
     (case map_handoff_range ap pml4 physical sz s of
        None \<Rightarrow> None
      | Some (status, s1) \<Rightarrow> if EFI_ERROR status then Some (status, s1) else map_handoff_ranges ap pml4 rs s1)"

section \<open>The walk of the processor\<close>

text \<open>A walk that ends at a page directory entry with the bit \<open>PTE_PS\<close>, or at a page table entry.\<close>

definition walk :: "(u64 \<Rightarrow> u64) \<Rightarrow> u64 \<Rightarrow> u64 \<Rightarrow> u64 option" where
  "walk m pml4 v =
     (case table_at m pml4 [pdpt_index v, pml4_index v] of
        None \<Rightarrow> None
      | Some pd \<Rightarrow>
          let e = m (pd + 8 * pd_index v)
          in if e AND PTE_PRESENT = 0 then None
             else if e AND PTE_PS \<noteq> 0 then Some ((e AND 0x000FFFFFFFE00000) OR (v AND 0x1FFFFF))
             else map_option (\<lambda>f. f OR (v AND 0xFFF)) (pte_next (m ((e AND PTE_ADDR_MASK) + 8 * pt_index v))))"

text \<open>The tables of 4 KiB pages alone: entries of large pages read as absent.\<close>

definition small :: "(u64 \<Rightarrow> u64) \<Rightarrow> u64 \<Rightarrow> u64" where
  "small m a = (if bit (m a) 7 then 0 else m a)"

text \<open>
  The pages \<open>AllocatePages\<close> hands out from call \<open>n\<close> on, and what UEFI promises of them: they are whole
  pages of physical memory, each handed out once, and \<open>SetMem\<close> clears them.
\<close>

definition pages_from :: "page_service \<Rightarrow> nat \<Rightarrow> u64 set" where
  "pages_from ap n = (\<lambda>k. snd (allocate_page ap k)) ` {k. n \<le> k \<and> \<not> EFI_ERROR (fst (allocate_page ap k))}"

definition page_laws :: "page_service \<Rightarrow> bool" where
  "page_laws ap \<longleftrightarrow>
     (\<forall>k. \<not> EFI_ERROR (fst (allocate_page ap k)) \<longrightarrow> snd (allocate_page ap k) mod PAGE_SIZE = 0 \<and> snd (allocate_page ap k) < 0x10000000000000) \<and>
     inj_on (\<lambda>k. snd (allocate_page ap k)) {k. \<not> EFI_ERROR (fst (allocate_page ap k))} \<and>
     (\<forall>a m. a mod PAGE_SIZE = 0 \<longrightarrow> set_mem ap a PAGE_SIZE 0 m = zero_range a PAGE_SIZE m)"

lemma SetMem_page_eq:
  "page_laws ap \<Longrightarrow> z mod PAGE_SIZE = 0 \<Longrightarrow> SetMem_page ap z s = s\<lparr>efi_mem := zero_range z PAGE_SIZE (efi_mem s)\<rparr>"
  by (simp add: SetMem_page_def page_laws_def)

section \<open>The tables of small pages\<close>

lemma small_store [simp]: "\<not> bit e 7 \<Longrightarrow> small (m(a := e)) = (small m)(a := e)"
  by (auto simp: small_def fun_eq_iff)

lemma small_store_large [simp]: "bit e 7 \<Longrightarrow> small (m(a := e)) = (small m)(a := 0)"
  by (auto simp: small_def fun_eq_iff)

lemma small_zero_range [simp]: "small (zero_range z n m) = zero_range z n (small m)"
  by (auto simp: small_def zero_range_def fun_eq_iff)

lemma small_entry: "\<not> bit (m a) 7 \<Longrightarrow> small m a = m a"
  by (simp add: small_def)

lemma table_entry:
  assumes "z mod PAGE_SIZE = 0" and "z < 0x10000000000000"
  shows "pte_next ((z OR PTE_PRESENT) OR PTE_RW) = Some z" and "\<not> bit ((z OR PTE_PRESENT) OR PTE_RW) 7"
proof -
  have "\<not> bit z 7" using assms(1) unfolding mod_page_eq by simp
  then show "\<not> bit ((z OR PTE_PRESENT) OR PTE_RW) 7"
    by (simp add: bit_simps)
  have "((z OR PTE_PRESENT) OR PTE_RW) AND PTE_ADDR_MASK = z AND PTE_ADDR_MASK"
    by (simp add: bit.conj_disj_distrib2)
  moreover have "((z OR PTE_PRESENT) OR PTE_RW) AND PTE_PRESENT \<noteq> 0"
    by (simp add: bit.conj_disj_distrib2)
  ultimately show "pte_next ((z OR PTE_PRESENT) OR PTE_RW) = Some z"
    using addr_mask_id [OF assms] by (simp add: pte_next_def)
qed

lemma EFI_ERROR_simps [simp]: "\<not> EFI_ERROR 0" "EFI_ERROR 0x8000000000000002"
  by (simp_all add: EFI_ERROR_def)

section \<open>The pages of the firmware\<close>

lemma pages_from_Suc: "pages_from ap (Suc n) \<subseteq> pages_from ap n"
  by (auto simp: pages_from_def)

lemma fresh_page:
  assumes "page_laws ap" and "\<not> EFI_ERROR (fst (allocate_page ap n))"
  shows "snd (allocate_page ap n) mod PAGE_SIZE = 0" and "snd (allocate_page ap n) < 0x10000000000000"
    and "snd (allocate_page ap n) \<in> pages_from ap n" and "pages_from ap (Suc n) \<subseteq> pages_from ap n - {snd (allocate_page ap n)}"
proof -
  show "snd (allocate_page ap n) mod PAGE_SIZE = 0" "snd (allocate_page ap n) < 0x10000000000000"
    using assms by (auto simp: page_laws_def)
  show "snd (allocate_page ap n) \<in> pages_from ap n" using assms(2) by (auto simp: pages_from_def)
  have "snd (allocate_page ap n) \<noteq> snd (allocate_page ap k)" if "Suc n \<le> k" "\<not> EFI_ERROR (fst (allocate_page ap k))" for k
    using assms that unfolding page_laws_def by (auto dest!: inj_onD [where x = n and y = k])
  then show "pages_from ap (Suc n) \<subseteq> pages_from ap n - {snd (allocate_page ap n)}"
    by (force simp: pages_from_def)
qed

section \<open>The invariant of the handoff tables\<close>

text \<open>Entries of large pages, and the page directories of the identity map that hold them.\<close>

definition ident_entry :: "u64 \<Rightarrow> u64 \<Rightarrow> u64" where
  "ident_entry j i = (((j * 0x40000000 + i * 0x200000) OR PTE_PRESENT) OR PTE_RW) OR PTE_PS"

definition handoff_inv :: "page_service \<Rightarrow> u64 \<Rightarrow> efi \<Rightarrow> bool" where
  "handoff_inv ap r s \<longleftrightarrow>
     pt_tree (small (efi_mem s)) r (pages_from ap (efi_calls s)) \<and>
     (\<forall>p t i. valid_path p \<and> i < 512 \<and> table_at (small (efi_mem s)) r p = Some t \<and> bit (efi_mem s (t + 8 * i)) 7
        \<longrightarrow> (\<exists>j. p = [j, 0])) \<and>
     (\<forall>j < 512. \<exists>pd. table_at (small (efi_mem s)) r [j, 0] = Some pd \<and>
        (\<forall>i < 512. efi_mem s (pd + 8 * i) = ident_entry j i))"

text \<open>What the calls that add tables for addresses above the identity map keep.\<close>

definition handoff_frame :: "page_service \<Rightarrow> u64 \<Rightarrow> efi \<Rightarrow> efi \<Rightarrow> bool" where
  "handoff_frame ap r s s' \<longleftrightarrow> handoff_inv ap r s' \<and>
     (\<forall>q t. length q \<le> 3 \<longrightarrow> valid_idx q \<longrightarrow> table_at (small (efi_mem s)) r q = Some t
        \<longrightarrow> table_at (small (efi_mem s')) r q = Some t) \<and>
     (\<forall>q. length q = 4 \<longrightarrow> valid_idx q \<longrightarrow> table_at (small (efi_mem s')) r q = table_at (small (efi_mem s)) r q)"

lemma handoff_frame_refl: "handoff_inv ap r s \<Longrightarrow> handoff_frame ap r s s"
  by (simp add: handoff_frame_def)

lemma handoff_frame_trans: "handoff_frame ap r s t \<Longrightarrow> handoff_frame ap r t u \<Longrightarrow> handoff_frame ap r s u"
  by (simp add: handoff_frame_def)

lemma handoff_invD:
  assumes "handoff_inv ap r s"
  shows "pt_tree (small (efi_mem s)) r (pages_from ap (efi_calls s))"
    and "valid_path p \<Longrightarrow> i < 512 \<Longrightarrow> table_at (small (efi_mem s)) r p = Some t \<Longrightarrow> \<forall>j. p \<noteq> [j, 0]
      \<Longrightarrow> \<not> bit (efi_mem s (t + 8 * i)) 7"
    and "j < 512 \<Longrightarrow> \<exists>pd. table_at (small (efi_mem s)) r [j, 0] = Some pd \<and>
        (\<forall>i < 512. efi_mem s (pd + 8 * i) = ident_entry j i)"
  using assms unfolding handoff_inv_def by blast+

lemma handoff_inv_calls:
  assumes "handoff_inv ap r s"
  shows "handoff_inv ap r (s\<lparr>efi_calls := Suc (efi_calls s)\<rparr>)"
  using assms pt_tree_same_walks(1) [OF _ refl pages_from_Suc] by (auto simp: handoff_inv_def)

lemma handoff_new_table:
  assumes inv: "handoff_inv ap r s" and fresh: "page_laws ap" and ok: "\<not> EFI_ERROR (fst (allocate_page ap (efi_calls s)))"
    and p: "valid_path p" "length p \<le> 2" "table_at (small (efi_mem s)) r p = Some t" and i: "i < 512"
    and high: "last (i # p) \<noteq> 0" and absent: "efi_mem s (t + 8 * i) AND PTE_PRESENT = 0"
  defines "z \<equiv> snd (allocate_page ap (efi_calls s))"
  defines "s' \<equiv> put_entry t i ((z OR PTE_PRESENT) OR PTE_RW) (SetMem_page ap z (s\<lparr>efi_calls := Suc (efi_calls s)\<rparr>))"
  shows "handoff_frame ap r s s'" and "table_at (small (efi_mem s')) r (i # p) = Some z"
proof -
  note page = fresh_page [OF fresh ok, folded z_def]
  note e = table_entry [OF page(1,2)]
  note tree = handoff_invD(1) [OF inv]
  have np: "\<forall>j. p \<noteq> [j, 0]" using high by auto
  have pn: "pte_next (small (efi_mem s) (t + 8 * i)) = None"
    using absent handoff_invD(2) [OF inv p(1) i p(3) np] by (simp add: small_entry pte_next_def)
  let ?m = "(zero_range z 0x1000 (small (efi_mem s)))(t + 8 * i := (z OR PTE_PRESENT) OR PTE_RW)"
  have m: "small (efi_mem s') = ?m" using e(2) by (simp add: s'_def put_entry_def SetMem_page_eq [OF fresh page(1)])
  have mem: "efi_mem s' = (zero_range z 0x1000 (efi_mem s))(t + 8 * i := (z OR PTE_PRESENT) OR PTE_RW)"
    by (simp add: s'_def put_entry_def SetMem_page_eq [OF fresh page(1)])
  note nt = new_table [OF tree p i pn page(3,1) e(1), folded m]
  show "table_at (small (efi_mem s')) r (i # p) = Some z" by (rule nt(1))
  have old: "table_at (small (efi_mem s)) r (i # p) = None" using p(3) pn by simp
  note t = pt_treeD [OF tree p(1,3)]
  have zt: "z \<noteq> t" using t(2) page(3) by auto
  have pd: "efi_mem s' (f + 8 * k) = efi_mem s (f + 8 * k)"
    if "valid_path q" "table_at (small (efi_mem s)) r q = Some f" "q \<noteq> p" "k < 512" for q f k
  proof -
    note f = pt_treeD [OF tree that(1,2)]
    have "f \<noteq> z" "f \<noteq> t" using f(2) page(3) f(4) [OF p(1)] p(3) that(3) by auto
    then show ?thesis using f(1) t(1) page(1) i that(4) by (simp add: mem entry_address_eq)
  qed
  have "pt_tree (small (efi_mem s')) r (pages_from ap (efi_calls s'))"
    using pt_tree_same_walks(1) [OF nt(4) refl page(4)]
    by (simp add: s'_def put_entry_def SetMem_page_def)
  moreover have "\<exists>j. q = [j, 0]"
    if q: "valid_path q" "k < 512" "table_at (small (efi_mem s')) r q = Some f" "bit (efi_mem s' (f + 8 * k)) 7" for q f k
  proof (cases "q = i # p")
    case True
    then have "f = z" using q(3) nt(1) by simp
    then have "efi_mem s' (f + 8 * k) = 0"
      using q(2) zt t(1) page(1) i by (simp add: mem entry_address_eq)
    with q(4) show ?thesis by simp
  next
    case False
    then have f: "table_at (small (efi_mem s)) r q = Some f"
      using nt(2) [of q] q by (simp add: valid_path_def)
    have base: "bit (efi_mem s (f + 8 * k)) 7 \<Longrightarrow> \<exists>j. q = [j, 0]"
      using handoff_invD(2) [OF inv q(1,2) f] by blast
    show ?thesis
    proof (cases "q = p")
      case True
      then have "f = t" using f p(3) by simp
      then have "efi_mem s' (f + 8 * k) \<in> {(z OR PTE_PRESENT) OR PTE_RW, efi_mem s (f + 8 * k)}"
        using q(2) zt t(1) page(1) by (simp add: mem)
      then show ?thesis using e(2) q(4) base by auto
    next
      case False
      then show ?thesis using pd [OF q(1) f _ q(2)] q(4) base by simp
    qed
  qed
  moreover have "\<exists>f. table_at (small (efi_mem s')) r [j, 0] = Some f \<and> (\<forall>k < 512. efi_mem s' (f + 8 * k) = ident_entry j k)"
    if j: "j < 512" for j
  proof -
    obtain f where f: "table_at (small (efi_mem s)) r [j, 0] = Some f" "\<forall>k < 512. efi_mem s (f + 8 * k) = ident_entry j k"
      using handoff_invD(3) [OF inv j] by blast
    have "[j, 0] \<noteq> i # p" using high by auto
    then have "table_at (small (efi_mem s')) r [j, 0] = Some f" using nt(2) [of "[j, 0]"] f(1) j by simp
    then show ?thesis using pd [OF _ f(1)] f(2) np j by auto
  qed
  ultimately have "handoff_inv ap r s'" unfolding handoff_inv_def by blast
  moreover have "table_at (small (efi_mem s')) r q = Some f"
    if "length q \<le> 3" "valid_idx q" "table_at (small (efi_mem s)) r q = Some f" for q f
  proof -
    have "q \<noteq> i # p" using that old by auto
    then show ?thesis using nt(2) [of q] that by simp
  qed
  moreover have "table_at (small (efi_mem s')) r q = table_at (small (efi_mem s)) r q"
    if "length q = 4" "valid_idx q" for q
  proof -
    have "q \<noteq> i # p" using that p(2) by auto
    then show ?thesis using nt(2) [of q] that by simp
  qed
  ultimately show "handoff_frame ap r s s'" unfolding handoff_frame_def by blast
qed

lemma handoff_table_spec:
  assumes inv: "handoff_inv ap r s" and fresh: "page_laws ap"
    and p: "valid_path p" "length p \<le> 2" "table_at (small (efi_mem s)) r p = Some t" and i: "i < 512"
    and high: "last (i # p) \<noteq> 0"
    and run: "handoff_table ap t i s = (st, s')"
  shows "handoff_frame ap r s s'"
    and "\<not> EFI_ERROR st \<Longrightarrow> table_at (small (efi_mem s')) r (i # p) = Some (efi_mem s' (t + 8 * i) AND PTE_ADDR_MASK)"
proof -
  have "handoff_frame ap r s s' \<and>
    (\<not> EFI_ERROR st \<longrightarrow> table_at (small (efi_mem s')) r (i # p) = Some (efi_mem s' (t + 8 * i) AND PTE_ADDR_MASK))"
  proof (cases "efi_mem s (t + 8 * i) AND PTE_PRESENT = 0")
    case False
    then have run': "st = 0" "s' = s" using run by (simp_all add: handoff_table_def)
    have "\<forall>j. p \<noteq> [j, 0]" using high by auto
    then have "\<not> bit (efi_mem s (t + 8 * i)) 7" by (rule handoff_invD(2) [OF inv p(1) i p(3)])
    then have "table_at (small (efi_mem s)) r (i # p) = Some (efi_mem s (t + 8 * i) AND PTE_ADDR_MASK)"
      using False p(3) by (simp add: small_entry pte_next_def)
    then show ?thesis using handoff_frame_refl [OF inv] by (simp only: run') simp
  next
    case absent: True
    obtain st1 z where ap: "allocate_page ap (efi_calls s) = (st1, z)" by force
    show ?thesis
    proof (cases "EFI_ERROR st1")
      case True
      then have "st = st1" "s' = s\<lparr>efi_calls := Suc (efi_calls s)\<rparr>"
        using run absent ap by (simp_all add: handoff_table_def allocate_table_def AllocatePages_def)
      then show ?thesis
        using handoff_inv_calls [OF inv] True by (simp add: handoff_frame_def del: table_at.simps)
    next
      case False
      then have ok: "\<not> EFI_ERROR (fst (allocate_page ap (efi_calls s)))" using ap by simp
      have s': "s' = put_entry t i ((z OR PTE_PRESENT) OR PTE_RW) (SetMem_page ap z (s\<lparr>efi_calls := Suc (efi_calls s)\<rparr>))"
        using run absent ap False by (simp add: handoff_table_def allocate_table_def AllocatePages_def)
      have z: "snd (allocate_page ap (efi_calls s)) = z" using ap by simp
      note new = handoff_new_table [OF inv fresh ok p i high absent, unfolded z, folded s']
      have "pte_next ((z OR PTE_PRESENT) OR PTE_RW) = Some z"
        using table_entry(1) fresh_page(1,2) [OF fresh ok] z by simp
      then have "efi_mem s' (t + 8 * i) AND PTE_ADDR_MASK = z"
        by (simp add: s' put_entry_def pte_next_def split: if_splits)
      with new show ?thesis by simp
    qed
  qed
  then show "handoff_frame ap r s s'"
    and "\<not> EFI_ERROR st \<Longrightarrow> table_at (small (efi_mem s')) r (i # p) = Some (efi_mem s' (t + 8 * i) AND PTE_ADDR_MASK)"
    by blast+
qed

lemma handoff_leaf:
  assumes inv: "handoff_inv ap r s"
    and p: "valid_path p" "length p = 3" "table_at (small (efi_mem s)) r p = Some t" and i: "i < 512"
    and a: "a mod PAGE_SIZE = 0" "a < 0x10000000000000"
  defines "s' \<equiv> put_entry t i ((a OR PTE_PRESENT) OR PTE_RW) s"
  shows "handoff_inv ap r s'" and "table_at (small (efi_mem s')) r (i # p) = Some a"
    and "length q = 4 \<Longrightarrow> valid_idx q \<Longrightarrow> q \<noteq> i # p \<Longrightarrow> table_at (small (efi_mem s')) r q = table_at (small (efi_mem s)) r q"
proof -
  note e = table_entry [OF a]
  note tree = handoff_invD(1) [OF inv]
  have m: "small (efi_mem s') = (small (efi_mem s))(t + 8 * i := (a OR PTE_PRESENT) OR PTE_RW)"
    and mem: "efi_mem s' = (efi_mem s)(t + 8 * i := (a OR PTE_PRESENT) OR PTE_RW)"
    and calls: "efi_calls s' = efi_calls s"
    using e(2) by (simp_all add: s'_def put_entry_def)
  note leaf = leaf_entry [OF tree p i, where e = "(a OR PTE_PRESENT) OR PTE_RW", folded m]
  show "table_at (small (efi_mem s')) r (i # p) = Some a" using leaf(1) e(1) by simp
  show "length q = 4 \<Longrightarrow> valid_idx q \<Longrightarrow> q \<noteq> i # p \<Longrightarrow> table_at (small (efi_mem s')) r q = table_at (small (efi_mem s)) r q"
    using leaf(2) [of q] by simp
  have walks: "table_at (small (efi_mem s')) r q = table_at (small (efi_mem s)) r q" if "valid_path q" for q
  proof -
    have "q \<noteq> i # p" using that p(2) by (auto simp: valid_path_def)
    then show ?thesis using leaf(2) [of q] that by (simp add: valid_path_def)
  qed
  have entry: "efi_mem s' (f + 8 * k) = efi_mem s (f + 8 * k)"
    if "valid_path q" "table_at (small (efi_mem s)) r q = Some f" "q \<noteq> p" "k < 512" for q f k
  proof -
    have "f \<noteq> t" using pt_treeD(4) [OF tree that(1,2) p(1)] p(3) that(3) by auto
    then show ?thesis
      using pt_treeD(1) [OF tree that(1,2)] pt_treeD(1) [OF tree p(1,3)] i that(4) by (simp add: mem entry_address_eq)
  qed
  have "\<exists>j. q = [j, 0]"
    if q: "valid_path q" "k < 512" "table_at (small (efi_mem s')) r q = Some f" "bit (efi_mem s' (f + 8 * k)) 7" for q f k
  proof -
    have f: "table_at (small (efi_mem s)) r q = Some f" using q(3) walks [OF q(1)] by simp
    have base: "bit (efi_mem s (f + 8 * k)) 7 \<Longrightarrow> \<exists>j. q = [j, 0]"
      using handoff_invD(2) [OF inv q(1,2) f] by blast
    have "efi_mem s' (f + 8 * k) \<in> {(a OR PTE_PRESENT) OR PTE_RW, efi_mem s (f + 8 * k)}"
      by (simp add: mem)
    with e(2) q(4) base show ?thesis by auto
  qed
  moreover have "\<exists>f. table_at (small (efi_mem s')) r [j, 0] = Some f \<and> (\<forall>k < 512. efi_mem s' (f + 8 * k) = ident_entry j k)"
    if j: "j < 512" for j
  proof -
    obtain f where f: "table_at (small (efi_mem s)) r [j, 0] = Some f" "\<forall>k < 512. efi_mem s (f + 8 * k) = ident_entry j k"
      using handoff_invD(3) [OF inv j] by blast
    have "[j, 0] \<noteq> p" using p(2) by auto
    then show ?thesis using walks [of "[j, 0]"] entry [OF _ f(1)] f j by (simp del: table_at.simps)
  qed
  ultimately show "handoff_inv ap r s'"
    unfolding handoff_inv_def calls using leaf(3) by blast
qed


lemma addr_mask_id_page:
  assumes "a mod PAGE_SIZE = 0" and "a < 0x1000000000000"
  shows "a AND PTE_ADDR_MASK = a" and "a < 0x10000000000000"
proof -
  show "a < 0x10000000000000" using assms(2) by (simp add: word_less_nat_alt)
  then show "a AND PTE_ADDR_MASK = a" by (rule addr_mask_id [OF assms(1)])
qed

lemma map_handoff_page_alt:
  "map_handoff_page ap pml4 physical s =
     (case handoff_table ap pml4 (pml4_index physical) s of (status, s1) \<Rightarrow>
        if EFI_ERROR status then (status, s1)
        else let pdpt = efi_mem s1 (pml4 + 8 * pml4_index physical) AND PTE_ADDR_MASK in
          (case handoff_table ap pdpt (pdpt_index physical) s1 of (status, s2) \<Rightarrow>
             if EFI_ERROR status then (status, s2)
             else let pd = efi_mem s2 (pdpt + 8 * pdpt_index physical) AND PTE_ADDR_MASK in
               (case handoff_table ap pd (pd_index physical) s2 of (status, s3) \<Rightarrow>
                  if EFI_ERROR status then (status, s3)
                  else let pt = efi_mem s3 (pd + 8 * pd_index physical) AND PTE_ADDR_MASK in
                    (EFI_SUCCESS, put_entry pt (pt_index physical) (((physical AND PTE_ADDR_MASK) OR PTE_PRESENT) OR PTE_RW) s3))))"
  unfolding map_handoff_page_def pml4_index_def pdpt_index_def pd_index_def pt_index_def Let_def by (rule refl)

lemma handoff_frameD:
  assumes "handoff_frame ap r s s'"
  shows "handoff_inv ap r s'"
    and "length q \<le> 3 \<Longrightarrow> valid_idx q \<Longrightarrow> table_at (small (efi_mem s)) r q = Some t \<Longrightarrow> table_at (small (efi_mem s')) r q = Some t"
    and "length q = 4 \<Longrightarrow> valid_idx q \<Longrightarrow> table_at (small (efi_mem s')) r q = table_at (small (efi_mem s)) r q"
  using assms unfolding handoff_frame_def by blast+

lemma map_handoff_page_spec:
  assumes inv: "handoff_inv ap r s" and fresh: "page_laws ap"
    and v: "v mod PAGE_SIZE = 0" "v < 0x1000000000000" "pml4_index v \<noteq> 0"
    and run: "map_handoff_page ap r v s = (st, s')"
  shows "handoff_inv ap r s'"
    and "\<not> EFI_ERROR st \<Longrightarrow> translate (small (efi_mem s')) r v = Some v"
    and "idx_path w \<noteq> idx_path v \<Longrightarrow> translate (small (efi_mem s')) r w = translate (small (efi_mem s)) r w"
proof -
  let ?a = "pml4_index v" and ?b = "pdpt_index v" and ?c = "pd_index v" and ?d = "pt_index v"
  have lt: "?a < 512" "?b < 512" "?c < 512" "?d < 512" by (simp_all add: index_less)
  obtain st1 s1 where e1: "handoff_table ap r ?a s = (st1, s1)" by force
  define pdpt where "pdpt = efi_mem s1 (r + 8 * ?a) AND PTE_ADDR_MASK"
  obtain st2 s2 where e2: "handoff_table ap pdpt ?b s1 = (st2, s2)" by force
  define pd where "pd = efi_mem s2 (pdpt + 8 * ?b) AND PTE_ADDR_MASK"
  obtain st3 s3 where e3: "handoff_table ap pd ?c s2 = (st3, s3)" by force
  define pt where "pt = efi_mem s3 (pd + 8 * ?c) AND PTE_ADDR_MASK"
  define s4 where "s4 = put_entry pt ?d ((v OR PTE_PRESENT) OR PTE_RW) s3"
  note mask = addr_mask_id_page [OF v(1,2)]
  have outcome: "(st, s') = (if EFI_ERROR st1 then (st1, s1) else if EFI_ERROR st2 then (st2, s2)
      else if EFI_ERROR st3 then (st3, s3) else (0, s4))"
    using run by (simp add: map_handoff_page_alt e1 e2 e3 mask(1) s4_def
      pdpt_def [symmetric] pd_def [symmetric] pt_def [symmetric] Let_def split: if_splits)
  have high: "last [?a] \<noteq> 0" "last [?b, ?a] \<noteq> 0" "last [?c, ?b, ?a] \<noteq> 0" using v(3) by simp_all
  have vp: "valid_path [?a]" "valid_path [?b, ?a]" "valid_path [?c, ?b, ?a]" using lt by simp_all
  note l1 = handoff_table_spec [OF inv fresh valid_path_simps(1) _ table_at.simps(1) lt(1) high(1) e1, folded pdpt_def]
  have f1: "handoff_frame ap r s s1" using l1(1) by simp
  have p1: "table_at (small (efi_mem s1)) r [?a] = Some pdpt" if "\<not> EFI_ERROR st1" using l1(2) that by simp
  note l2 = handoff_table_spec [OF handoff_frameD(1) [OF f1] fresh vp(1) _ p1 lt(2) high(2) e2, folded pd_def]
  have f2: "handoff_frame ap r s s2" if "\<not> EFI_ERROR st1"
    using l2(1) that handoff_frame_trans [OF f1] by simp
  have p2: "table_at (small (efi_mem s2)) r [?b, ?a] = Some pd" if "\<not> EFI_ERROR st1" "\<not> EFI_ERROR st2"
    using l2(2) that by (simp del: table_at.simps)
  note l3 = handoff_table_spec [OF handoff_frameD(1) [OF f2] fresh vp(2) _ p2 lt(3) high(3) e3, folded pt_def]
  have f3: "handoff_frame ap r s s3" if "\<not> EFI_ERROR st1" "\<not> EFI_ERROR st2"
    using l3(1) that handoff_frame_trans [OF f2] by simp
  have p3: "table_at (small (efi_mem s3)) r [?c, ?b, ?a] = Some pt"
    if "\<not> EFI_ERROR st1" "\<not> EFI_ERROR st2" "\<not> EFI_ERROR st3"
    using l3(2) that by (simp del: table_at.simps)
  have len: "length [?c, ?b, ?a] = 3" by simp
  note leaf = handoff_leaf [OF handoff_frameD(1) [OF f3] vp(3) len p3 lt(4) v(1) mask(2), folded s4_def]
  show "handoff_inv ap r s'"
    using outcome f1 f2 f3 leaf(1) by (auto simp: handoff_frameD(1) split: if_splits)
  show "\<not> EFI_ERROR st \<Longrightarrow> translate (small (efi_mem s')) r v = Some v"
    using outcome leaf(2) by (auto simp: translate_def idx_path_def simp del: table_at.simps split: if_splits)
  have same: "translate (small (efi_mem s')) r w = translate (small (efi_mem s)) r w"
    if "handoff_frame ap r s s'"
    using that by (simp add: translate_def handoff_frameD(3))
  assume ne: "idx_path w \<noteq> idx_path v"
  have "translate (small (efi_mem s4)) r w = translate (small (efi_mem s3)) r w"
    if "\<not> EFI_ERROR st1" "\<not> EFI_ERROR st2" "\<not> EFI_ERROR st3"
    using leaf(3) [of "idx_path w"] that ne by (simp add: translate_def idx_path_def [of v])
  then show "translate (small (efi_mem s')) r w = translate (small (efi_mem s)) r w"
    using outcome same f1 f2 f3 by (auto simp: translate_def handoff_frameD(3) split: if_splits)
qed

section \<open>Mapping ranges\<close>

lemma page_of_path:
  assumes "v mod PAGE_SIZE = 0" "w mod PAGE_SIZE = 0" "v < 0x1000000000000" "w < 0x1000000000000"
    and "idx_path v = idx_path w"
  shows "v = w"
proof -
  obtain x y where "unat v = 4096 * x" "unat w = 4096 * y" using assms(1,2) by (metis aligned_unat)
  with assms(3-5) show ?thesis by (simp add: idx_path_eq_iff vpn_def u64_eq_iff_unat word_less_nat_alt)
qed

lemma pml4_index_high:
  assumes "HANDOFF_IDENTITY_SIZE \<le> v" "v < 0x1000000000000"
  shows "pml4_index v \<noteq> 0"
proof -
  have "549755813888 \<le> unat v" "unat v < 281474976710656"
    using assms by (simp_all add: word_less_nat_alt word_le_nat_alt)
  then have "1 \<le> unat v div 549755813888" "unat v div 549755813888 < 512"
    by (simp_all add: less_mult_imp_div_less Suc_le_eq div_greater_zero_iff)
  then have "unat (pml4_index v) \<noteq> 0" by (simp add: index_unat)
  then show ?thesis by auto
qed

lemma next_page:
  assumes "page mod PAGE_SIZE = 0" "page < stop" "stop \<le> 0x1000000000000"
  shows "(page + PAGE_SIZE) mod PAGE_SIZE = 0" and "unat (page + PAGE_SIZE) = unat page + 4096"
    and "w mod PAGE_SIZE = 0 \<Longrightarrow> page \<le> w \<Longrightarrow> w = page \<or> page + PAGE_SIZE \<le> w"
proof -
  obtain x where x: "unat page = 4096 * x" using assms(1) by (rule aligned_unat)
  have b: "unat page < 281474976710656" using assms(2,3) by (simp add: word_less_nat_alt word_le_nat_alt)
  show u: "unat (page + PAGE_SIZE) = unat page + 4096" using b by simp
  then have "unat ((page + PAGE_SIZE) mod PAGE_SIZE) = 0" by (simp add: unat_mod x)
  then show "(page + PAGE_SIZE) mod PAGE_SIZE = 0" by (simp only: u64_eq_iff_unat unat_0)
  assume w: "w mod PAGE_SIZE = 0" "page \<le> w"
  obtain y where y: "unat w = 4096 * y" using w(1) by (rule aligned_unat)
  show "w = page \<or> page + PAGE_SIZE \<le> w"
    using w(2) unfolding word_le_nat_alt u x y by (auto simp: u64_eq_iff_unat x y)
qed

definition same_page :: "(u64 \<Rightarrow> u64) \<Rightarrow> u64 \<Rightarrow> u64 \<Rightarrow> bool" where
  "same_page m r w \<longleftrightarrow> w mod PAGE_SIZE = 0 \<and> w < 0x1000000000000 \<and> translate (small m) r w = Some w"

lemma map_handoff_page_keeps:
  assumes "handoff_inv ap r s" "page_laws ap" "v mod PAGE_SIZE = 0" "v < 0x1000000000000" "pml4_index v \<noteq> 0"
    and run: "map_handoff_page ap r v s = (st, s')" and ok: "\<not> EFI_ERROR st"
    and "same_page (efi_mem s) r w"
  shows "same_page (efi_mem s') r w"
proof (cases "idx_path w = idx_path v")
  case True
  then have "w = v" using page_of_path assms by (simp add: same_page_def)
  then show ?thesis using assms map_handoff_page_spec(2) [OF assms(1-6)] by (simp add: same_page_def)
next
  case False
  then show ?thesis using assms map_handoff_page_spec(3) [OF assms(1-6)] by (simp add: same_page_def)
qed

lemma handoff_loop_spec:
  assumes fresh: "page_laws ap" and stop: "stop \<le> 0x1000000000000"
  shows "handoff_inv ap r s \<Longrightarrow> page mod PAGE_SIZE = 0 \<Longrightarrow>
    \<exists>st s'. handoff_loop ap r stop page s = Some (st, s') \<and>
      (\<not> EFI_ERROR st \<longrightarrow> handoff_inv ap r s' \<and>
        (\<forall>w. same_page (efi_mem s) r w \<longrightarrow> same_page (efi_mem s') r w) \<and>
        (\<forall>w. w mod PAGE_SIZE = 0 \<and> page \<le> w \<and> w < stop \<and> HANDOFF_IDENTITY_SIZE \<le> w \<longrightarrow> same_page (efi_mem s') r w))"
proof (induction "unat stop - unat page" arbitrary: page s rule: less_induct)
  case less
  show ?case
  proof (cases "page < stop")
    case False
    then show ?thesis using less.prems(1) by (subst handoff_loop.simps) auto
  next
    case True
    note np = next_page [OF less.prems(2) True stop]
    have dec: "unat stop - unat (page + PAGE_SIZE) < unat stop - unat page"
      using np(2) True by (simp add: word_less_nat_alt)
    show ?thesis
    proof (cases "page < HANDOFF_IDENTITY_SIZE")
      case low: True
      have "handoff_loop ap r stop page s = handoff_loop ap r stop (page + PAGE_SIZE) s"
        using True low by (subst handoff_loop.simps) simp
      moreover have "page + PAGE_SIZE \<le> w"
        if "w mod PAGE_SIZE = 0" "page \<le> w" "HANDOFF_IDENTITY_SIZE \<le> w" for w
        using np(3) [OF that(1,2)] that(3) low by auto
      ultimately show ?thesis using less.hyps [OF dec less.prems(1) np(1)] by metis
    next
      case high: False
      have v: "page < 0x1000000000000" "pml4_index page \<noteq> 0"
        using high True stop pml4_index_high [of page] by auto
      obtain st1 s1 where e: "map_handoff_page ap r page s = (st1, s1)" by force
      note pg = map_handoff_page_spec [OF less.prems(1) fresh less.prems(2) v e]
      note keep = map_handoff_page_keeps [OF less.prems(1) fresh less.prems(2) v e]
      show ?thesis
      proof (cases "EFI_ERROR st1")
        case True
        then show ?thesis using \<open>page < stop\<close> high e by (subst handoff_loop.simps) auto
      next
        case ok: False
        have here: "same_page (efi_mem s1) r page" using pg(2) ok less.prems(2) v by (simp add: same_page_def)
        have run: "handoff_loop ap r stop page s = handoff_loop ap r stop (page + PAGE_SIZE) s1"
          using \<open>page < stop\<close> high e ok by (subst handoff_loop.simps) simp
        from less.hyps [OF dec pg(1) np(1)] show ?thesis
          unfolding run using keep [OF ok] here np(3) by metis
      qed
    qed
  qed
qed

definition page_base :: "u64 \<Rightarrow> u64" where
  "page_base v = v AND NOT 0xFFF"

lemma unat_page_base: "unat (page_base v) = unat v div 4096 * 4096"
proof -
  have "page_base v = v AND NOT (mask 12)" by (simp add: page_base_def mask_eq_exp_minus_1)
  also have "\<dots> = push_bit 12 (drop_bit 12 v)" by (rule bit_word_eqI) (auto simp: bit_simps)
  also have "\<dots> = (v div 4096) * 4096" by (simp add: push_bit_eq_mult drop_bit_eq_div)
  finally have *: "page_base v = (v div 4096) * 4096" .
  have "unat v div 4096 * 4096 < 18446744073709551616" using u64_less_wrap [of v] div_times_less_eq_dividend [of "unat v" 4096] by linarith
  then show ?thesis unfolding * by (simp add: unat_mult_u64 unat_div)
qed

lemma page_base:
  "page_base v mod PAGE_SIZE = 0" "page_base v \<le> v" "v \<le> w \<Longrightarrow> page_base v \<le> page_base w"
  "idx_path (page_base v) = idx_path v"
proof -
  have "unat (page_base v mod PAGE_SIZE) = 0" by (simp add: unat_mod unat_page_base)
  then show "page_base v mod PAGE_SIZE = 0" by (simp only: u64_eq_iff_unat unat_0)
  show "page_base v \<le> v" by (simp add: word_le_nat_alt unat_page_base)
  show "v \<le> w \<Longrightarrow> page_base v \<le> page_base w" by (simp add: word_le_nat_alt unat_page_base div_le_mono)
  show "idx_path (page_base v) = idx_path v" by (simp add: idx_path_eq_iff vpn_def unat_page_base)
qed

lemma map_handoff_range_spec:
  assumes fresh: "page_laws ap" and range: "unat physical + unat sz \<le> 281474976710656" and inv: "handoff_inv ap r s"
  shows "\<exists>st s'. map_handoff_range ap r physical sz s = Some (st, s') \<and>
      (\<not> EFI_ERROR st \<longrightarrow> handoff_inv ap r s' \<and>
        (\<forall>w. same_page (efi_mem s) r w \<longrightarrow> same_page (efi_mem s') r w) \<and>
        (\<forall>v. physical \<le> v \<and> unat v < unat physical + unat sz \<and> HANDOFF_IDENTITY_SIZE \<le> v
          \<longrightarrow> same_page (efi_mem s') r (page_base v)))"
proof -
  have u: "unat (physical + sz) = unat physical + unat sz" using range by simp
  then have le: "\<not> physical + sz < physical" "physical + sz \<le> 0x1000000000000"
    using range by (simp_all add: word_less_nat_alt word_le_nat_alt)
  have run: "map_handoff_range ap r physical sz s = handoff_loop ap r (physical + sz) (page_base physical) s"
    using le(1) by (simp add: map_handoff_range_def page_base_def)
  have w: "page_base v mod PAGE_SIZE = 0 \<and> page_base physical \<le> page_base v \<and> page_base v < physical + sz \<and> HANDOFF_IDENTITY_SIZE \<le> page_base v"
    if v: "physical \<le> v \<and> unat v < unat physical + unat sz \<and> HANDOFF_IDENTITY_SIZE \<le> v" for v
  proof -
    have "549755813888 \<le> unat v div 4096 * 4096"
      using v div_le_mono [of 549755813888 "unat v" 4096] by (simp add: word_le_nat_alt)
    moreover have "unat (page_base v) < unat (physical + sz)"
      using page_base(2) [of v] v u by (simp add: word_le_nat_alt)
    ultimately show ?thesis using page_base(1,3) v by (simp add: word_le_nat_alt word_less_nat_alt unat_page_base)
  qed
  from handoff_loop_spec [OF fresh le(2) inv page_base(1)] show ?thesis
    unfolding run using w by blast
qed

lemma map_handoff_ranges_spec:
  assumes fresh: "page_laws ap" 
  shows "handoff_inv ap r s \<Longrightarrow> \<forall>(physical, sz) \<in> set rs. unat physical + unat sz \<le> 281474976710656 \<Longrightarrow>
    \<exists>st s'. map_handoff_ranges ap r rs s = Some (st, s') \<and>
      (\<not> EFI_ERROR st \<longrightarrow> handoff_inv ap r s' \<and>
        (\<forall>w. same_page (efi_mem s) r w \<longrightarrow> same_page (efi_mem s') r w) \<and>
        (\<forall>(physical, sz) \<in> set rs. \<forall>v. physical \<le> v \<and> unat v < unat physical + unat sz \<and> HANDOFF_IDENTITY_SIZE \<le> v
          \<longrightarrow> same_page (efi_mem s') r (page_base v)))"
proof (induction rs arbitrary: s)
  case (Cons x rs)
  obtain physical sz where x: "x = (physical, sz)" by force
  have range: "unat physical + unat sz \<le> 281474976710656" and rest: "\<forall>(physical, sz) \<in> set rs. unat physical + unat sz \<le> 281474976710656"
    using Cons.prems(2) x by auto
  obtain st1 s1 where e: "map_handoff_range ap r physical sz s = Some (st1, s1)"
    and post: "\<not> EFI_ERROR st1 \<longrightarrow> handoff_inv ap r s1 \<and>
        (\<forall>w. same_page (efi_mem s) r w \<longrightarrow> same_page (efi_mem s1) r w) \<and>
        (\<forall>v. physical \<le> v \<and> unat v < unat physical + unat sz \<and> HANDOFF_IDENTITY_SIZE \<le> v
          \<longrightarrow> same_page (efi_mem s1) r (page_base v))"
    using map_handoff_range_spec [OF fresh range Cons.prems(1)] by blast
  show ?case
  proof (cases "EFI_ERROR st1")
    case True
    then show ?thesis using e x by simp
  next
    case False
    then have "map_handoff_ranges ap r (x # rs) s = map_handoff_ranges ap r rs s1" using e x by simp
    moreover have "handoff_inv ap r s1" using post False by blast
    ultimately show ?thesis using Cons.IH [OF _ rest, of s1] post False x by (auto 4 4)
  qed
qed simp

section \<open>The identity map of the first 512 GiB\<close>

lemma read_put_entry:
  assumes "f mod PAGE_SIZE = 0" "t mod PAGE_SIZE = 0" "k < 512" "i < 512"
  shows "efi_mem (put_entry t i e s) (f + 8 * k) = (if f = t \<and> k = i then e else efi_mem s (f + 8 * k))"
  using assms by (simp add: put_entry_def entry_address_eq)

lemma read_SetMem_pages:
  assumes "page_laws ap" "f mod PAGE_SIZE = 0" "k < 512"
  shows "\<forall>z \<in> set zs. z mod PAGE_SIZE = 0 \<Longrightarrow>
    efi_mem (fold (SetMem_page ap) zs s) (f + 8 * k) = (if f \<in> set zs then 0 else efi_mem s (f + 8 * k))"
  using assms by (induction zs arbitrary: s) (auto simp: SetMem_page_eq)

lemma word_of_nat_512: "i < 512 \<Longrightarrow> (word_of_nat i :: u64) < 512 \<and> unat (word_of_nat i :: u64) = i"
  by (simp add: word_less_nat_alt unat_of_nat take_bit_nat_eq_self)

lemma unat_eq_word_of_nat: "unat (k :: u64) = i \<Longrightarrow> k = word_of_nat i"
  by auto

lemma read_fill_pd:
  assumes "f mod PAGE_SIZE = 0" "pd mod PAGE_SIZE = 0" "k < 512"
  shows "efi_mem (fill_pd pd j s) (f + 8 * k) = (if f = pd then ident_entry (word_of_nat j) k else efi_mem s (f + 8 * k))"
proof -
  let ?put = "\<lambda>i. put_entry pd (word_of_nat i) (ident_entry (word_of_nat j) (word_of_nat i))"
  have "n \<le> 512 \<Longrightarrow> efi_mem (fold ?put [0..<n] s) (f + 8 * k) =
      (if f = pd \<and> unat k < n then ident_entry (word_of_nat j) k else efi_mem s (f + 8 * k))" for n
  proof (induction n)
    case (Suc n)
    then have n: "(word_of_nat n :: u64) < 512" "unat (word_of_nat n :: u64) = n"
      using word_of_nat_512 [of n] by auto
    have "k = word_of_nat n \<longleftrightarrow> unat k = n" using n(2) by (auto simp: u64_eq_iff_unat)
    then show ?case
      using Suc read_put_entry [OF assms n(1)] by (auto simp: less_Suc_eq)
  qed simp
  from this [of 512] show ?thesis
    using assms(3) by (simp add: fill_pd_def ident_entry_def word_less_nat_alt)
qed

definition link_pds :: "u64 \<Rightarrow> u64 list \<Rightarrow> nat \<Rightarrow> efi \<Rightarrow> efi" where
  "link_pds pdpt pds n s = fold (\<lambda>j s. fill_pd (pds ! j) j
     (put_entry pdpt (word_of_nat j) ((pds ! j OR PTE_PRESENT) OR PTE_RW) s)) [0..<n] s"

lemma read_link_pds:
  assumes pages: "\<forall>z \<in> set pds. z mod PAGE_SIZE = 0" "pdpt mod PAGE_SIZE = 0"
    and dist: "distinct pds" "pdpt \<notin> set pds" "length pds = 512" and k: "k < 512"
  shows "n \<le> 512 \<Longrightarrow> unat k < n \<Longrightarrow> efi_mem (link_pds pdpt pds n s) (pdpt + 8 * k) = (pds ! unat k OR PTE_PRESENT) OR PTE_RW"
    and "n \<le> 512 \<Longrightarrow> j < n \<Longrightarrow> efi_mem (link_pds pdpt pds n s) (pds ! j + 8 * k) = ident_entry (word_of_nat j) k"
    and "n \<le> 512 \<Longrightarrow> f mod PAGE_SIZE = 0 \<Longrightarrow> f \<notin> set pds \<Longrightarrow> f \<noteq> pdpt \<Longrightarrow>
      efi_mem (link_pds pdpt pds n s) (f + 8 * k) = efi_mem s (f + 8 * k)"
proof -
  have one: "efi_mem (link_pds pdpt pds (Suc n) s) (f + 8 * k) =
    (if f = pds ! n then ident_entry (word_of_nat n) k
     else if f = pdpt \<and> unat k = n then (pds ! n OR PTE_PRESENT) OR PTE_RW
     else efi_mem (link_pds pdpt pds n s) (f + 8 * k))"
    if f: "f mod PAGE_SIZE = 0" and "n < 512" for f n
  proof -
    have n: "(word_of_nat n :: u64) < 512" "unat (word_of_nat n :: u64) = n" "n < length pds"
      using word_of_nat_512 [of n] dist(3) that by auto
    have z: "pds ! n mod PAGE_SIZE = 0" using n(3) pages(1) nth_mem by auto
    have kn: "k = word_of_nat n \<longleftrightarrow> unat k = n" using n(2) by (auto simp: u64_eq_iff_unat)
    show ?thesis
      using read_fill_pd [OF f z k] read_put_entry [OF f pages(2) k n(1)] kn
      by (simp add: link_pds_def)
  qed
  have pd: "pds ! i mod PAGE_SIZE = 0" "pds ! i \<noteq> pdpt" "pds ! i \<in> set pds" if "i < 512" for i
    using that pages(1) dist(2,3) nth_mem [of i pds] by auto
  show "n \<le> 512 \<Longrightarrow> unat k < n \<Longrightarrow> efi_mem (link_pds pdpt pds n s) (pdpt + 8 * k) = (pds ! unat k OR PTE_PRESENT) OR PTE_RW"
  proof (induction n)
    case (Suc n)
    then show ?case using one [OF pages(2), of n] pd(2) [of n] by (cases "unat k = n") auto
  qed simp
  show "n \<le> 512 \<Longrightarrow> j < n \<Longrightarrow> efi_mem (link_pds pdpt pds n s) (pds ! j + 8 * k) = ident_entry (word_of_nat j) k"
  proof (induction n)
    case (Suc n)
    then show ?case
      using one [OF pd(1), of j n] pd(2) [of j] dist(1,3) by (cases "j = n") (auto simp: nth_eq_iff_index_eq)
  qed simp
  show "n \<le> 512 \<Longrightarrow> f mod PAGE_SIZE = 0 \<Longrightarrow> f \<notin> set pds \<Longrightarrow> f \<noteq> pdpt \<Longrightarrow>
      efi_mem (link_pds pdpt pds n s) (f + 8 * k) = efi_mem s (f + 8 * k)"
  proof (induction n)
    case (Suc n)
    then show ?case using one [of f n] pd(3) [of n] by auto
  qed (simp add: link_pds_def)
qed

lemma fill_tables_link:
  assumes "length pds = 512"
  shows "fill_tables ap pml4 pdpt pds s =
    link_pds pdpt pds 512 (put_entry pml4 0 ((pdpt OR PTE_PRESENT) OR PTE_RW) (fold (SetMem_page ap) (pml4 # pdpt # pds) s))"
proof -
  have "fold (\<lambda>i. SetMem_page ap (pds ! i)) [0..<512] s = fold (SetMem_page ap) pds s" for s
  proof -
    have "pds = map ((!) pds) [0..<512]" using assms map_nth [of pds] by simp
    then have "fold (SetMem_page ap) pds s = fold (SetMem_page ap) (map ((!) pds) [0..<512]) s" by (rule arg_cong)
    then show ?thesis by (simp only: fold_map comp_def)
  qed
  then show ?thesis by (simp add: fill_tables_def link_pds_def Let_def)
qed

text \<open>The memory the loops of \<open>efi_main\<close> leave.\<close>

lemma fill_tables_mem:
  fixes s :: efi
  assumes laws: "page_laws ap" and pages: "\<forall>z \<in> set (pml4 # pdpt # pds). z mod PAGE_SIZE = 0" and dist: "distinct (pml4 # pdpt # pds)"
    and len: "length pds = 512" and k: "k < 512"
  defines "m \<equiv> efi_mem (fill_tables ap pml4 pdpt pds s)"
  shows "m (pml4 + 8 * k) = (if k = 0 then (pdpt OR PTE_PRESENT) OR PTE_RW else 0)"
    and "m (pdpt + 8 * k) = (pds ! unat k OR PTE_PRESENT) OR PTE_RW"
    and "j < 512 \<Longrightarrow> m (pds ! j + 8 * k) = ident_entry (word_of_nat j) k"
proof -
  have al: "\<forall>z \<in> set pds. z mod PAGE_SIZE = 0" "pdpt mod PAGE_SIZE = 0" "pml4 mod PAGE_SIZE = 0"
    using pages by auto
  have di: "distinct pds" "pdpt \<notin> set pds" "pml4 \<notin> set pds" "pml4 \<noteq> pdpt" using dist by auto
  note link = read_link_pds [OF al(1,2) di(1,2) len k, where n = 512]
  have k': "unat k < 512" using k by (simp add: word_less_nat_alt)
  have m: "m = efi_mem (link_pds pdpt pds 512 (put_entry pml4 0 ((pdpt OR PTE_PRESENT) OR PTE_RW) (fold (SetMem_page ap) (pml4 # pdpt # pds) s)))"
    unfolding m_def fill_tables_link [OF len] ..
  show "m (pdpt + 8 * k) = (pds ! unat k OR PTE_PRESENT) OR PTE_RW"
    unfolding m using link(1) k' by simp
  show "j < 512 \<Longrightarrow> m (pds ! j + 8 * k) = ident_entry (word_of_nat j) k"
    unfolding m using link(2) by simp
  have zero: "efi_mem (fold (SetMem_page ap) (pml4 # pdpt # pds) s) (pml4 + 8 * k) = 0"
    using read_SetMem_pages [OF laws al(3) k pages, of s] by simp
  show "m (pml4 + 8 * k) = (if k = 0 then (pdpt OR PTE_PRESENT) OR PTE_RW else 0)"
    unfolding m link(3) [OF order_refl al(3) di(3,4)] read_put_entry [OF al(3,3) k, of 0, simplified]
    using zero by simp
qed


lemma bit_ident_entry: "bit (ident_entry j i) 7"
  by (simp add: ident_entry_def bit_simps)

lemma fill_tables_calls [simp]: "efi_calls (fill_tables ap pml4 pdpt pds s) = efi_calls s"
proof -
  have pd: "efi_calls (fill_pd pd j s) = efi_calls s" for pd j s
    unfolding fill_pd_def by (rule fold_invariant [where Q = "\<lambda>_. True"]) (simp_all add: put_entry_def)
  have "efi_calls (fold f xs s) = efi_calls s" if "\<And>i s. efi_calls (f i s) = efi_calls s" for f :: "nat \<Rightarrow> efi \<Rightarrow> efi" and xs s
    by (rule fold_invariant [where Q = "\<lambda>_. True"]) (simp_all add: that)
  then show ?thesis by (simp add: fill_tables_def Let_def pd put_entry_def SetMem_page_def)
qed

lemma length_path_le3: "length p \<le> 3 \<Longrightarrow> p = [] \<or> (\<exists>i. p = [i]) \<or> (\<exists>j i. p = [j, i]) \<or> (\<exists>i j h. p = [i, j, h])"
  by (simp add: numeral_eq_Suc le_Suc_eq length_Suc_conv) blast

lemma fill_tables_inv:
  fixes s :: efi
  assumes laws: "page_laws ap" and pages: "\<forall>z \<in> set (pml4 # pdpt # pds). z mod PAGE_SIZE = 0 \<and> z < 0x10000000000000"
    and dist: "distinct (pml4 # pdpt # pds)" and len: "length pds = 512"
    and free: "set (pml4 # pdpt # pds) \<inter> pages_from ap (efi_calls s) = {}"
  shows "handoff_inv ap pml4 (fill_tables ap pml4 pdpt pds s)"
proof -
  let ?s = "fill_tables ap pml4 pdpt pds s"
  let ?m = "efi_mem ?s" and ?sm = "small (efi_mem ?s)"
  have al: "\<forall>z \<in> set (pml4 # pdpt # pds). z mod PAGE_SIZE = 0" using pages by blast
  note mem = fill_tables_mem [OF laws al dist len, where s = s]
  have k: "unat k < 512" if "k < 512" for k :: u64 using that by (simp add: word_less_nat_alt)
  have pd: "pds ! unat j \<in> set pds" "pds ! unat j mod PAGE_SIZE = 0" "pds ! unat j < 0x10000000000000" if "j < 512" for j :: u64
    using k [OF that] len pages nth_mem [of "unat j" pds] by auto
  have e0: "pte_next ((pdpt OR PTE_PRESENT) OR PTE_RW) = Some pdpt" "\<not> bit ((pdpt OR PTE_PRESENT) OR PTE_RW) 7"
    using table_entry [of pdpt] pages by auto
  have t1: "table_at ?sm pml4 [i] = (if i = 0 then Some pdpt else None)" if "i < 512" for i
    using mem(1) [OF that] e0 by (cases "i = 0") (simp_all add: small_def pte_next_def [of 0])
  have t2: "table_at ?sm pml4 [j, i] = (if i = 0 then Some (pds ! unat j) else None)" if "j < 512" "i < 512" for i j
  proof -
    have "pte_next (?sm (pdpt + 8 * j)) = Some (pds ! unat j)"
      using mem(2) [OF that(1)] table_entry [OF pd(2,3) [OF that(1)]] by (simp add: small_def)
    then show ?thesis using t1 [OF that(2)] by (simp add: table_at.simps(2) [of _ _ j] del: table_at.simps)
  qed
  have ident: "?m (pds ! unat j + 8 * i) = ident_entry j i" if "j < 512" "i < 512" for i j
    using mem(3) [OF that(2) k [OF that(1)]] by simp
  have t3: "table_at ?sm pml4 [i, j, h] = None" if "i < 512" "j < 512" "h < 512" for i j h
    using t2 [OF that(2,3)] ident [OF that(2,1)] bit_ident_entry
    by (simp add: table_at.simps(2) [of _ _ i] small_def pte_next_def del: table_at.simps)
  have walk: "p = [] \<and> t = pml4 \<or> p = [0] \<and> t = pdpt \<or> (\<exists>j < 512. p = [j, 0] \<and> t = pds ! unat j)"
    if pt: "valid_path p" "table_at ?sm pml4 p = Some t" for p t
  proof -
    consider "p = []" | i where "p = [i]" | j i where "p = [j, i]" | i j h where "p = [i, j, h]"
      using length_path_le3 [OF valid_path_idx(2) [OF pt(1)]] by blast
    then show ?thesis
      using pt t1 t2 t3 by cases (auto simp del: table_at.simps(2) split: if_splits)
  qed
  have inj: "i = j" if "pds ! unat i = pds ! unat j" "i < 512" "j < 512" for i j :: u64
  proof -
    have "unat i = unat j" using that(1) nth_eq_iff_index_eq [of pds "unat i" "unat j"] k [OF that(2)] k [OF that(3)] dist len by simp
    then show ?thesis by (simp only: u64_eq_iff_unat)
  qed
  have ne: "pds ! unat j \<noteq> pml4" "pds ! unat j \<noteq> pdpt" if "j < 512" for j :: u64 using pd(1) [OF that] dist by auto
  have tabs: "tables ?sm pml4 \<subseteq> set (pml4 # pdpt # pds)"
    unfolding tables_def using walk pd(1) by fastforce
  have "p = q" if "valid_path p" "valid_path q" "table_at ?sm pml4 p = Some t" "table_at ?sm pml4 q = Some t" for p q t
    using walk [OF that(1,3)] walk [OF that(2,4)] inj ne dist by auto
  then have "pt_tree ?sm pml4 (pages_from ap (efi_calls ?s))"
    using tabs al free unfolding pt_tree_def fill_tables_calls by blast
  moreover have "\<exists>j. p = [j, 0]"
    if q: "valid_path p" "i < 512" "table_at ?sm pml4 p = Some t" "bit (?m (t + 8 * i)) 7" for p t i
  proof -
    have "\<not> bit (?m (pml4 + 8 * i)) 7" "\<not> bit (?m (pdpt + 8 * i)) 7"
      using mem(1,2) [OF q(2)] e0(2) table_entry(2) [OF pd(2,3) [OF q(2)]] by simp_all
    then show ?thesis using walk [OF q(1,3)] q(4) by auto
  qed
  moreover have "\<exists>pd. table_at ?sm pml4 [j, 0] = Some pd \<and> (\<forall>i < 512. ?m (pd + 8 * i) = ident_entry j i)"
    if "j < 512" for j
    using t2 [OF that, of 0] ident [OF that] by (simp del: table_at.simps)
  ultimately show ?thesis unfolding handoff_inv_def by blast
qed


lemma allocate_pds_ok:
  assumes "allocate_pds ap n pds s = (st, pds', s')" and "\<not> EFI_ERROR st"
  shows "pds' = pds @ map (\<lambda>i. snd (allocate_page ap i)) [efi_calls s..<efi_calls s + n] \<and> s' = s\<lparr>efi_calls := efi_calls s + n\<rparr> \<and>
    (\<forall>i. efi_calls s \<le> i \<and> i < efi_calls s + n \<longrightarrow> \<not> EFI_ERROR (fst (allocate_page ap i)))"
  using assms
proof (induction n arbitrary: pds s)
  case (Suc n)
  obtain st1 a where ap: "allocate_page ap (efi_calls s) = (st1, a)" by force
  have ok: "\<not> EFI_ERROR st1" using Suc.prems ap by (auto simp: AllocatePages_def)
  then have "allocate_pds ap n (pds @ [a]) (s\<lparr>efi_calls := efi_calls s + 1\<rparr>) = (st, pds', s')"
    using Suc.prems(1) ap by (simp add: AllocatePages_def)
  from Suc.IH [OF this Suc.prems(2)] have IH: "pds' = pds @ [a] @ map (\<lambda>i. snd (allocate_page ap i)) [efi_calls s + 1..<efi_calls s + Suc n]"
    "s' = s\<lparr>efi_calls := efi_calls s + Suc n\<rparr>"
    "\<forall>i. efi_calls s + 1 \<le> i \<and> i < efi_calls s + Suc n \<longrightarrow> \<not> EFI_ERROR (fst (allocate_page ap i))" by simp_all
  have "[efi_calls s..<efi_calls s + Suc n] = efi_calls s # [efi_calls s + 1..<efi_calls s + Suc n]"
    by (simp add: upt_rec)
  moreover have "\<not> EFI_ERROR (fst (allocate_page ap i))" if "efi_calls s \<le> i" "i < efi_calls s + Suc n" for i
    using IH(3) that ok ap by (cases "i = efi_calls s") auto
  ultimately show ?case using IH(1,2) ap by simp
qed auto

lemma identity_tables_inv:
  assumes fresh: "page_laws ap" and run: "identity_tables ap s = (st, r, s')" and ok: "\<not> EFI_ERROR st"
  shows "handoff_inv ap r s'"
proof -
  let ?n = "efi_calls s"
  obtain st1 where a1: "allocate_page ap ?n = (st1, r)" "\<not> EFI_ERROR st1"
    using run ok by (auto simp: identity_tables_def AllocatePages_def Let_def split: prod.splits if_splits)
  obtain st2 pdpt where a2: "allocate_page ap (Suc ?n) = (st2, pdpt)" by force
  have ok2: "\<not> EFI_ERROR st2"
    using run ok a1 a2 by (auto simp: identity_tables_def AllocatePages_def Let_def split: if_splits)
  obtain st3 pds s3 where a3: "allocate_pds ap 512 [] (s\<lparr>efi_calls := Suc (Suc ?n)\<rparr>) = (st3, pds, s3)"
    using prod_cases3 by blast
  have ok3: "\<not> EFI_ERROR st3" and s': "s' = fill_tables ap r pdpt pds s3"
    using run ok a1 a2 ok2 a3 by (auto simp: identity_tables_def AllocatePages_def Let_def split: if_splits)
  from allocate_pds_ok [OF a3 ok3]
  have pds: "pds = map (\<lambda>i. snd (allocate_page ap i)) [?n + 2..<?n + 514]" and s3: "efi_calls s3 = ?n + 514"
    and oks: "\<forall>i. ?n + 2 \<le> i \<and> i < ?n + 514 \<longrightarrow> \<not> EFI_ERROR (fst (allocate_page ap i))" by (simp_all add: add.commute [of 514])
  have all: "r # pdpt # pds = map (\<lambda>i. snd (allocate_page ap i)) [?n..<?n + 514]"
    using a1 a2 pds by (simp add: upt_rec [of ?n "?n + 514"] upt_rec [of "Suc ?n" "?n + 514"])
  have okall: "\<not> EFI_ERROR (fst (allocate_page ap i))" if i: "?n \<le> i" "i < ?n + 514" for i
  proof -
    consider "i = ?n" | "i = Suc ?n" | "?n + 2 \<le> i" using i(1) by linarith
    then show ?thesis using a1 a2 ok2 oks i(2) by cases auto
  qed
  have inj: "inj_on (\<lambda>i. snd (allocate_page ap i)) {i. \<not> EFI_ERROR (fst (allocate_page ap i))}" using fresh by (simp add: page_laws_def)
  have "distinct (r # pdpt # pds)"
    unfolding all distinct_map using okall by (auto intro: inj_on_subset [OF inj])
  moreover have "\<forall>z \<in> set (r # pdpt # pds). z mod PAGE_SIZE = 0 \<and> z < 0x10000000000000"
    unfolding all using okall fresh_page(1,2) [OF fresh] by auto
  moreover have "set (r # pdpt # pds) \<inter> pages_from ap (efi_calls s3) = {}"
    unfolding all s3 pages_from_def using okall inj_onD [OF inj] by fastforce
  ultimately show ?thesis
    unfolding s' using fill_tables_inv [OF fresh, of r pdpt pds s3] pds by simp
qed

section \<open>Every handed over address is mapped to itself\<close>

lemma walk_small:
  assumes inv: "handoff_inv ap r s" and pd: "table_at (small (efi_mem s)) r [pdpt_index v, pml4_index v] = Some pd"
  shows "table_at (efi_mem s) r [pdpt_index v, pml4_index v] = Some pd"
proof -
  obtain t where t: "table_at (small (efi_mem s)) r [pml4_index v] = Some t"
    and pd': "pte_next (small (efi_mem s) (t + 8 * pdpt_index v)) = Some pd"
    using pd by (auto split: option.splits)
  have "\<not> bit (efi_mem s (r + 8 * pml4_index v)) 7"
    using handoff_invD(2) [OF inv, of "[]" "pml4_index v" r] by simp
  then have "table_at (efi_mem s) r [pml4_index v] = Some t" using t by (simp add: small_entry)
  moreover have "\<not> bit (efi_mem s (t + 8 * pdpt_index v)) 7"
    using handoff_invD(2) [OF inv, of "[pml4_index v]" "pdpt_index v" t] t by simp
  ultimately show ?thesis using pd' by (simp add: small_entry)
qed

lemma unat_ident_base:
  assumes "j < 512" and "i < 512"
  shows "unat (j * 0x40000000 + i * 0x200000 :: u64) = unat j * 1073741824 + unat i * 2097152"
proof -
  have "unat j < 512" "unat i < 512" using assms by (simp_all add: word_less_nat_alt)
  then show ?thesis by (simp add: unat_add_u64 unat_mult_u64)
qed

lemma ident_base:
  assumes "v < HANDOFF_IDENTITY_SIZE"
  shows "pdpt_index v * 0x40000000 + pd_index v * 0x200000 = push_bit 21 (drop_bit 21 v)"
proof -
  have "unat v < 549755813888" using assms by (simp add: word_less_nat_alt)
  then have "unat (pdpt_index v * 0x40000000 + pd_index v * 0x200000) =
      unat v div 1073741824 * 1073741824 + unat v div 2097152 mod 512 * 2097152"
    unfolding unat_ident_base [OF index_less(2,3)] by (simp add: index_unat less_mult_imp_div_less)
  also have "\<dots> = unat v div 2097152 * 2097152"
    using div_mult_mod_eq [of "unat v div 2097152" 512] by (simp add: div_mult2_eq [symmetric])
  also have "\<dots> = unat (push_bit 21 (drop_bit 21 v))"
  proof -
    have "unat v div 2097152 * 2097152 < 18446744073709551616"
      using u64_less_wrap [of v] div_times_less_eq_dividend [of "unat v" 2097152] by linarith
    then show ?thesis by (simp add: push_bit_eq_mult drop_bit_eq_div unat_mult_u64 unat_div)
  qed
  finally show ?thesis by (simp only: u64_eq_iff_unat)
qed

lemma ident_entry_frame:
  assumes "v < HANDOFF_IDENTITY_SIZE"
  defines "e \<equiv> ident_entry (pdpt_index v) (pd_index v)"
  shows "e AND PTE_PRESENT \<noteq> 0" and "e AND PTE_PS \<noteq> 0" and "(e AND 0x000FFFFFFFE00000) OR (v AND 0x1FFFFF) = v"
proof -
  show "e AND PTE_PRESENT \<noteq> 0" "e AND PTE_PS \<noteq> 0"
    by (simp_all add: e_def ident_entry_def bit.conj_disj_distrib2)
  have "v = take_bit 39 v"
    using assms(1) by (simp add: u64_eq_iff_unat unsigned_take_bit_eq take_bit_nat_eq_self word_less_nat_alt)
  then have hi: "bit v n \<Longrightarrow> n < 39" for n by (metis bit_take_bit_iff)
  have m: "0x000FFFFFFFE00000 = (push_bit 21 (mask 31) :: u64)" by (simp add: mask_eq_exp_minus_1)
  have "e AND 0x000FFFFFFFE00000 = push_bit 21 (drop_bit 21 v) AND 0x000FFFFFFFE00000"
    by (simp add: e_def ident_entry_def ident_base [OF assms(1)] bit.conj_disj_distrib2)
  also have "\<dots> = push_bit 21 (drop_bit 21 v)"
    unfolding m by (rule bit_word_eqI) (use hi in \<open>force simp: bit_simps\<close>)
  finally have "e AND 0x000FFFFFFFE00000 = push_bit 21 (drop_bit 21 v)" .
  moreover have "v AND 0x1FFFFF = take_bit 21 v"
    by (simp add: take_bit_eq_mask mask_eq_exp_minus_1)
  moreover have "push_bit 21 (drop_bit 21 v) OR take_bit 21 v = v"
    by (rule bit_word_eqI) (auto simp: bit_simps)
  ultimately show "(e AND 0x000FFFFFFFE00000) OR (v AND 0x1FFFFF) = v" by simp
qed

lemma walk_low:
  assumes inv: "handoff_inv ap r s" and v: "v < HANDOFF_IDENTITY_SIZE"
  shows "walk (efi_mem s) r v = Some v"
proof -
  have v': "unat v < 549755813888" using v by (simp add: word_less_nat_alt)
  then have z: "pml4_index v = 0" by (simp add: u64_eq_iff_unat index_unat)
  obtain pd where pd: "table_at (small (efi_mem s)) r [pdpt_index v, pml4_index v] = Some pd"
    and e: "efi_mem s (pd + 8 * pd_index v) = ident_entry (pdpt_index v) (pd_index v)"
    unfolding z using handoff_invD(3) [OF inv index_less(2) [of v]] index_less(3) [of v] by blast
  show ?thesis
    using walk_small [OF inv pd] ident_entry_frame [OF v] by (simp add: walk_def Let_def e del: table_at.simps)
qed

lemma walk_high:
  assumes inv: "handoff_inv ap r s" and v: "pml4_index v \<noteq> 0" and pg: "same_page (efi_mem s) r (page_base v)"
  shows "walk (efi_mem s) r v = Some v"
proof -
  have tr: "table_at (small (efi_mem s)) r (idx_path v) = Some (page_base v)"
    using pg by (simp add: same_page_def translate_def page_base(4))
  obtain pd where pd: "table_at (small (efi_mem s)) r [pdpt_index v, pml4_index v] = Some pd"
    using tr by (fastforce simp: idx_path_def split: option.splits)
  obtain pt where pt: "table_at (small (efi_mem s)) r [pd_index v, pdpt_index v, pml4_index v] = Some pt"
    and leaf: "pte_next (small (efi_mem s) (pt + 8 * pt_index v)) = Some (page_base v)"
    using tr by (fastforce simp: idx_path_def split: option.splits)
  have b1: "\<not> bit (efi_mem s (pd + 8 * pd_index v)) 7"
    by (rule handoff_invD(2) [OF inv _ _ pd]) (use v in auto)
  have b2: "\<not> bit (efi_mem s (pt + 8 * pt_index v)) 7"
    by (rule handoff_invD(2) [OF inv _ _ pt]) auto
  have e: "pte_next (efi_mem s (pd + 8 * pd_index v)) = Some pt"
    using pt pd b1 by (simp add: table_at.simps(2) [of _ _ "pd_index v"] small_entry del: table_at.simps)
  have ps: "efi_mem s (pd + 8 * pd_index v) AND PTE_PS = 0"
    using b1 bit_iff_and_push_bit_not_eq_0 [of "efi_mem s (pd + 8 * pd_index v)" 7] by simp
  have "page_base v OR (v AND 0xFFF) = (v AND NOT (mask 12)) OR (v AND mask 12)"
    by (simp add: page_base_def mask_eq_exp_minus_1)
  also have "\<dots> = v" by (rule bit_word_eqI) (auto simp: bit_simps)
  finally have "page_base v OR (v AND 0xFFF) = v" .
  with e leaf ps show ?thesis
    using walk_small [OF inv pd] b2
    by (simp add: walk_def Let_def pte_next_def [of "efi_mem s (pd + 8 * pd_index v)"] small_entry
        del: table_at.simps split: if_splits)
qed

text \<open>An error the mapping ends with is one the firmware has answered.\<close>

definition firmware_error :: "page_service \<Rightarrow> efi \<Rightarrow> EFI_STATUS \<Rightarrow> efi \<Rightarrow> bool" where
  "firmware_error ap s st s' \<longleftrightarrow> efi_calls s \<le> efi_calls s' \<and>
     (EFI_ERROR st \<longrightarrow> (\<exists>k. efi_calls s \<le> k \<and> k < efi_calls s' \<and> fst (allocate_page ap k) = st))"

lemma firmware_error_trans:
  assumes "firmware_error ap s st s1" and "firmware_error ap s1 st' s2"
  shows "firmware_error ap s st' s2"
proof -
  have le: "efi_calls s \<le> efi_calls s1" "efi_calls s1 \<le> efi_calls s2" using assms by (simp_all add: firmware_error_def)
  have "\<exists>k. efi_calls s \<le> k \<and> k < efi_calls s2 \<and> fst (allocate_page ap k) = st'" if err: "EFI_ERROR st'"
  proof -
    obtain k where "efi_calls s1 \<le> k" "k < efi_calls s2" "fst (allocate_page ap k) = st'"
      using assms(2) err unfolding firmware_error_def by blast
    with le(1) show ?thesis by (auto intro: exI [of _ k])
  qed
  with le show ?thesis by (simp add: firmware_error_def)
qed

lemma firmware_error_refl: "\<not> EFI_ERROR st \<Longrightarrow> firmware_error ap s st s"
  by (simp add: firmware_error_def)

lemma firmware_error_put [simp]: "firmware_error ap s st (put_entry t i e s1) = firmware_error ap s st s1"
  by (simp add: firmware_error_def put_entry_def)

lemma firmware_error_ok: "\<not> EFI_ERROR st' \<Longrightarrow> firmware_error ap s st s1 \<Longrightarrow> firmware_error ap s st' s1"
  by (simp add: firmware_error_def)

lemma handoff_table_error: "handoff_table ap t i s = (st, s') \<Longrightarrow> firmware_error ap s st s'"
  by (auto simp: handoff_table_def allocate_table_def AllocatePages_def put_entry_def SetMem_page_def firmware_error_def
      Let_def split: if_splits prod.splits)

lemma map_handoff_page_error: "map_handoff_page ap r v s = (st, s') \<Longrightarrow> firmware_error ap s st s'"
  unfolding map_handoff_page_alt
  by (auto simp: Let_def split: if_splits prod.splits dest!: handoff_table_error
      intro: firmware_error_trans)
    (meson firmware_error_trans firmware_error_ok EFI_ERROR_simps(1))

lemma handoff_loop_error: "handoff_loop ap r stop page s = Some (st, s') \<Longrightarrow> firmware_error ap s st s'"
proof -
  assume "handoff_loop ap r stop page s = Some (st, s')"
  then have "firmware_error ap s (fst (st, s')) (snd (st, s'))"
    by (rule handoff_loop.raw_induct [rotated, where P = "\<lambda>ap r stop page s y. firmware_error ap s (fst y) (snd y)"])
      (auto split: if_splits prod.splits simp: firmware_error_refl intro: firmware_error_trans dest!: map_handoff_page_error)
  then show "firmware_error ap s st s'" by simp
qed

lemma map_handoff_ranges_error:
  "\<forall>(physical, sz) \<in> set rs. unat physical + unat sz \<le> 281474976710656 \<Longrightarrow>
   map_handoff_ranges ap r rs s = Some (st, s') \<Longrightarrow> firmware_error ap s st s'"
proof (induction rs arbitrary: s)
  case (Cons x rs)
  obtain physical sz where x: "x = (physical, sz)" by force
  have "unat (physical + sz) = unat physical + unat sz" using Cons.prems(1) x by simp
  then have "\<not> physical + sz < physical" by (simp add: word_less_nat_alt)
  moreover obtain st1 s1 where e: "map_handoff_range ap r physical sz s = Some (st1, s1)"
    using Cons.prems(2) x by (auto split: option.splits)
  ultimately have one: "firmware_error ap s st1 s1"
    using handoff_loop_error by (simp add: map_handoff_range_def)
  show ?case
  proof (cases "EFI_ERROR st1")
    case True
    then show ?thesis using one Cons.prems(2) x e by simp
  next
    case False
    then have "firmware_error ap s1 st s'" using Cons x e by simp
    with one show ?thesis by (rule firmware_error_trans)
  qed
qed (simp add: firmware_error_def)

text \<open>
  C39: when the firmware hands out whole pages, each once, and the identity tables and the handoff ranges
  are built, the walk of the processor translates every address below 512 GiB, and every address of the
  ranges of image, stack and framebuffer, to itself. For ranges that end below 256 TiB the loops end, and
  the only errors are those the firmware answers to a request for a page.
\<close>

theorem handoff_identity:
  assumes "page_laws ap" and "identity_tables ap s0 = (st, pml4, s1)" and "\<not> EFI_ERROR st"
    and "\<forall>(physical, sz) \<in> set rs. unat physical + unat sz \<le> 2 ^ 48"
  shows "\<exists>st' s2. map_handoff_ranges ap pml4 rs s1 = Some (st', s2) \<and>
    (EFI_ERROR st' \<longrightarrow> (\<exists>k \<ge> efi_calls s1. k < efi_calls s2 \<and> fst (allocate_page ap k) = st')) \<and>
    (\<not> EFI_ERROR st' \<longrightarrow>
      (\<forall>v. v < HANDOFF_IDENTITY_SIZE \<or>
        (\<exists>(physical, sz) \<in> set rs. physical \<le> v \<and> unat v < unat physical + unat sz) \<longrightarrow>
        walk (efi_mem s2) pml4 v = Some v))"
proof -
  have r: "\<forall>(physical, sz) \<in> set rs. unat physical + unat sz \<le> 281474976710656" using assms(4) by simp
  obtain st' s2 where run: "map_handoff_ranges ap pml4 rs s1 = Some (st', s2)"
    and post: "\<not> EFI_ERROR st' \<longrightarrow> handoff_inv ap pml4 s2 \<and>
      (\<forall>(physical, sz) \<in> set rs. \<forall>v. physical \<le> v \<and> unat v < unat physical + unat sz \<and> HANDOFF_IDENTITY_SIZE \<le> v
          \<longrightarrow> same_page (efi_mem s2) pml4 (page_base v))"
    using map_handoff_ranges_spec [OF assms(1) identity_tables_inv [OF assms(1-3)] r] by blast
  have "walk (efi_mem s2) pml4 v = Some v"
    if ok: "\<not> EFI_ERROR st'" and rng: "(physical, sz) \<in> set rs" "physical \<le> v" "unat v < unat physical + unat sz" for v physical sz
  proof (cases "v < HANDOFF_IDENTITY_SIZE")
    case True
    then show ?thesis using walk_low post ok by blast
  next
    case False
    have "unat v < 281474976710656" using r rng by auto
    then have "v < 0x1000000000000" by (simp add: word_less_nat_alt)
    then have "pml4_index v \<noteq> 0" using False pml4_index_high [of v] by simp
    moreover have "same_page (efi_mem s2) pml4 (page_base v)" using post ok rng False by auto
    ultimately show ?thesis using walk_high post ok by blast
  qed
  moreover have "EFI_ERROR st' \<longrightarrow> (\<exists>k \<ge> efi_calls s1. k < efi_calls s2 \<and> fst (allocate_page ap k) = st')"
    using map_handoff_ranges_error [OF r run] by (auto simp: firmware_error_def)
  ultimately show ?thesis using run post walk_low by auto
qed

definition pages0 :: page_service where
  "pages0 = \<lparr>allocate_page = (\<lambda>k. if k < 1024 then (0, 0x100000 + word_of_nat k * 0x1000) else (0x8000000000000009, 0)),
    set_mem = (\<lambda>addr len val. zero_range addr len)\<rparr>"

lemma unat_pages0: "k < 1024 \<Longrightarrow> unat (snd (allocate_page pages0 k)) = 1048576 + k * 4096"
  by (simp add: pages0_def unat_add_u64 unat_mult_u64 unat_of_nat take_bit_nat_eq_self)

lemma pages0_fresh: "page_laws pages0"
proof -
  have ok: "\<not> EFI_ERROR (fst (allocate_page pages0 k)) \<longleftrightarrow> k < 1024" for k by (simp add: pages0_def EFI_ERROR_def)
  have "snd (allocate_page pages0 k) mod PAGE_SIZE = 0" "snd (allocate_page pages0 k) < 0x10000000000000" if "k < 1024" for k
  proof -
    have "unat (snd (allocate_page pages0 k) mod PAGE_SIZE) = 0" using unat_pages0 [OF that] by (simp add: unat_mod mod_simps)
    then show "snd (allocate_page pages0 k) mod PAGE_SIZE = 0" by (simp only: u64_eq_iff_unat unat_0)
    show "snd (allocate_page pages0 k) < 0x10000000000000" using unat_pages0 [OF that] that by (simp add: word_less_nat_alt)
  qed
  moreover have "k = j" if "snd (allocate_page pages0 k) = snd (allocate_page pages0 j)" "k < 1024" "j < 1024" for j k
    using arg_cong [OF that(1), of unat] unat_pages0 [OF that(2)] unat_pages0 [OF that(3)] by simp
  ultimately show ?thesis unfolding page_laws_def ok by (auto intro: inj_onI simp: pages0_def)
qed

lemma pages0_identity: "\<exists>s1. identity_tables pages0 \<lparr>efi_mem = (\<lambda>_. 7), efi_calls = 0\<rparr> = (0, 0x100000, s1)"
proof -
  have "k + n \<le> 1024 \<Longrightarrow> \<exists>pds' s'. allocate_pds pages0 n pds \<lparr>efi_mem = m, efi_calls = k\<rparr> = (0, pds', s')" for n k m pds
    by (induction n arbitrary: pds k) (simp_all add: AllocatePages_def pages0_def)
  from this [of "Suc (Suc 0)" 512 "[]" "\<lambda>_. 7"] show ?thesis
    by (auto simp: identity_tables_def AllocatePages_def Let_def pages0_def)
qed

text \<open>Memory full of sevens, 1024 pages from 1 MiB on, an image at 2 MiB and a framebuffer at 1 TiB.\<close>

theorem handoff_identity_witness:
  "\<exists>s1 st' s2. identity_tables pages0 \<lparr>efi_mem = (\<lambda>_. 7), efi_calls = 0\<rparr> = (0, 0x100000, s1) \<and>
    map_handoff_ranges pages0 0x100000 [(0x200000, 0x50000), (0x10000000000, 0x2000)] s1 = Some (st', s2) \<and>
    (\<not> EFI_ERROR st' \<longrightarrow> walk (efi_mem s2) 0x100000 0x234567 = Some 0x234567 \<and>
       walk (efi_mem s2) 0x100000 0x10000001FFF = Some 0x10000001FFF)"
proof -
  let ?rs = "[(0x200000, 0x50000), (0x10000000000, 0x2000)] :: (u64 \<times> u64) list"
  obtain s1 where s1: "identity_tables pages0 \<lparr>efi_mem = (\<lambda>_. 7), efi_calls = 0\<rparr> = (0, 0x100000, s1)"
    using pages0_identity by blast
  have rs: "\<forall>(physical, sz) \<in> set ?rs. unat physical + unat sz \<le> 2 ^ 48" by simp
  from handoff_identity [OF pages0_fresh s1 _ rs] obtain st' s2
    where run: "map_handoff_ranges pages0 0x100000 ?rs s1 = Some (st', s2)"
      and ok: "\<not> EFI_ERROR st' \<longrightarrow> (\<forall>v. v < HANDOFF_IDENTITY_SIZE \<or>
        (\<exists>(physical, sz) \<in> set ?rs. physical \<le> v \<and> unat v < unat physical + unat sz) \<longrightarrow>
        walk (efi_mem s2) 0x100000 v = Some v)" by auto
  have "walk (efi_mem s2) 0x100000 0x234567 = Some 0x234567" "walk (efi_mem s2) 0x100000 0x10000001FFF = Some 0x10000001FFF"
    if "\<not> EFI_ERROR st'"
    using ok that by simp_all
  with s1 run show ?thesis by blast
qed

end
