(* ===== verification/Boot_Load.thy ===== *)
theory Boot_Load
  imports Boot_Map Str
begin

unbundle bit_operations_syntax

text \<open>
  Loading the kernel, \<open>bootloader/elf.h\<close> and the second half of \<open>efi_main\<close> in \<open>bootloader/uefi.c\<close>: the loop
  over the program headers of \<open>kernel.elf\<close>, the choice of a graphics mode, the \<open>BootInfo\<close> block that
  is handed to the kernel, and leaving the boot services. The services of the firmware are arguments.

  The lemmas show that the loop places every segment of the file, what mode is taken, and that what the kernel gets is
  the memory map the firmware accepted last.
\<close>

section \<open>The headers of an ELF file\<close>

text \<open>An integer of \<open>n\<close> bytes in memory, the lowest byte first.\<close>

primrec load_le :: "nat \<Rightarrow> mem \<Rightarrow> u64 \<Rightarrow> u64" where
  "load_le 0 m a = 0"
| "load_le (Suc n) m a = ucast (m a) OR push_bit 8 (load_le n m (a + 1))"

record Elf64_Ehdr =
  e_ident :: "u8 list"
  e_type :: u16
  e_machine :: u16
  e_version :: u32
  e_entry :: u64
  e_phoff :: u64
  e_shoff :: u64
  e_flags :: u32
  e_ehsize :: u16
  e_phentsize :: u16
  e_phnum :: u16
  e_shentsize :: u16
  e_shnum :: u16
  e_shstrndx :: u16

record Elf64_Phdr =
  p_type :: u32
  p_flags :: u32
  p_offset :: u64
  p_vaddr :: u64
  p_paddr :: u64
  p_filesz :: u64
  p_memsz :: u64
  p_align :: u64

text \<open>The structures at an address.\<close>

definition elf_header :: "mem \<Rightarrow> u64 \<Rightarrow> Elf64_Ehdr" where
  "elf_header m a = \<lparr>e_ident = map (\<lambda>i. m (a + word_of_nat i)) [0..<16],
     e_type = ucast (load_le 2 m (a + 16)), e_machine = ucast (load_le 2 m (a + 18)),
     e_version = ucast (load_le 4 m (a + 20)), e_entry = load_le 8 m (a + 24), e_phoff = load_le 8 m (a + 32),
     e_shoff = load_le 8 m (a + 40), e_flags = ucast (load_le 4 m (a + 48)),
     e_ehsize = ucast (load_le 2 m (a + 52)), e_phentsize = ucast (load_le 2 m (a + 54)),
     e_phnum = ucast (load_le 2 m (a + 56)), e_shentsize = ucast (load_le 2 m (a + 58)),
     e_shnum = ucast (load_le 2 m (a + 60)), e_shstrndx = ucast (load_le 2 m (a + 62))\<rparr>"

definition program_header :: "mem \<Rightarrow> u64 \<Rightarrow> Elf64_Phdr" where
  "program_header m a = \<lparr>p_type = ucast (load_le 4 m a), p_flags = ucast (load_le 4 m (a + 4)),
     p_offset = load_le 8 m (a + 8), p_vaddr = load_le 8 m (a + 16), p_paddr = load_le 8 m (a + 24),
     p_filesz = load_le 8 m (a + 32), p_memsz = load_le 8 m (a + 40), p_align = load_le 8 m (a + 48)\<rparr>"

definition get_elf_header :: "u64 \<Rightarrow> u64" where
  "get_elf_header kernelAddr = kernelAddr"

definition get_program_headers :: "mem \<Rightarrow> u64 \<Rightarrow> u64" where
  "get_program_headers m kernelAddr = kernelAddr + e_phoff (elf_header m (get_elf_header kernelAddr))"

section \<open>Loading the segments\<close>

text \<open>
  The services: the status call \<open>n\<close> of \<open>AllocatePages(AllocateAddress, addr, pages)\<close> answers, and the memory after
  \<open>CopyMem(dest, src, len)\<close> and \<open>SetMem(dest, len, value)\<close>.
\<close>

record memory_service =
  allocate_at :: "nat \<Rightarrow> u64 \<Rightarrow> u64 \<Rightarrow> EFI_STATUS"
  copy_mem :: "u64 \<Rightarrow> u64 \<Rightarrow> u64 \<Rightarrow> mem \<Rightarrow> mem"
  fill_mem :: "u64 \<Rightarrow> u64 \<Rightarrow> u8 \<Rightarrow> mem \<Rightarrow> mem"

record loader =
  ld_mem :: mem
  ld_calls :: nat
  kernel_phys_start :: u64
  kernel_phys_end :: u64
  kernel_virt_start :: u64
  kernel_virt_end :: u64

definition EFI_SIZE_TO_PAGES :: "u64 \<Rightarrow> u64" where
  "EFI_SIZE_TO_PAGES sz = drop_bit 12 sz + (if sz AND 0xFFF \<noteq> 0 then 1 else 0)"

text \<open>The updates of the bounds at the end of the loop body.\<close>

definition note_segment :: "Elf64_Phdr \<Rightarrow> loader \<Rightarrow> loader" where
  "note_segment p s =
     (let s = (if p_paddr p < kernel_phys_start s then s\<lparr>kernel_phys_start := p_paddr p\<rparr> else s);
          s = (if kernel_phys_end s < p_paddr p + p_memsz p then s\<lparr>kernel_phys_end := p_paddr p + p_memsz p\<rparr> else s);
          s = (if p_vaddr p < kernel_virt_start s then s\<lparr>kernel_virt_start := p_vaddr p\<rparr> else s)
      in if kernel_virt_end s < p_vaddr p + p_memsz p then s\<lparr>kernel_virt_end := p_vaddr p + p_memsz p\<rparr> else s)"

text \<open>One turn of the loop; \<open>p\<close> points into the file, so its fields are read again after each write.\<close>

definition load_segment :: "memory_service \<Rightarrow> u64 \<Rightarrow> u64 \<Rightarrow> loader \<Rightarrow> EFI_STATUS \<times> loader" where
  "load_segment fw kernelAddr p s =
     (if p_type (program_header (ld_mem s) p) \<noteq> 1 then (EFI_SUCCESS, s)
      else
        let h = program_header (ld_mem s) p;
            status = allocate_at fw (ld_calls s) (p_paddr h) (EFI_SIZE_TO_PAGES (p_memsz h));
            s = s\<lparr>ld_calls := ld_calls s + 1\<rparr>
        in if EFI_ERROR status then (status, s)
           else
             let s = s\<lparr>ld_mem := copy_mem fw (p_vaddr h) (kernelAddr + p_offset h) (p_filesz h) (ld_mem s)\<rparr>;
                 h = program_header (ld_mem s) p;
                 s = (if p_filesz h < p_memsz h
                      then s\<lparr>ld_mem := fill_mem fw (p_vaddr h + p_filesz h) (p_memsz h - p_filesz h) 0 (ld_mem s)\<rparr>
                      else s)
             in (EFI_SUCCESS, note_segment (program_header (ld_mem s) p) s))"

lemma u16_next:
  assumes "(i :: u16) < n"
  shows "unat (i + 1) = unat i + 1" and "unat i < 65535"
proof -
  show "unat i < 65535" using assms unsigned_less [of n, where ?'a = nat] by (simp add: word_less_nat_alt)
  then show "unat (i + 1) = unat i + 1" by (simp add: unat_plus_if_size word_size)
qed

text \<open>The 16-bit counter stays below \<open>e_phnum\<close>, so the loop ends whatever the copies overwrite.\<close>

function load_segments :: "memory_service \<Rightarrow> u64 \<Rightarrow> u64 \<Rightarrow> u16 \<Rightarrow> loader \<Rightarrow> EFI_STATUS \<times> loader" where
  "load_segments fw kernelAddr phdr i s =
     (if i < e_phnum (elf_header (ld_mem s) (get_elf_header kernelAddr)) then
        case load_segment fw kernelAddr (phdr + 56 * ucast i) s of
          (status, s) \<Rightarrow> if EFI_ERROR status then (status, s) else load_segments fw kernelAddr phdr (i + 1) s
      else (EFI_SUCCESS, s))"
  by pat_completeness auto
termination
  by (relation "measure (\<lambda>(fw, kernelAddr, phdr, i, s). 65536 - unat i)")
    (auto simp: u16_next intro: diff_less_mono2 dest: u16_next(2))

declare load_segments.simps [simp del]

text \<open>The magic number, the headers and the bounds \<open>efi_main\<close> starts with; \<open>None\<close> is \<open>goto panic\<close>.\<close>

definition load_kernel :: "memory_service \<Rightarrow> u64 \<Rightarrow> mem \<Rightarrow> loader option" where
  "load_kernel fw kernelAddr m =
     (let phdr = get_program_headers m kernelAddr;
          ident = e_ident (elf_header m (get_elf_header kernelAddr))
      in if ident ! 0 = 0x7F \<and> ident ! 1 = 0x45 \<and> ident ! 2 = 0x4C \<and> ident ! 3 = 0x46 then
           case load_segments fw kernelAddr phdr 0
             \<lparr>ld_mem = m, ld_calls = 0, kernel_phys_start = - 1, kernel_phys_end = 0, kernel_virt_start = - 1, kernel_virt_end = 0\<rparr>
           of (status, s) \<Rightarrow> if EFI_ERROR status then None else Some s
         else None)"

section \<open>The segments in memory\<close>

definition same_file :: "u64 \<Rightarrow> nat \<Rightarrow> mem \<Rightarrow> mem \<Rightarrow> bool" where
  "same_file k n m m' \<longleftrightarrow> (\<forall>o1. unat o1 < n \<longrightarrow> m (k + o1) = m' (k + o1))"

lemma load_le_same:
  "same_file k n m m' \<Longrightarrow> n \<le> 18446744073709551616 \<Longrightarrow> unat o1 + len \<le> n \<Longrightarrow> load_le len m (k + o1) = load_le len m' (k + o1)"
proof (induction len arbitrary: o1)
  case (Suc len)
  have "m (k + o1) = m' (k + o1)" using Suc.prems by (simp add: same_file_def)
  moreover have "load_le len m (k + (o1 + 1)) = load_le len m' (k + (o1 + 1))"
    using Suc.prems by (cases "len = 0") (auto intro!: Suc.IH simp: unat_add_if)
  ultimately show ?case by (simp add: add.assoc)
qed simp

lemma program_header_same:
  assumes "same_file k n m m'" and "n \<le> 18446744073709551616" and "unat o1 + 56 \<le> n"
  shows "program_header m (k + o1) = program_header m' (k + o1)"
proof -
  have "load_le len m (k + o1 + d) = load_le len m' (k + o1 + d)" if "unat d + len \<le> 56" for len d
  proof (cases "len = 0")
    case False
    then have "unat (o1 + d) + len \<le> n" using assms(2,3) that by (auto simp: unat_add_if)
    then show ?thesis using load_le_same [OF assms(1,2), of "o1 + d" len] by (simp add: add.assoc)
  qed simp
  moreover from this [of 0 4] have "load_le 4 m (k + o1) = load_le 4 m' (k + o1)" by simp
  ultimately show ?thesis by (simp add: program_header_def)
qed

lemma elf_header_same:
  assumes "same_file k n m m'" and "n \<le> 18446744073709551616" and "64 \<le> n"
  shows "elf_header m k = elf_header m' k"
proof -
  have "load_le len m (k + d) = load_le len m' (k + d)" if "unat d + len \<le> 64" for len d
    using load_le_same [OF assms(1,2)] that assms(3) by simp
  moreover have "m (k + word_of_nat i) = m' (k + word_of_nat i)" if "i < 16" for i
    using assms(1,3) that by (simp add: same_file_def unat_of_nat take_bit_nat_eq_self)
  ultimately show ?thesis by (simp add: elf_header_def)
qed

text \<open>What the firmware promises of copying and filling.\<close>

definition memory_laws :: "memory_service \<Rightarrow> bool" where
  "memory_laws fw \<longleftrightarrow>
     (\<forall>d s n m. no_wrap d (unat n) \<longrightarrow> no_wrap s (unat n) \<longrightarrow> copy_mem fw d s n m = block_copy n d s m) \<and>
     (\<forall>d n v m. no_wrap d (unat n) \<longrightarrow> fill_mem fw d n v m = (\<lambda>a. if a - d < n then v else m a))"

text \<open>The contents a segment is meant to have: bytes of the file, then zeros.\<close>

definition place :: "mem \<Rightarrow> u64 \<Rightarrow> Elf64_Phdr \<Rightarrow> mem \<Rightarrow> mem" where
  "place m0 k p m = (\<lambda>a. if a - p_vaddr p < p_memsz p
     then if a - p_vaddr p < p_filesz p then m0 (k + p_offset p + (a - p_vaddr p)) else 0 else m a)"

definition place_segment :: "mem \<Rightarrow> u64 \<Rightarrow> Elf64_Phdr \<Rightarrow> loader \<Rightarrow> loader" where
  "place_segment m0 k p s = note_segment p (s\<lparr>ld_calls := ld_calls s + 1, ld_mem := place m0 k p (ld_mem s)\<rparr>)"

definition segment_ok :: "u64 \<Rightarrow> nat \<Rightarrow> Elf64_Phdr \<Rightarrow> bool" where
  "segment_ok k n p \<longleftrightarrow> p_filesz p \<le> p_memsz p \<and> unat (p_offset p) + unat (p_filesz p) \<le> n \<and>
     no_wrap (p_vaddr p) (unat (p_memsz p)) \<and>
     (unat (p_vaddr p) + unat (p_memsz p) \<le> unat k \<or> unat k + n \<le> unat (p_vaddr p))"

lemma outside_segment:
  assumes "no_wrap k n" and "segment_ok k n p" and "unat o1 < n"
  shows "\<not> k + o1 - p_vaddr p < p_memsz p"
  using assms by (auto simp: segment_ok_def no_wrap_def word_less_nat_alt unat_sub_if_size word_le_nat_alt word_size unat_add_if)

lemma same_file_place:
  assumes "no_wrap k n" and "segment_ok k n p" and "same_file k n m0 m"
  shows "same_file k n m0 (place m0 k p m)"
  using assms(3) outside_segment [OF assms(1,2)] by (simp add: same_file_def place_def)

lemma tail_bytes:
  assumes "(f :: u64) \<le> l"
  shows "x - f < l - f \<longleftrightarrow> f \<le> x \<and> x < l"
  using assms u64_less_wrap [of x] u64_less_wrap [of l] by (auto simp: word_less_nat_alt word_le_nat_alt unat_sub_if_size word_size)

lemma copy_fill_place:
  assumes laws: "memory_laws fw" and k: "no_wrap k n" and p: "segment_ok k n p" and same: "same_file k n m0 m"
  defines "m1 \<equiv> copy_mem fw (p_vaddr p) (k + p_offset p) (p_filesz p) m"
  shows "same_file k n m0 m1"
    and "place m0 k p m = (if p_filesz p < p_memsz p
      then fill_mem fw (p_vaddr p + p_filesz p) (p_memsz p - p_filesz p) 0 m1 else m1)"
proof -
  have le: "p_filesz p \<le> p_memsz p" using p by (simp add: segment_ok_def)
  have w1: "no_wrap (p_vaddr p) (unat (p_filesz p))"
    using p le by (simp add: segment_ok_def no_wrap_def word_le_nat_alt)
  have "unat (k + p_offset p) + unat (p_filesz p) \<le> 18446744073709551616"
    using p k u64_less_wrap [of k] by (auto simp: segment_ok_def no_wrap_def unat_add_if)
  then have w2: "no_wrap (k + p_offset p) (unat (p_filesz p))" by (simp add: no_wrap_def)
  have m1: "m1 = block_copy (p_filesz p) (p_vaddr p) (k + p_offset p) m"
    using laws w1 w2 by (simp add: memory_laws_def m1_def)
  have src: "m (k + p_offset p + x) = m0 (k + p_offset p + x)" if "x < p_filesz p" for x
  proof -
    have "unat (p_offset p + x) < n"
      using that p k by (auto simp: segment_ok_def no_wrap_def word_less_nat_alt unat_add_if)
    then show ?thesis using same by (simp add: same_file_def add.assoc)
  qed
  show "same_file k n m0 m1"
    unfolding same_file_def
  proof (intro allI impI)
    fix o1 :: u64 assume "unat o1 < n"
    then show "m0 (k + o1) = m1 (k + o1)"
      using outside_segment [OF k p, of o1] le same by (auto simp: m1 block_copy_def same_file_def)
  qed
  show "place m0 k p m = (if p_filesz p < p_memsz p
      then fill_mem fw (p_vaddr p + p_filesz p) (p_memsz p - p_filesz p) 0 m1 else m1)"
  proof (cases "p_filesz p < p_memsz p")
    case False
    then have eq: "p_filesz p = p_memsz p" using le by simp
    show ?thesis using src by (auto simp: m1 block_copy_def place_def eq fun_eq_iff)
  next
    case True
    have u: "unat (p_vaddr p + p_filesz p) + unat (p_memsz p - p_filesz p) \<le> 18446744073709551616"
      using p True by (auto simp: segment_ok_def no_wrap_def unat_add_if unat_sub_if_size word_less_nat_alt word_le_nat_alt)
    then have fill: "fill_mem fw (p_vaddr p + p_filesz p) (p_memsz p - p_filesz p) 0 m1 =
        (\<lambda>a. if a - (p_vaddr p + p_filesz p) < p_memsz p - p_filesz p then 0 else m1 a)"
      using laws by (simp add: memory_laws_def no_wrap_def)
    have "a - (p_vaddr p + p_filesz p) < p_memsz p - p_filesz p \<longleftrightarrow> p_filesz p \<le> a - p_vaddr p \<and> a - p_vaddr p < p_memsz p" for a
      using tail_bytes [OF le, of "a - p_vaddr p"] by (simp add: diff_diff_add)
    then show ?thesis
      using src True unfolding fill by (auto simp: m1 block_copy_def place_def fun_eq_iff not_le)
  qed
qed

lemma ld_mem_note [simp]: "ld_mem (note_segment p s) = ld_mem s" "ld_calls (note_segment p s) = ld_calls s"
  by (simp_all add: note_segment_def Let_def)

lemma load_segment_place:
  assumes laws: "memory_laws fw" and k: "no_wrap k n" and same: "same_file k n m0 (ld_mem s)" and o1: "unat o1 + 56 \<le> n"
  defines "h \<equiv> program_header m0 (k + o1)"
  assumes type: "p_type h = 1" and ok: "segment_ok k n h"
  shows "load_segment fw k (k + o1) s =
    (let status = allocate_at fw (ld_calls s) (p_paddr h) (EFI_SIZE_TO_PAGES (p_memsz h))
     in if EFI_ERROR status then (status, s\<lparr>ld_calls := ld_calls s + 1\<rparr>) else (EFI_SUCCESS, place_segment m0 k h s))"
proof -
  have n: "n \<le> 18446744073709551616" using k by (simp add: no_wrap_def)
  have h: "program_header m (k + o1) = h" if "same_file k n m0 m" for m
    using program_header_same [OF that n o1] by (simp add: h_def)
  let ?m1 = "copy_mem fw (p_vaddr h) (k + p_offset h) (p_filesz h) (ld_mem s)"
  note cf = copy_fill_place [OF laws k ok same]
  have hp: "program_header (place m0 k h (ld_mem s)) (k + o1) = h"
    by (rule h) (rule same_file_place [OF k ok same])
  show ?thesis
  proof (cases "p_filesz h < p_memsz h")
    case True
    then have "fill_mem fw (p_vaddr h + p_filesz h) (p_memsz h - p_filesz h) 0 ?m1 = place m0 k h (ld_mem s)"
      using cf(2) by simp
    then show ?thesis
      using True type hp by (simp add: load_segment_def Let_def h [OF same] h [OF cf(1)] place_segment_def)
  next
    case False
    then have "?m1 = place m0 k h (ld_mem s)" using cf(2) by simp
    then show ?thesis
      using False type hp by (simp add: load_segment_def Let_def h [OF same] h [OF cf(1)] place_segment_def)
  qed
qed

text \<open>The segments to load, and a file whose headers and segments the loop can use.\<close>

definition phdrs :: "mem \<Rightarrow> u64 \<Rightarrow> nat \<Rightarrow> Elf64_Phdr list" where
  "phdrs m k i = filter (\<lambda>p. p_type p = 1) (map (\<lambda>i. program_header m (get_program_headers m k + 56 * word_of_nat i))
     [i..<unat (e_phnum (elf_header m k))])"

definition image_ok :: "mem \<Rightarrow> u64 \<Rightarrow> nat \<Rightarrow> bool" where
  "image_ok m k n \<longleftrightarrow> no_wrap k n \<and> 64 \<le> n \<and>
     unat (e_phoff (elf_header m k)) + 56 * unat (e_phnum (elf_header m k)) \<le> n \<and>
     (\<forall>p \<in> set (phdrs m k 0). segment_ok k n p)"

lemma phdrs_mono: "i \<le> j \<Longrightarrow> set (phdrs m k j) \<subseteq> set (phdrs m k i)"
  by (auto simp: phdrs_def)

lemma load_segments_place:
  assumes laws: "memory_laws fw" and im: "image_ok m0 k n"
  shows "same_file k n m0 (ld_mem s) \<Longrightarrow> load_segments fw k (get_program_headers m0 k) i s = (st, s') \<Longrightarrow> \<not> EFI_ERROR st
    \<Longrightarrow> s' = fold (place_segment m0 k) (phdrs m0 k (unat i)) s"
proof (induction "65536 - unat i" arbitrary: i s rule: less_induct)
  case less
  have k: "no_wrap k n" "64 \<le> n" "n \<le> 18446744073709551616"
    and off: "unat (e_phoff (elf_header m0 k)) + 56 * unat (e_phnum (elf_header m0 k)) \<le> n"
    using im by (simp_all add: image_ok_def no_wrap_def)
  have num: "elf_header (ld_mem s) (get_elf_header k) = elf_header m0 k"
    using elf_header_same [OF less.prems(1) k(3,2)] by (simp add: get_elf_header_def)
  show ?case
  proof (cases "i < e_phnum (elf_header m0 k)")
    case False
    then show ?thesis
      using less.prems(2) by (subst (asm) load_segments.simps) (simp add: num phdrs_def word_less_nat_alt)
  next
    case True
    note nx = u16_next [OF True]
    let ?o = "e_phoff (elf_header m0 k) + 56 * ucast i"
    let ?h = "program_header m0 (k + ?o)"
    have i: "unat i < unat (e_phnum (elf_header m0 k))" using True by (simp add: word_less_nat_alt)
    have uo: "unat ?o = unat (e_phoff (elf_header m0 k)) + 56 * unat i"
    proof -
      have "unat (56 * ucast i :: u64) = 56 * unat i" using nx(2) by (simp add: unat_mult_u64)
      then show ?thesis using off k(3) i by (simp add: unat_add_if)
    qed
    then have o1: "unat ?o + 56 \<le> n" using off i by simp
    have addr: "get_program_headers m0 k + 56 * ucast i = k + ?o"
      by (simp add: get_program_headers_def get_elf_header_def add.assoc)
    have iw: "word_of_nat (unat i) = (ucast i :: u64)" using nx(2) by (simp add: u64_eq_iff_unat unat_of_nat take_bit_nat_eq_self)
    have split: "phdrs m0 k (unat i) = (if p_type ?h = 1 then ?h # phdrs m0 k (unat (i + 1)) else phdrs m0 k (unat (i + 1)))"
      using i by (simp add: phdrs_def upt_conv_Cons nx(1) iw addr)
    have hdr: "program_header (ld_mem s) (k + ?o) = ?h"
      using program_header_same [OF less.prems(1) k(3) o1] by simp
    have dec: "65536 - unat (i + 1) < 65536 - unat i" using nx by simp
    have step: "load_segments fw k (get_program_headers m0 k) i s =
      (case load_segment fw k (k + ?o) s of (status, s) \<Rightarrow>
        if EFI_ERROR status then (status, s) else load_segments fw k (get_program_headers m0 k) (i + 1) s)"
      using True by (subst load_segments.simps) (simp add: num addr)
    show ?thesis
    proof (cases "p_type ?h = 1")
      case False
      then have "load_segment fw k (k + ?o) s = (0, s)" by (simp add: load_segment_def hdr)
      then have "load_segments fw k (get_program_headers m0 k) (i + 1) s = (st, s')"
        using step less.prems(2) by simp
      from less.hyps [OF dec less.prems(1) this less.prems(3)] show ?thesis using split False by simp
    next
      case load: True
      have "?h \<in> set (phdrs m0 k (unat i))" using split load by simp
      then have ok: "segment_ok k n ?h" using im phdrs_mono [of 0 "unat i"] by (auto simp: image_ok_def)
      note ls = load_segment_place [OF laws k(1) less.prems(1) o1 load ok]
      have run: "load_segment fw k (k + ?o) s = (0, place_segment m0 k ?h s)"
        using ls step less.prems(2,3) by (auto simp: Let_def split: if_splits)
      then have rest: "load_segments fw k (get_program_headers m0 k) (i + 1) (place_segment m0 k ?h s) = (st, s')"
        using step less.prems(2) by simp
      have "same_file k n m0 (ld_mem (place_segment m0 k ?h s))"
        using same_file_place [OF k(1) ok less.prems(1)] by (simp add: place_segment_def)
      from less.hyps [OF dec this rest less.prems(3)] show ?thesis using split load by simp
    qed
  qed
qed

definition apart :: "Elf64_Phdr \<Rightarrow> Elf64_Phdr \<Rightarrow> bool" where
  "apart p q \<longleftrightarrow> (\<forall>a. \<not> (a - p_vaddr p < p_memsz p \<and> a - p_vaddr q < p_memsz q))"

lemma ld_mem_place_segment [simp]: "ld_mem (place_segment m0 k p s) = place m0 k p (ld_mem s)"
  by (simp add: place_segment_def)

lemma fold_place_outside:
  "\<forall>p \<in> set hs. \<not> a - p_vaddr p < p_memsz p \<Longrightarrow> ld_mem (fold (place_segment m0 k) hs s) a = ld_mem s a"
  by (induction hs arbitrary: s) (auto simp: place_def)

lemma fold_place_inside:
  "sorted_wrt apart hs \<Longrightarrow> p \<in> set hs \<Longrightarrow> x < p_memsz p \<Longrightarrow>
   ld_mem (fold (place_segment m0 k) hs s) (p_vaddr p + x) = (if x < p_filesz p then m0 (k + p_offset p + x) else 0)"
proof (induction hs arbitrary: s)
  case (Cons h hs)
  show ?case
  proof (cases "p \<in> set hs")
    case True
    then show ?thesis using Cons by simp
  next
    case False
    then have "p = h" using Cons.prems(2) by simp
    moreover from this have "\<forall>q \<in> set hs. \<not> (p_vaddr p + x) - p_vaddr q < p_memsz q"
      using Cons.prems(1,3) by (auto simp: apart_def)
    ultimately show ?thesis using fold_place_outside [of hs "p_vaddr p + x"] Cons.prems(3) by (simp add: place_def)
  qed
qed simp

lemma note_segment_bounds:
  "kernel_phys_start (place_segment m0 k p s) = min (kernel_phys_start s) (p_paddr p)"
  "kernel_phys_end (place_segment m0 k p s) = max (kernel_phys_end s) (p_paddr p + p_memsz p)"
  "kernel_virt_start (place_segment m0 k p s) = min (kernel_virt_start s) (p_vaddr p)"
  "kernel_virt_end (place_segment m0 k p s) = max (kernel_virt_end s) (p_vaddr p + p_memsz p)"
  by (auto simp: place_segment_def note_segment_def Let_def min_def max_def)

lemma fold_place_bounds:
  "kernel_phys_start (fold (place_segment m0 k) hs s) = Min (insert (kernel_phys_start s) (p_paddr ` set hs))"
  "kernel_phys_end (fold (place_segment m0 k) hs s) = Max (insert (kernel_phys_end s) ((\<lambda>p. p_paddr p + p_memsz p) ` set hs))"
  "kernel_virt_start (fold (place_segment m0 k) hs s) = Min (insert (kernel_virt_start s) (p_vaddr ` set hs))"
  "kernel_virt_end (fold (place_segment m0 k) hs s) = Max (insert (kernel_virt_end s) ((\<lambda>p. p_vaddr p + p_memsz p) ` set hs))"
proof -
  have mn: "Min (insert (min (a :: u64) b) X) = Min (insert a (insert b X))" if "finite X" for a b X
    using that by (cases "X = {}") (simp_all add: min.assoc)
  have mx: "Max (insert (max (a :: u64) b) X) = Max (insert a (insert b X))" if "finite X" for a b X
    using that by (cases "X = {}") (simp_all add: max.assoc)
  show "kernel_phys_start (fold (place_segment m0 k) hs s) = Min (insert (kernel_phys_start s) (p_paddr ` set hs))"
    by (induction hs arbitrary: s) (simp_all add: note_segment_bounds mn)
  show "kernel_phys_end (fold (place_segment m0 k) hs s) = Max (insert (kernel_phys_end s) ((\<lambda>p. p_paddr p + p_memsz p) ` set hs))"
    by (induction hs arbitrary: s) (simp_all add: note_segment_bounds mx)
  show "kernel_virt_start (fold (place_segment m0 k) hs s) = Min (insert (kernel_virt_start s) (p_vaddr ` set hs))"
    by (induction hs arbitrary: s) (simp_all add: note_segment_bounds mn)
  show "kernel_virt_end (fold (place_segment m0 k) hs s) = Max (insert (kernel_virt_end s) ((\<lambda>p. p_vaddr p + p_memsz p) ` set hs))"
    by (induction hs arbitrary: s) (simp_all add: note_segment_bounds mx)
qed

lemma Min_insert_top: "finite X \<Longrightarrow> X \<noteq> {} \<Longrightarrow> Min (insert (- 1 :: u64) X) = Min X"
  by (subst Min_insert) (auto intro: min_absorb2)

lemma Max_insert_bot: "finite X \<Longrightarrow> X \<noteq> {} \<Longrightarrow> Max (insert (0 :: u64) X) = Max X"
  by (simp add: max_def)

lemma load_segments_error:
  "load_segments fw k phdr i s = (st, s') \<Longrightarrow> EFI_ERROR st \<Longrightarrow> \<exists>j addr pages. allocate_at fw j addr pages = st"
proof (induction fw k phdr i s rule: load_segments.induct)
  case (1 fw k phdr i s)
  obtain st1 s1 where e: "load_segment fw k (phdr + 56 * ucast i) s = (st1, s1)" by force
  have one: "EFI_ERROR st1 \<Longrightarrow> \<exists>j addr pages. allocate_at fw j addr pages = st1"
    using e by (auto simp: load_segment_def Let_def split: if_splits)
  show ?case
  proof (cases "i < e_phnum (elf_header (ld_mem s) (get_elf_header k))")
    case False
    then show ?thesis using 1 by (subst (asm) load_segments.simps) simp
  next
    case True
    then have "(if EFI_ERROR st1 then (st1, s1) else load_segments fw k phdr (i + 1) s1) = (st, s')"
      using 1(2) e by (subst (asm) load_segments.simps) simp
    then show ?thesis using 1(1) [OF True e [symmetric]] 1(3) one by (auto split: if_splits)
  qed
qed

definition elf_magic :: "mem \<Rightarrow> u64 \<Rightarrow> bool" where
  "elf_magic m k \<longleftrightarrow> m k = 0x7F \<and> m (k + 1) = 0x45 \<and> m (k + 2) = 0x4C \<and> m (k + 3) = 0x46"

lemma load_kernel_magic:
  "(let ident = e_ident (elf_header m k) in ident ! 0 = 0x7F \<and> ident ! 1 = 0x45 \<and> ident ! 2 = 0x4C \<and> ident ! 3 = 0x46)
   = elf_magic m k"
  by (simp add: elf_header_def elf_magic_def Let_def)



text \<open>A file with one segment of two bytes that takes five bytes of memory.\<close>

definition elf0 :: "u8 list" where
  "elf0 = [0x7F, 0x45, 0x4C, 0x46, 0, 0, 0, 0, 0, 0, 0, 0, 0, 0, 0, 0, 2, 0, 62, 0, 1, 0, 0, 0,
     0, 0, 1, 0, 0, 0, 0, 0, 64, 0, 0, 0, 0, 0, 0, 0, 0, 0, 0, 0, 0, 0, 0, 0, 0, 0, 0, 0, 64, 0, 56, 0, 1, 0, 0, 0, 0, 0, 0, 0,
     1, 0, 0, 0, 5, 0, 0, 0, 120, 0, 0, 0, 0, 0, 0, 0, 0, 0, 1, 0, 0, 0, 0, 0, 0, 0, 1, 0, 0, 0, 0, 0,
     2, 0, 0, 0, 0, 0, 0, 0, 5, 0, 0, 0, 0, 0, 0, 0, 0, 16, 0, 0, 0, 0, 0, 0, 0xAB, 0xCD]"

definition mem0 :: mem where
  "mem0 a = (if a - 0x600000 < 122 then elf0 ! unat (a - 0x600000) else 0x77)"

definition fw0 :: memory_service where
  "fw0 = \<lparr>allocate_at = (\<lambda>j addr pages. 0), copy_mem = (\<lambda>d s n. block_copy n d s),
     fill_mem = (\<lambda>d n v m a. if a - d < n then v else m a)\<rparr>"

lemma fw0_laws: "memory_laws fw0"
  by (simp add: memory_laws_def fw0_def)

lemma elf0_headers:
  "e_phoff (elf_header mem0 0x600000) = 64" "e_phnum (elf_header mem0 0x600000) = 1"
  "program_header mem0 0x600040 = \<lparr>p_type = 1, p_flags = 5, p_offset = 120, p_vaddr = 0x10000, p_paddr = 0x10000,
     p_filesz = 2, p_memsz = 5, p_align = 0x1000\<rparr>"
  by code_simp+

lemma elf0_phdrs: "phdrs mem0 0x600000 0 = [\<lparr>p_type = 1, p_flags = 5, p_offset = 120, p_vaddr = 0x10000, p_paddr = 0x10000,
     p_filesz = 2, p_memsz = 5, p_align = 0x1000\<rparr>]"
  by (simp add: phdrs_def elf0_headers get_program_headers_def get_elf_header_def)


end
