(* ===== verification/Boot_Screen.thy ===== *)
theory Boot_Screen
  imports Boot_Load Graphics
begin

unbundle bit_operations_syntax

text \<open>
  The screen of the boot loader, \<open>bootloader/uefi.c\<close>: the choice of the graphics mode in \<open>efi_main\<close>, the background, \<open>draw_glyph\<close>
  and \<open>DrawBMP\<close>. The framebuffer is a memory of 32-bit pixels by address; images and glyphs are read from a memory of
  bytes.

  The lemmas show which mode is taken, that the background fills the screen exactly, and that the logo is drawn inside
  the screen.
\<close>

section \<open>The graphics mode\<close>

datatype pixel_format = PixelRedGreenBlueReserved8BitPerColor | PixelBlueGreenRedReserved8BitPerColor
  | PixelBitMask | PixelBltOnly | PixelFormatMax

record mode_info =
  HorizontalResolution :: u32
  VerticalResolution :: u32
  PixelFormat :: pixel_format
  PixelsPerScanLine :: u32

definition format_code :: "pixel_format \<Rightarrow> u32" where
  "format_code f = (case f of PixelRedGreenBlueReserved8BitPerColor \<Rightarrow> 0 | PixelBlueGreenRedReserved8BitPerColor \<Rightarrow> 1
     | PixelBitMask \<Rightarrow> 2 | PixelBltOnly \<Rightarrow> 3 | PixelFormatMax \<Rightarrow> 4)"

definition linear_format :: "mode_info \<Rightarrow> bool" where
  "linear_format info \<longleftrightarrow> \<not> (PixelFormat info \<noteq> PixelRedGreenBlueReserved8BitPerColor \<and>
     PixelFormat info \<noteq> PixelBlueGreenRedReserved8BitPerColor)"

text \<open>The description of the monitor: missing, unusable, or the resolution of its first timing.\<close>

datatype edid_result = No_Edid | No_Clock | Active u16 u16

definition parse_edid :: "u8 list option \<Rightarrow> edid_result" where
  "parse_edid edid =
     (case edid of
        None \<Rightarrow> No_Edid
      | Some bs \<Rightarrow>
          if length bs < 128 then No_Edid
          else
            let DTD = drop 54 bs;
                PixelClock = (ucast (DTD ! 0) OR push_bit 8 (ucast (DTD ! 1)) :: u16)
            in if PixelClock = 0 then No_Clock
               else Active (ucast (ucast (DTD ! 2) + push_bit 4 (ucast (DTD ! 4) AND 0xF0) :: u32))
                      (ucast (ucast (DTD ! 5) + push_bit 4 (ucast (DTD ! 7) AND 0xF0) :: u32)))"

text \<open>
  The loop over the modes; \<open>monitor\<close> is \<open>None\<close> when \<open>skip_monitor\<close> is set and \<open>query\<close> what \<open>QueryMode\<close> answers.
  \<open>preferClassic\<close> is 1.
\<close>

fun pick_loop :: "(nat \<Rightarrow> EFI_STATUS \<times> mode_info) \<Rightarrow> (u16 \<times> u16) option \<Rightarrow> nat list \<Rightarrow> nat \<times> bool \<Rightarrow> nat \<times> bool" where
  "pick_loop query monitor [] (choosenMode, foundMode) = (choosenMode, foundMode)"
| "pick_loop query monitor (i # is) (choosenMode, foundMode) =
     (let (status, info) = query i
      in if EFI_ERROR status then pick_loop query monitor is (choosenMode, foundMode)
         else if \<not> linear_format info then pick_loop query monitor is (choosenMode, foundMode)
         else
           let (choosenMode, foundMode) = (if \<not> foundMode then (i, True) else (choosenMode, foundMode))
           in if (case monitor of None \<Rightarrow> False
                  | Some (HActive, VActive) \<Rightarrow>
                      HorizontalResolution info = ucast HActive \<and> VerticalResolution info = ucast VActive)
              then (i, foundMode)
              else if HorizontalResolution info = 1920 \<and> VerticalResolution info = 1080 then (i, foundMode)
              else pick_loop query monitor is (choosenMode, foundMode))"

text \<open>The mode \<open>efi_main\<close> sets, given the active one; \<open>None\<close> is \<open>goto panic\<close>.\<close>

definition gop_pick :: "(nat \<Rightarrow> EFI_STATUS \<times> mode_info) \<Rightarrow> nat \<Rightarrow> nat \<Rightarrow> u8 list option \<Rightarrow> nat option" where
  "gop_pick query MaxMode active edid =
     (let pick = (\<lambda>monitor. pick_loop query monitor [0..<MaxMode] (0, False))
      in case parse_edid edid of
           No_Clock \<Rightarrow> None
         | No_Edid \<Rightarrow> (case pick None of (choosenMode, foundMode) \<Rightarrow> if \<not> foundMode then None else Some active)
         | Active HActive VActive \<Rightarrow>
             (case pick (Some (HActive, VActive)) of (choosenMode, foundMode) \<Rightarrow>
                if \<not> foundMode then None else Some choosenMode))"

section \<open>Drawing\<close>

definition put_fb :: "u64 \<Rightarrow> u64 \<Rightarrow> u32 \<Rightarrow> (u64 \<Rightarrow> u32) \<Rightarrow> (u64 \<Rightarrow> u32)" where
  "put_fb fb i color v = v(fb + 4 * i := color)"

definition clear_screen :: "u64 \<Rightarrow> u64 \<Rightarrow> u64 \<Rightarrow> u64 \<Rightarrow> u32 \<Rightarrow> (u64 \<Rightarrow> u32) \<Rightarrow> (u64 \<Rightarrow> u32)" where
  "clear_screen fb w h pitch color =
     for_u64 h (\<lambda>y. for_u64 w (\<lambda>x. put_fb fb (y * pitch + x) color))"

abbreviation (input) SCALE :: u64 where "SCALE \<equiv> 20"

definition draw_glyph :: "mem \<Rightarrow> u64 \<Rightarrow> u64 \<Rightarrow> u64 \<Rightarrow> u64 \<Rightarrow> u64 \<Rightarrow> u64 \<Rightarrow> (u64 \<Rightarrow> u32) \<Rightarrow> (u64 \<Rightarrow> u32)" where
  "draw_glyph m glyph glyph_height pos_x pos_y pitch fb =
     for_u64 glyph_height (\<lambda>y.
       let row = m (glyph + y)
       in for_u64 8 (\<lambda>x v.
            if (ucast row AND drop_bit (unat x) (0x80 :: u32)) \<noteq> 0
            then for_u64 SCALE (\<lambda>sy. for_u64 SCALE (\<lambda>sx.
                   put_fb fb ((pos_y + y * SCALE + sy) * pitch + (pos_x + x * SCALE + sx)) 0xFF0000)) v
            else v))"

record BMPHeader =
  bmp_type :: u16
  bmp_size :: u32
  bmp_reserved1 :: u16
  bmp_reserved2 :: u16
  bmp_offset :: u32

record BMPInfoHeader =
  bmpi_size :: u32
  bmpi_width :: u32
  bmpi_height :: u32
  bmpi_planes :: u16
  bmpi_bpp :: u16
  bmpi_compression :: u32
  bmpi_imageSize :: u32
  bmpi_xppm :: u32
  bmpi_yppm :: u32
  bmpi_colorsUsed :: u32
  bmpi_colorsImportant :: u32

text \<open>Both structures are packed.\<close>

definition bmp_header :: "mem \<Rightarrow> u64 \<Rightarrow> BMPHeader" where
  "bmp_header m a = \<lparr>bmp_type = ucast (load_le 2 m a), bmp_size = ucast (load_le 4 m (a + 2)),
     bmp_reserved1 = ucast (load_le 2 m (a + 6)), bmp_reserved2 = ucast (load_le 2 m (a + 8)),
     bmp_offset = ucast (load_le 4 m (a + 10))\<rparr>"

definition bmp_info :: "mem \<Rightarrow> u64 \<Rightarrow> BMPInfoHeader" where
  "bmp_info m a = \<lparr>bmpi_size = ucast (load_le 4 m a), bmpi_width = ucast (load_le 4 m (a + 4)),
     bmpi_height = ucast (load_le 4 m (a + 8)), bmpi_planes = ucast (load_le 2 m (a + 12)),
     bmpi_bpp = ucast (load_le 2 m (a + 14)), bmpi_compression = ucast (load_le 4 m (a + 16)),
     bmpi_imageSize = ucast (load_le 4 m (a + 20)), bmpi_xppm = ucast (load_le 4 m (a + 24)),
     bmpi_yppm = ucast (load_le 4 m (a + 28)), bmpi_colorsUsed = ucast (load_le 4 m (a + 32)),
     bmpi_colorsImportant = ucast (load_le 4 m (a + 36))\<rparr>"

definition bmp_color :: "mem \<Rightarrow> u64 \<Rightarrow> u32" where
  "bmp_color m pixel = (push_bit 16 (ucast (m (pixel + 2))) OR push_bit 8 (ucast (m (pixel + 1)))) OR ucast (m pixel)"

definition DrawBMP :: "u64 \<Rightarrow> u64 \<Rightarrow> u64 \<Rightarrow> u64 \<Rightarrow> u64 \<Rightarrow> u64 \<Rightarrow> mem \<Rightarrow> u64 \<Rightarrow> u64 \<Rightarrow> (u64 \<Rightarrow> u32) \<Rightarrow> (u64 \<Rightarrow> u32)" where
  "DrawBMP fb fb_w fb_h pitch posX posY m bmp scale v =
     (let header = bmp_header m bmp; info = bmp_info m (bmp + 14)
      in if bmp_type header \<noteq> 0x4D42 then v
         else if bmpi_bpp info \<noteq> 24 then v
         else
           let pixels = bmp + ucast (bmp_offset header)
           in if sint (bmpi_width info) \<le> 0 \<or> sint (bmpi_height info) \<le> 0 \<or> scale = 0 then v
              else
                let w = scast (bmpi_width info); h = scast (bmpi_height info);
                    rowSize = (w * 3 + 3) AND NOT 3
                in for_u64 h (\<lambda>y. for_u64 w (\<lambda>x.
                     let color = bmp_color m (pixels + (h - 1 - y) * rowSize + x * 3)
                     in for_u64 scale (\<lambda>sy. for_u64 scale (\<lambda>sx v.
                          let draw_x = posX + x * scale + sx; draw_y = posY + y * scale + sy
                          in if draw_x < fb_w \<and> draw_y < fb_h then put_fb fb (draw_y * pitch + draw_x) color v else v)))) v)"

section \<open>The mode taken\<close>

lemma pick_loop_found:
  "pick_loop query monitor is s = (c, found) \<Longrightarrow> (snd s \<Longrightarrow> P (fst s)) \<Longrightarrow>
   (\<And>i st info. i \<in> set is \<Longrightarrow> query i = (st, info) \<Longrightarrow> \<not> EFI_ERROR st \<Longrightarrow> linear_format info \<Longrightarrow> P i) \<Longrightarrow> found \<Longrightarrow> P c"
proof (induction query monitor "is" s rule: pick_loop.induct)
  case (2 query monitor i "is" chosen fm)
  obtain st info where q: "query i = (st, info)" by force
  show ?case
    using 2 q by (auto simp: Let_def split: if_splits option.splits)
qed simp

text \<open>With a monitor description the mode set is one the firmware knows and has a linear framebuffer.\<close>

lemma gop_pick_linear:
  assumes "gop_pick query MaxMode active edid = Some c" and "parse_edid edid \<noteq> No_Edid"
  shows "c < MaxMode \<and> (\<exists>info. \<not> EFI_ERROR (fst (query c)) \<and> query c = (fst (query c), info) \<and> linear_format info)"
proof -
  obtain h v where e: "parse_edid edid = Active h v"
    using assms by (cases "parse_edid edid") (auto simp: gop_pick_def Let_def)
  obtain c' f where l: "pick_loop query (Some (h, v)) [0..<MaxMode] (0, False) = (c', f)" by force
  then have "f" "c' = c" using assms(1) e by (auto simp: gop_pick_def Let_def split: if_splits)
  with pick_loop_found [OF l, where P = "\<lambda>c. c < MaxMode \<and> (\<exists>info. \<not> EFI_ERROR (fst (query c)) \<and> query c = (fst (query c), info) \<and> linear_format info)"]
  show ?thesis by fastforce
qed

text \<open>Without one the active mode is kept, whatever its format is.\<close>

lemma gop_pick_keeps_active:
  "gop_pick query MaxMode active None \<in> {None, Some active}"
  by (auto simp: gop_pick_def parse_edid_def Let_def split: prod.splits)

section \<open>What is drawn\<close>

lemma for_u64_writes:
  assumes "\<And>i v. i < n \<Longrightarrow> f i v = (\<lambda>a. if a \<in> A i then c else v a)"
  shows "for_u64 n f v = (\<lambda>a. if \<exists>i < n. a \<in> A i then c else (v a :: 'a))"
proof -
  have "for_u64 n f v = (\<lambda>a. if \<exists>i < unat n. a \<in> A (word_of_nat i) then c else v a)"
  proof (rule for_u64_invariant [where P = "\<lambda>k w. w = (\<lambda>a. if \<exists>i < k. a \<in> A (word_of_nat i) then c else v a)"])
    fix i w assume "i < unat n" and w: "w = (\<lambda>a. if \<exists>j < i. a \<in> A (word_of_nat j) then c else v a)"
    then have step: "f (word_of_nat i) w = (\<lambda>a. if a \<in> A (word_of_nat i) then c else w a)"
      using assms [of "word_of_nat i" w] u64_less_wrap [of n]
      by (simp add: word_less_nat_alt unat_of_nat take_bit_nat_eq_self)
    show "f (word_of_nat i) w = (\<lambda>a. if \<exists>k < Suc i. a \<in> A (word_of_nat k) then c else v a)"
      unfolding step unfolding w by (auto simp: less_Suc_eq fun_eq_iff)
  qed simp
  moreover have "(\<exists>i < unat n. a \<in> A (word_of_nat i)) \<longleftrightarrow> (\<exists>i < n. a \<in> A i)" for a
  proof
    assume "\<exists>i < n. a \<in> A i"
    then obtain i where "i < n" "a \<in> A i" by blast
    then show "\<exists>i < unat n. a \<in> A (word_of_nat i)"
      by (auto intro!: exI [of _ "unat i"] simp: word_less_nat_alt)
  next
    assume "\<exists>i < unat n. a \<in> A (word_of_nat i)"
    then show "\<exists>i < n. a \<in> A i"
      using u64_less_wrap [of n] by (force simp: word_less_nat_alt unat_of_nat take_bit_nat_eq_self)
  qed
  ultimately show ?thesis by simp
qed

text \<open>The background covers exactly the pixels of the screen.\<close>

lemma clear_screen_exact:
  "clear_screen fb w h pitch color v =
     (\<lambda>a. if \<exists>y < h. \<exists>x < w. a = fb + 4 * (y * pitch + x) then color else v a)"
proof -
  have row: "for_u64 w (\<lambda>x. put_fb fb (y * pitch + x) color) v =
      (\<lambda>a. if a \<in> {a. \<exists>x < w. a = fb + 4 * (y * pitch + x)} then color else v a)" for y v
    by (subst for_u64_writes [where A = "\<lambda>x. {fb + 4 * (y * pitch + x)}" and c = color])
      (auto simp: put_fb_def fun_eq_iff)
  show ?thesis
    unfolding clear_screen_def
    by (subst for_u64_writes [OF row]) auto
qed

text \<open>The logo changes pixels of the screen only.\<close>

lemma DrawBMP_confined:
  assumes "\<not> (\<exists>y < fb_h. \<exists>x < fb_w. a = fb + 4 * (y * pitch + x))"
  shows "DrawBMP fb fb_w fb_h pitch posX posY m bmp scale v a = v a"
proof -
  have put: "x < fb_w \<Longrightarrow> y < fb_h \<Longrightarrow> put_fb fb (y * pitch + x) c v a = v a" for x y c v
    using assms by (auto simp: put_fb_def)
  show ?thesis
    unfolding DrawBMP_def Let_def
    by (simp add: for_u64_frame [where g = "\<lambda>v. v a"] put)
qed

lemma draw_glyph_color:
  "draw_glyph m glyph glyph_height pos_x pos_y pitch fb v a \<in> {v a, 0xFF0000}"
proof -
  define Q where "Q w = (w a \<in> {v a, 0xFF0000})" for w
  have put: "Q w \<Longrightarrow> Q (put_fb fb i 0xFF0000 w)" for i w
    by (simp add: Q_def put_fb_def)
  have loop: "(\<And>i w. Q w \<Longrightarrow> Q (f i w)) \<Longrightarrow> Q w \<Longrightarrow> Q (for_u64 n f w)" for n f w
    by (rule for_u64_invariant [where P = "\<lambda>_. Q"]) auto
  have "Q (draw_glyph m glyph glyph_height pos_x pos_y pitch fb v)"
    unfolding draw_glyph_def Let_def
    by (intro loop) (auto intro!: loop put simp: Q_def [of v])
  then show ?thesis by (simp add: Q_def)
qed

end
