(* ===== verification/Boot_File.thy ===== *)
theory Boot_File
  imports Boot_Load
begin

unbundle bit_operations_syntax

text \<open>
  \<open>load_file\<close> of \<open>bootloader/uefi.c\<close>: reading a whole file from the volume the loader was started from. What the firmware answers
  is an argument; the result is the status, the size and the list of the calls that take or give back something.

  The lemmas show that every volume, file and pool that was taken is given back exactly once on every path, that the
  size is 0 after an error, and what a success means.
\<close>

section \<open>The code\<close>

abbreviation (input) EFI_LOAD_ERROR :: EFI_STATUS where "EFI_LOAD_ERROR \<equiv> 0x8000000000000001"

abbreviation (input) EFI_BUFFER_TOO_SMALL :: EFI_STATUS where "EFI_BUFFER_TOO_SMALL \<equiv> 0x8000000000000005"

text \<open>
  The answers: statuses, the size of the file information and the size of the file it holds, the pointer after each \<open>AllocatePool\<close>,
  and the number of bytes read.
\<close>

record file_service =
  image_status :: EFI_STATUS
  fs_status :: EFI_STATUS
  volume_status :: EFI_STATUS
  open_status :: EFI_STATUS
  info_size :: "EFI_STATUS \<times> u64"
  info_pool :: "u64 \<Rightarrow> EFI_STATUS \<times> u64"
  info_file_size :: "EFI_STATUS \<times> u64"
  buffer_pool :: "u64 \<Rightarrow> EFI_STATUS \<times> u64"
  read_result :: "u64 \<Rightarrow> EFI_STATUS \<times> u64"
  pages_status :: "u64 \<Rightarrow> u64 \<Rightarrow> EFI_STATUS"

datatype file_call = Opened_Root | Opened_File | Closed_Root | Closed_File
  | Got_Pool u64 | Freed_Pool u64 | Got_Pages u64 u64 | Copied u64 u64 u64

text \<open>From the label \<open>load_file_cleanup\<close> on.\<close>

definition load_file_cleanup :: "EFI_STATUS \<Rightarrow> u64 \<Rightarrow> u64 \<Rightarrow> u64 \<Rightarrow> file_call list \<Rightarrow> EFI_STATUS \<times> u64 \<times> file_call list" where
  "load_file_cleanup Status fileSize fileBuffer fileInfo calls =
     (let calls = (if fileBuffer \<noteq> 0 then calls @ [Freed_Pool fileBuffer] else calls);
          calls = (if fileInfo \<noteq> 0 then calls @ [Freed_Pool fileInfo] else calls);
          calls = calls @ [Closed_File, Closed_Root]
      in (Status, if EFI_ERROR Status then 0 else fileSize, calls))"

text \<open>From the first pool on, with the file open.\<close>

definition load_open_file :: "file_service \<Rightarrow> u64 \<Rightarrow> u64 \<Rightarrow> file_call list \<Rightarrow> EFI_STATUS \<times> u64 \<times> file_call list" where
  "load_open_file fw loadAddress fileInfoSize calls =
     (let (Status, fileInfo) = info_pool fw fileInfoSize
      in if EFI_ERROR Status then load_file_cleanup Status 0 0 fileInfo calls
         else
           let calls = calls @ [Got_Pool fileInfo]; (Status, fileSize) = info_file_size fw
           in if EFI_ERROR Status then load_file_cleanup Status 0 0 fileInfo calls
              else if fileSize = 0 then load_file_cleanup EFI_LOAD_ERROR fileSize 0 fileInfo calls
              else
                let (Status, fileBuffer) = buffer_pool fw fileSize
                in if EFI_ERROR Status then load_file_cleanup Status fileSize fileBuffer fileInfo calls
                   else
                     let calls = calls @ [Got_Pool fileBuffer]; (Status, readSize) = read_result fw fileSize
                     in if EFI_ERROR Status \<or> readSize \<noteq> fileSize
                        then load_file_cleanup (if \<not> EFI_ERROR Status then EFI_LOAD_ERROR else Status) fileSize fileBuffer fileInfo calls
                        else
                          let Status = pages_status fw loadAddress (EFI_SIZE_TO_PAGES fileSize)
                          in if EFI_ERROR Status then load_file_cleanup Status fileSize fileBuffer fileInfo calls
                             else load_file_cleanup Status fileSize fileBuffer fileInfo
                                    (calls @ [Got_Pages loadAddress (EFI_SIZE_TO_PAGES fileSize), Copied loadAddress fileBuffer fileSize]))"

text \<open>The size is \<open>None\<close> while the code has not written it.\<close>

definition load_file :: "file_service \<Rightarrow> bool \<Rightarrow> u64 \<Rightarrow> EFI_STATUS \<times> u64 option \<times> file_call list" where
  "load_file fw null_argument loadAddress =
     (if null_argument then (EFI_INVALID_PARAMETER, None, [])
      else if EFI_ERROR (image_status fw) then (image_status fw, Some 0, [])
      else if EFI_ERROR (fs_status fw) then (fs_status fw, Some 0, [])
      else if EFI_ERROR (volume_status fw) then (volume_status fw, Some 0, [])
      else if EFI_ERROR (open_status fw) then (open_status fw, Some 0, [Opened_Root, Closed_Root])
      else
        let (Status, fileInfoSize) = info_size fw; calls = [Opened_Root, Opened_File];
            (Status, fileSize, calls) =
              (if Status \<noteq> EFI_BUFFER_TOO_SMALL then load_file_cleanup Status 0 0 0 calls
               else load_open_file fw loadAddress fileInfoSize calls)
        in (Status, Some fileSize, calls))"

section \<open>Nothing is leaked\<close>

text \<open>What UEFI says of \<open>AllocatePool\<close>: a pool is not at address 0, and the pointer is not set on an error.\<close>

definition pool_laws :: "file_service \<Rightarrow> bool" where
  "pool_laws fw \<longleftrightarrow>
     (\<forall>n. if EFI_ERROR (fst (info_pool fw n)) then snd (info_pool fw n) = 0 else snd (info_pool fw n) \<noteq> 0) \<and>
     (\<forall>n. if EFI_ERROR (fst (buffer_pool fw n)) then snd (buffer_pool fw n) = 0 else snd (buffer_pool fw n) \<noteq> 0)"

definition balanced :: "file_call list \<Rightarrow> bool" where
  "balanced calls \<longleftrightarrow> count_list calls Opened_Root = count_list calls Closed_Root \<and>
     count_list calls Opened_File = count_list calls Closed_File \<and>
     (\<forall>p. count_list calls (Got_Pool p) = count_list calls (Freed_Pool p))"

lemma load_file_balanced:
  assumes "pool_laws fw" and "load_file fw b a = (st, sz, calls)"
  shows "balanced calls"
proof -
  have info: "snd (info_pool fw n) \<noteq> 0 \<longleftrightarrow> \<not> EFI_ERROR (fst (info_pool fw n))"
    and buf: "snd (buffer_pool fw n) \<noteq> 0 \<longleftrightarrow> \<not> EFI_ERROR (fst (buffer_pool fw n))" for n
    using assms(1) by (auto simp: pool_laws_def split: if_splits)
  show ?thesis
    using assms(2) info buf
    by (auto simp: load_file_def load_open_file_def load_file_cleanup_def balanced_def Let_def split_beta
        split: if_splits)
qed

lemma load_file_error: "load_file fw False a = (st, sz, calls) \<Longrightarrow> EFI_ERROR st \<Longrightarrow> sz = Some 0"
  by (auto simp: load_file_def load_open_file_def load_file_cleanup_def Let_def split_beta split: if_splits)

text \<open>
  After a success the whole file lies at \<open>loadAddress\<close> --- or the firmware answered the question for the size with
  a success of its own, when nothing is loaded and the size is 0.
\<close>

lemma load_file_success:
  assumes "load_file fw False a = (st, sz, calls)" and "\<not> EFI_ERROR st"
  shows "(fst (info_size fw) = st \<and> sz = Some 0 \<and> calls = [Opened_Root, Opened_File, Closed_File, Closed_Root]) \<or>
    (\<exists>n buffer. sz = Some n \<and> n = snd (info_file_size fw) \<and> n \<noteq> 0 \<and> snd (read_result fw n) = n \<and>
      Got_Pages a (EFI_SIZE_TO_PAGES n) \<in> set calls \<and> Copied a buffer n \<in> set calls)"
  using assms
  by (auto simp: load_file_def load_open_file_def load_file_cleanup_def EFI_ERROR_def Let_def split_beta split: if_splits)

end
