(* ===== verification/Boot_Handoff.thy ===== *)
theory Boot_Handoff
  imports Boot_Screen Boot_File Kernel
begin

unbundle bit_operations_syntax

text \<open>
  The end of \<open>efi_main\<close> in \<open>bootloader/uefi.c\<close>: the \<open>BootInfo\<close> block, the memory map and leaving the boot services, with the one
  retry. What the firmware answers is an argument.

  The lemmas show that the kernel is entered only with the size of the memory map whose key the firmware accepted, and when
  \<open>kernel_main\<close> accepts the block.
\<close>

section \<open>The code\<close>

text \<open>The graphics output: framebuffer and active mode.\<close>

record gop_mode =
  gop_FrameBufferBase :: u64
  gop_FrameBufferSize :: u64
  gop_Info :: mode_info

definition make_boot_info :: "gop_mode \<Rightarrow> u64 \<Rightarrow> u64 \<Rightarrow> loader \<Rightarrow> u64 \<Rightarrow> u64 \<Rightarrow> u64 \<Rightarrow> BootInfo" where
  "make_boot_info gop ramdisk_addr ramdisk_size ld MemoryMap MemoryMapSize DescriptorSize =
     \<lparr>magic = BOOTINFOMAGIC, framebuffer_base = gop_FrameBufferBase gop, framebuffer_size = gop_FrameBufferSize gop,
      width = HorizontalResolution (gop_Info gop), height = VerticalResolution (gop_Info gop),
      pixels_per_scanline = PixelsPerScanLine (gop_Info gop),
      framebuffer_pixel_format = format_code (PixelFormat (gop_Info gop)),
      memory_map = MemoryMap, memory_map_size = MemoryMapSize, memory_descriptor_size = DescriptorSize,
      kernel_physical_address = kernel_phys_start ld, kernel_physical_address_start = kernel_phys_start ld,
      kernel_physical_address_end = kernel_phys_end ld, kernel_virtual_address = kernel_virt_start ld,
      kernel_size = kernel_virt_end ld - kernel_virt_start ld,
      initramfs_address = ramdisk_addr, initramfs_size = ramdisk_size\<rparr>"

text \<open>
  \<open>AllocatePages(AllocateMaxAddress, pages)\<close> for the block and for the map, call \<open>n\<close> of \<open>GetMemoryMap\<close> with the capacity it is given
  (status, size, key and size of a descriptor), and call \<open>n\<close> of \<open>ExitBootServices\<close>.
\<close>

record exit_service =
  info_pages :: "u64 \<Rightarrow> EFI_STATUS \<times> u64"
  map_pages :: "u64 \<Rightarrow> EFI_STATUS \<times> u64"
  get_memory_map :: "nat \<Rightarrow> u64 \<Rightarrow> EFI_STATUS \<times> u64 \<times> u64 \<times> u64"
  exit_status :: "nat \<Rightarrow> u64 \<Rightarrow> EFI_STATUS"

text \<open>\<open>ExitBootServices\<close> and the retry with a fresh map in the same buffer; \<open>None\<close> is \<open>goto panic\<close>.\<close>

definition exit_boot :: "exit_service \<Rightarrow> u64 \<Rightarrow> u64 \<Rightarrow> BootInfo \<Rightarrow> BootInfo option" where
  "exit_boot fw MemoryMapCapacity MapKey boot =
     (if EFI_ERROR (exit_status fw 0 MapKey) then
        let (Status, MemoryMapSize, MapKey, DescriptorSize) = get_memory_map fw 2 MemoryMapCapacity
        in if EFI_ERROR Status then None
           else
             let boot = boot\<lparr>memory_map_size := MemoryMapSize, memory_descriptor_size := DescriptorSize\<rparr>
             in if EFI_ERROR (exit_status fw 1 MapKey) then None else Some boot
      else Some boot)"

text \<open>The block is 120 bytes long; the result is its address and contents when the kernel is entered.\<close>

definition hand_over :: "exit_service \<Rightarrow> gop_mode \<Rightarrow> u64 \<Rightarrow> u64 \<Rightarrow> loader \<Rightarrow> (u64 \<times> BootInfo) option" where
  "hand_over fw gop ramdisk_addr ramdisk_size ld =
     (let (Status, bootInfoAddr) = info_pages fw (EFI_SIZE_TO_PAGES 120)
      in if EFI_ERROR Status then None
         else
           let (Status, MemoryMapSize, MapKey, DescriptorSize) = get_memory_map fw 0 0
           in if Status \<noteq> EFI_BUFFER_TOO_SMALL then None
              else
                let MemoryMapCapacity = MemoryMapSize + DescriptorSize * 8;
                    (Status, MemoryMap) = map_pages fw (EFI_SIZE_TO_PAGES MemoryMapCapacity)
                in if EFI_ERROR Status then None
                   else
                     let (Status, MemoryMapSize, MapKey, DescriptorSize) = get_memory_map fw 1 MemoryMapCapacity
                     in if EFI_ERROR Status then None
                        else map_option (Pair bootInfoAddr)
                               (exit_boot fw MemoryMapCapacity MapKey
                                  (make_boot_info gop ramdisk_addr ramdisk_size ld MemoryMap MemoryMapSize DescriptorSize)))"

section \<open>What the kernel gets\<close>

text \<open>The map passed on is one whose key the firmware accepted, so it was not changed since it was read.\<close>

lemma hand_over_map:
  assumes "hand_over fw gop ra rs ld = Some (addr, boot)"
  shows "\<exists>n j cap st key. get_memory_map fw n cap = (st, memory_map_size boot, key, memory_descriptor_size boot) \<and>
    \<not> EFI_ERROR st \<and> \<not> EFI_ERROR (exit_status fw j key)"
  using assms
  by (auto simp: hand_over_def exit_boot_def make_boot_info_def Let_def split: prod.splits if_splits) blast+

lemma hand_over_fields:
  assumes "hand_over fw gop ra rs ld = Some (addr, boot)"
  shows "\<exists>mm ms md. boot = make_boot_info gop ra rs ld mm ms md"
    and "addr = snd (info_pages fw (EFI_SIZE_TO_PAGES 120))"
  using assms
  by (auto simp: hand_over_def exit_boot_def make_boot_info_def Let_def split: prod.splits if_splits)

lemma format_code_linear: "linear_format info \<Longrightarrow> format_code (PixelFormat info) \<le> 1"
  by (auto simp: linear_format_def format_code_def split: pixel_format.splits)

text \<open>
  Together with the mode \<open>gop_pick\<close> sets for a described monitor and a ramdisk that \<open>load_file\<close> has read, the checks of
  \<open>kernel_main\<close> pass: what is left to the firmware is that the framebuffer has an address and a size.
\<close>

lemma hand_over_accepted:
  assumes "hand_over fw gop 0x300000 rs ld = Some (addr, boot)" and "addr \<noteq> 0"
    and "gop_pick query n active edid = Some c" and "parse_edid edid \<noteq> No_Edid" and "snd (query c) = gop_Info gop"
    and "gop_FrameBufferBase gop \<noteq> 0" and "HorizontalResolution (gop_Info gop) \<noteq> 0" and "VerticalResolution (gop_Info gop) \<noteq> 0"
    and "rs \<noteq> 0"
  shows "boot_problem addr boot = None"
proof -
  obtain info where "query c = (fst (query c), info)" "linear_format info"
    using gop_pick_linear [OF assms(3,4)] by blast
  then have "linear_format (gop_Info gop)" using assms(5) by (metis snd_conv)
  moreover obtain mm ms md where "boot = make_boot_info gop 0x300000 rs ld mm ms md"
    using hand_over_fields(1) [OF assms(1)] by blast
  ultimately show ?thesis
    unfolding boot_problem_None using assms format_code_linear by (simp add: make_boot_info_def)
qed

text \<open>Without a monitor description the loader passes on whatever format the active mode has.\<close>

lemma hand_over_refused:
  assumes "hand_over fw gop ra rs ld = Some (addr, boot)" and "\<not> linear_format (gop_Info gop)"
  shows "boot_problem addr boot \<noteq> None"
proof -
  have "\<not> format_code (PixelFormat (gop_Info gop)) \<le> 1"
    using assms(2) by (auto simp: linear_format_def format_code_def word_le_nat_alt split: pixel_format.splits)
  then have "\<not> framebuffer_pixel_format boot \<le> 1"
    using hand_over_fields(1) [OF assms(1)] by (auto simp: make_boot_info_def)
  then show ?thesis using boot_problem_None by blast
qed

end
