(* ===== verification/Boot_Text.thy ===== *)
theory Boot_Text
  imports Boot_Map Stdio
begin

unbundle bit_operations_syntax

text \<open>
  The text routines of \<open>bootloader/uefi.c\<close>: the serial port, 16-bit strings and numbers, the names of processors, PCI vendors
  and status codes. What goes to the console is the list of strings given to \<open>OutputString\<close>. A C string is a list that
  contains its NUL; an array that is filled is a list of its length, and a store outside of it is \<open>None\<close>.

  The lemmas show that numbers are printed in full, that comparing strings decides equality, and which
  processor names can be recognised.
\<close>

section \<open>The serial port\<close>

type_synonym u16str = "u16 list"

definition serial_putchar16 :: "u8 \<Rightarrow> (u16 \<times> u8) list" where
  "serial_putchar16 c = [(0x3F8, c)]"

text \<open>The bytes that are written to ports.\<close>

definition boot_serial_print :: "u8 list \<Rightarrow> (u16 \<times> u8) list" where
  "boot_serial_print str = concat (map serial_putchar16 (takeWhile (\<lambda>c. c \<noteq> 0) str))"

text \<open>The loop fills its buffer from the end.\<close>

primrec hex_fill :: "nat \<Rightarrow> u64 \<Rightarrow> u8 list \<Rightarrow> u8 list" where
  "hex_fill 0 val buffer = buffer"
| "hex_fill (Suc n) val buffer = hex_fill n (drop_bit 4 val) (hex_char (val AND 0xF) # buffer)"

definition boot_serial_print_hex :: "u64 \<Rightarrow> (u16 \<times> u8) list" where
  "boot_serial_print_hex val =
     boot_serial_print ([48, 120] @ hex_fill 16 val [0]) @ serial_putchar16 10"

section \<open>Strings\<close>

definition L :: "char list \<Rightarrow> u16str" where
  "L s = map of_char s"

text \<open>Both strings contain a NUL; reading behind the end is \<open>None\<close>.\<close>

fun strcmp16 :: "u16str \<Rightarrow> u16str \<Rightarrow> int option" where
  "strcmp16 (x # xs) (y # ys) = (if x \<noteq> 0 \<and> x = y then strcmp16 xs ys else Some (uint x - uint y))"
| "strcmp16 _ _ = None"

definition isCPUVMArray :: "(u16str \<times> nat) list" where
  "isCPUVMArray =
     [(L ''AuthenticAMD'', 0), (L ''AMDisbetter!'', 0), (L ''GenuineIntel'', 0), (L ''VIAVIAVIA'', 0),
      (L ''GenuineTMx86'', 0), (L ''TransmetaCPU'', 0), (L ''CyrixInstead'', 0), (L ''CentaurHauls'', 0),
      (L ''NexGenDriven'', 0), (L ''UMCUMCUMC'', 0), (L ''SiSSiSSiS'', 0), (L ''GeodebyNSC'', 0),
      (L ''RiseRiseRise'', 0), (L ''Vortex86SoC'', 0), (L ''MiSTerAO486'', 0), (L ''GenuineAO486'', 0),
      (L ''Shanghai'', 0), (L ''HygonGenuine'', 0), (L ''E2K MACHINE '', 0),
      (L ''TCGTCGTCGTCG'', 1), (L ''KVMKVMKVM'', 1), (L ''VMwareVMware'', 1), (L ''VBoxVBoxVBox'', 1),
      (L ''XenVMMXenVMM'', 1), (L ''MicrosoftHv'', 1), (L ''prlhyperv'', 1), (L ''lrpepyhvr'', 1),
      (L ''bhyvebhyve'', 1), (L ''QNXQVMBSQG'', 1)]"

fun isCPUVM_loop :: "(u16str \<times> nat) list \<Rightarrow> u16str \<Rightarrow> nat option" where
  "isCPUVM_loop [] str = Some 2"
| "isCPUVM_loop ((name, is) # rest) str =
     (case strcmp16 str (name @ [0]) of
        None \<Rightarrow> None
      | Some d \<Rightarrow> if d = 0 then Some is else isCPUVM_loop rest str)"

definition isCPUVM :: "u16str \<Rightarrow> nat option" where
  "isCPUVM str = isCPUVM_loop isCPUVMArray str"

lemma counter_distance:
  assumes "(i :: u64) < m"
  shows "unat (i + 1) = unat i + 1" and "unat (m - (i + 1)) < unat (m - i)"
proof -
  have "unat i < unat m" using assms by (simp add: word_less_nat_alt)
  then show "unat (i + 1) = unat i + 1" using u64_less_wrap [of m] by simp
  then show "unat (m - (i + 1)) < unat (m - i)"
    using \<open>unat i < unat m\<close> by (simp add: unat_sub_if_size word_le_nat_alt)
qed

lemma counter_distance_pred: "i < n - 1 \<Longrightarrow> unat (n - i - 2) < unat (n - 1 - i :: u64)"
  using counter_distance(2) [of i "n - 1"] by (simp add: algebra_simps)

text \<open>The stores of \<open>ascii_to_char16\<close> from index \<open>i\<close> on; characters are signed.\<close>

function ascii_loop :: "u8 list \<Rightarrow> u64 \<Rightarrow> u64 \<Rightarrow> u16str \<Rightarrow> u16str option" where
  "ascii_loop src i max_len dst =
     (if i < max_len - 1 then
        if length src \<le> unat i then None
        else if src ! unat i = 0 then if unat i < length dst then Some (dst[unat i := 0]) else None
        else if unat i < length dst then ascii_loop src (i + 1) max_len (dst[unat i := scast (src ! unat i)]) else None
      else if unat i < length dst then Some (dst[unat i := 0]) else None)"
  by pat_completeness auto
termination
  by (relation "measure (\<lambda>(src, i, max_len, dst). unat (max_len - 1 - i))")
    (auto intro: counter_distance_pred)

declare ascii_loop.simps [simp del]

definition ascii_to_char16 :: "u8 list \<Rightarrow> u16str \<Rightarrow> u64 \<Rightarrow> u16str option" where
  "ascii_to_char16 src dst max_len = ascii_loop src 0 max_len dst"

text \<open>\<open>decimalConvert\<close>: the digits from the last on, then the reversal in place.\<close>

function decimal_loop :: "u64 \<Rightarrow> u64 \<Rightarrow> u64 \<Rightarrow> u16str \<Rightarrow> (u64 \<times> u16str) option" where
  "decimal_loop n pos buf_size buf =
     (if buf_size - 1 \<le> pos then Some (pos, buf)
      else if length buf \<le> unat pos then None
      else
        let buf = buf[unat pos := 48 + ucast (n mod 10)]; n = n div 10
        in if n = 0 then Some (pos + 1, buf) else decimal_loop n (pos + 1) buf_size buf)"
  by pat_completeness auto
termination
  by (relation "measure (\<lambda>(n, pos, buf_size, buf). unat n)") (auto simp: unat_div word_neq_0_conv word_less_nat_alt)

declare decimal_loop.simps [simp del]

definition reverse_prefix :: "u64 \<Rightarrow> u16str \<Rightarrow> u16str" where
  "reverse_prefix pos buf = for_u64 (pos div 2) (\<lambda>i buf.
     let t = buf ! unat i; buf = buf[unat i := buf ! unat (pos - 1 - i)] in buf[unat (pos - 1 - i) := t]) buf"

definition decimalConvert :: "u64 \<Rightarrow> u16str \<Rightarrow> u64 \<Rightarrow> u16str option" where
  "decimalConvert n buf buf_size =
     (if buf_size = 0 then Some buf
      else case decimal_loop n 0 buf_size buf of
             None \<Rightarrow> None
           | Some (pos, buf) \<Rightarrow> if length buf \<le> unat pos then None else Some (reverse_prefix pos (buf[unat pos := 0])))"


section \<open>Names\<close>

definition pci_vendors :: "(u16 \<times> u8 list) list" where
  "pci_vendors = [(0x8086, map of_char ''Intel''), (0x10DE, map of_char ''NVIDIA''), (0x1002, map of_char ''AMD''),
     (0x1022, map of_char ''AMD''), (0x1234, map of_char ''QEMU VGA''), (0x1AF4, map of_char ''VirtIO''),
     (0x1B36, map of_char ''Red Hat'')]"

text \<open>The name and whether \<open>status\<close> was set.\<close>

definition pci_vendor_name :: "u16 \<Rightarrow> u8 list \<times> bool" where
  "pci_vendor_name i = (case map_of pci_vendors i of Some name \<Rightarrow> (name, False) | None \<Rightarrow> (map of_char ''Unknown'', True))"

text \<open>The registers of \<open>cpuid\<close> stored as little-endian words.\<close>

definition word_bytes :: "u32 \<Rightarrow> u8 list" where
  "word_bytes w = [ucast w, ucast (drop_bit 8 w), ucast (drop_bit 16 w), ucast (drop_bit 24 w)]"

definition get_cpu_vendor :: "(u32 \<Rightarrow> u32 \<times> u32 \<times> u32 \<times> u32) \<Rightarrow> u8 list" where
  "get_cpu_vendor cpuid = (case cpuid 0 of (eax, ebx, ecx, edx) \<Rightarrow> word_bytes ebx @ word_bytes edx @ word_bytes ecx @ [0])"

definition get_cpu_brand :: "(u32 \<Rightarrow> u32 \<times> u32 \<times> u32 \<times> u32) \<Rightarrow> u8 list" where
  "get_cpu_brand cpuid =
     concat (map (\<lambda>i. case cpuid (0x80000002 + i) of (eax, ebx, ecx, edx) \<Rightarrow>
       word_bytes eax @ word_bytes ebx @ word_bytes ecx @ word_bytes edx) [0, 1, 2]) @ [0]"

definition vendor_to_char16 :: "u8 list \<Rightarrow> u16str" where
  "vendor_to_char16 vendor = map (\<lambda>i. if vendor ! i = 0 then 32 else scast (vendor ! i)) [0..<12] @ [0]"

definition efi_status_char16 :: "(EFI_STATUS \<times> u16str) list" where
  "efi_status_char16 = map (\<lambda>(name, code). (0x8000000000000000 OR code, L name))
     [(''EFI_LOAD_ERROR'', 1), (''EFI_INVALID_PARAMETER'', 2), (''EFI_UNSUPPORTED'', 3), (''EFI_BAD_BUFFER_SIZE'', 4),
      (''EFI_BUFFER_TOO_SMALL'', 5), (''EFI_NOT_READY'', 6), (''EFI_DEVICE_ERROR'', 7), (''EFI_WRITE_PROTECTED'', 8),
      (''EFI_OUT_OF_RESOURCES'', 9), (''EFI_VOLUME_CORRUPTED'', 10), (''EFI_VOLUME_FULL'', 11), (''EFI_NO_MEDIA'', 12),
      (''EFI_MEDIA_CHANGED'', 13), (''EFI_NOT_FOUND'', 14), (''EFI_ACCESS_DENIED'', 15), (''EFI_NO_RESPONSE'', 16),
      (''EFI_NO_MAPPING'', 17), (''EFI_TIMEOUT'', 18), (''EFI_NOT_STARTED'', 19), (''EFI_ALREADY_STARTED'', 20),
      (''EFI_ABORTED'', 21), (''EFI_ICMP_ERROR'', 22), (''EFI_TFTP_ERROR'', 23), (''EFI_PROTOCOL_ERROR'', 24),
      (''EFI_INCOMPATIBLE_VERSION'', 25), (''EFI_SECURITY_VIOLATION'', 26), (''EFI_CRC_ERROR'', 27),
      (''EFI_END_OF_MEDIA'', 28), (''EFI_END_OF_FILE'', 31), (''EFI_INVALID_LANGUAGE'', 32),
      (''EFI_COMPROMISED_DATA'', 33), (''EFI_IP_ADDRESS_CONFLICT'', 34), (''EFI_HTTP_ERROR'', 35)]"

section \<open>The console\<close>

text \<open>The strings given to \<open>OutputString\<close>, the new one last; a string from an array ends at its NUL.\<close>

definition uefi_print :: "u16str \<Rightarrow> u16str list \<Rightarrow> u16str list" where
  "uefi_print str out = out @ [takeWhile (\<lambda>c. c \<noteq> 0) str]"

definition CRLF :: u16str where "CRLF = [13, 10]"

definition uefi_println :: "u16str \<Rightarrow> u16str list \<Rightarrow> u16str list" where
  "uefi_println str out = uefi_print CRLF (uefi_print str out)"

text \<open>Local arrays of unknown contents are arguments.\<close>

definition uefi_status_print :: "u16str \<Rightarrow> EFI_STATUS \<Rightarrow> u16str list \<Rightarrow> u16str list option" where
  "uefi_status_print buf stat out =
     (case map_of efi_status_char16 stat of
        Some name \<Rightarrow> Some (uefi_print name out)
      | None \<Rightarrow> map_option (\<lambda>buf. uefi_print buf (uefi_print (L ''EFI_STATUS_UNKNOWN: '') out)) (decimalConvert stat buf 32))"

definition uefi_status_println :: "u16str \<Rightarrow> EFI_STATUS \<Rightarrow> u16str list \<Rightarrow> u16str list option" where
  "uefi_status_println buf stat out =
     (case map_of efi_status_char16 stat of
        Some name \<Rightarrow> Some (uefi_print CRLF (uefi_print name out))
      | None \<Rightarrow> map_option (\<lambda>buf. uefi_print CRLF (uefi_print buf (uefi_print (L ''EFI_STATUS_UNKNOWN: '') out)))
                  (decimalConvert stat buf 32))"

primrec hex_fill16 :: "nat \<Rightarrow> u64 \<Rightarrow> u16str \<Rightarrow> u16str" where
  "hex_fill16 0 val buffer = buffer"
| "hex_fill16 (Suc n) val buffer =
     hex_fill16 n (drop_bit 4 val) (L ''0123456789ABCDEF'' ! unat (val AND 0xF) # buffer)"

definition uefi_print_hex :: "u64 \<Rightarrow> u16str list \<Rightarrow> u16str list" where
  "uefi_print_hex val = uefi_println ([48, 120] @ hex_fill16 16 val [0])"

section \<open>Hexadecimal numbers\<close>

lemma hex_fill_eq: "hex_fill n val buffer = rev (map (\<lambda>i. hex_char (drop_bit (4 * i) val AND 0xF)) [0..<n]) @ buffer"
proof (induction n arbitrary: val buffer)
  case (Suc n)
  have "map (\<lambda>i. hex_char (drop_bit (4 * i) val AND 0xF)) [0..<Suc n] =
      hex_char (val AND 0xF) # map (\<lambda>i. hex_char (drop_bit (4 * i) (drop_bit 4 val) AND 0xF)) [0..<n]"
    by (simp only: map_upt_Suc drop_bit_drop_bit mult_Suc_right add.commute) simp
  with Suc show ?case by simp
qed simp

lemma hex_char_nonzero: "hex_char (drop_bit (4 * i) w AND 0xF) \<noteq> 0"
proof -
  define d where "d = unat w div 16 ^ i mod 16"
  have "d < 16" by (simp add: d_def)
  then have "unat (word_of_nat (if d < 10 then 48 + d else 55 + d) :: u8) \<noteq> 0"
    by (simp add: unat_of_nat take_bit_nat_eq_self del: of_nat_add)
  then have "(word_of_nat (if d < 10 then 48 + d else 55 + d) :: u8) \<noteq> 0"
    by (metis unat_0)
  then show ?thesis unfolding hex_char_nibble(2) Let_def d_def .
qed

text \<open>The boot loader writes the same text as \<open>serial_print_hex\<close> of the kernel.\<close>

lemma boot_serial_print_hex_text:
  "boot_serial_print_hex val = map (\<lambda>c. (0x3F8, c)) (uint64_to_hex val @ [10])"
proof -
  have tw: "takeWhile P (xs @ [z]) = xs" if "\<forall>x \<in> set xs. P x" "\<not> P z" for P :: "u8 \<Rightarrow> bool" and xs z
    using that by simp
  have single: "concat (map serial_putchar16 xs) = map (\<lambda>c. (0x3F8, c)) xs" for xs
    by (induction xs) (simp_all add: serial_putchar16_def)
  let ?ds = "rev (map (\<lambda>i. hex_char (drop_bit (4 * i) val AND 0xF)) [0..<16])"
  have "takeWhile (\<lambda>c. c \<noteq> 0) (([48, 120] @ ?ds) @ [0]) = [48, 120] @ ?ds"
    by (rule tw) (auto simp: hex_char_nonzero)
  then have "boot_serial_print ([48, 120] @ hex_fill 16 val [0]) = map (\<lambda>c. (0x3F8, c)) (uint64_to_hex val)"
    unfolding boot_serial_print_def hex_fill_eq uint64_to_hex_def append_assoc by (simp only: single)
  then show ?thesis by (simp add: boot_serial_print_hex_def serial_putchar16_def)
qed

section \<open>Comparing names\<close>

lemma strcmp16_equal:
  "0 \<notin> set xs \<Longrightarrow> 0 \<notin> set ys \<Longrightarrow> \<exists>d. strcmp16 (xs @ [0]) (ys @ [0]) = Some d \<and> (d = 0 \<longleftrightarrow> xs = ys)"
proof (induction xs ys rule: list_induct2')
  case (4 x xs y ys)
  then show ?case by (cases "x = y") (auto simp: word_uint_eq_iff)
qed (auto simp: word_uint_eq_iff [of _ 0])

lemma isCPUVM_loop_lookup:
  "0 \<notin> set s \<Longrightarrow> \<forall>(name, k) \<in> set tab. 0 \<notin> set name \<Longrightarrow>
   isCPUVM_loop tab (s @ [0]) = Some (case map_of tab s of Some k \<Rightarrow> k | None \<Rightarrow> 2)"
proof (induction tab)
  case (Cons e tab)
  obtain name k where e: "e = (name, k)" by force
  obtain d where "strcmp16 (s @ [0]) (name @ [0]) = Some d" "d = 0 \<longleftrightarrow> s = name"
    using strcmp16_equal [of s name] Cons.prems e by auto
  then show ?case using Cons e by auto
qed simp

lemma isCPUVMArray_names: "\<forall>(name, k) \<in> set isCPUVMArray. 0 \<notin> set name"
  unfolding isCPUVMArray_def by code_simp

lemma isCPUVM_lookup:
  "0 \<notin> set s \<Longrightarrow> isCPUVM (s @ [0]) = Some (case map_of isCPUVMArray s of Some k \<Rightarrow> k | None \<Rightarrow> 2)"
  unfolding isCPUVM_def by (rule isCPUVM_loop_lookup [OF _ isCPUVMArray_names])

lemma scast_nonzero: "(c :: u8) \<noteq> 0 \<Longrightarrow> (scast c :: u16) \<noteq> 0"
proof
  assume c: "c \<noteq> 0" and z: "(scast c :: u16) = 0"
  have "c = ucast (scast c :: u16)" by (rule bit_word_eqI) (auto simp: bit_simps)
  then show False using c z by simp
qed

text \<open>Vendor names are padded to twelve characters, so no shorter name of the table is ever found.\<close>

lemma vendor_found_length:
  assumes "isCPUVM (vendor_to_char16 v) = Some k" and "k \<noteq> 2"
  shows "\<exists>name. (name, k) \<in> set isCPUVMArray \<and> length name = 12"
proof -
  let ?s = "map (\<lambda>i. if v ! i = 0 then 32 else scast (v ! i)) [0..<12] :: u16str"
  have nz: "0 \<notin> set ?s" by (auto simp: scast_nonzero dest: sym)
  have "Some k = Some (case map_of isCPUVMArray ?s of Some k \<Rightarrow> k | None \<Rightarrow> 2)"
    by (rule trans [OF assms(1) [symmetric, unfolded vendor_to_char16_def] isCPUVM_lookup [OF nz]])
  then have "map_of isCPUVMArray ?s = Some k" using assms(2) by (auto split: option.splits)
  then have "(?s, k) \<in> set isCPUVMArray" by (rule map_of_SomeD)
  moreover have "length ?s = 12" by simp
  ultimately show ?thesis by blast
qed

lemma kvm_not_found: "isCPUVM (vendor_to_char16 (map of_char ''KVMKVMKVM'' @ [0, 0, 0, 0])) = Some 2"
  by code_simp

lemma status_names_distinct: "distinct (map fst efi_status_char16)"
  by code_simp

section \<open>Decimal numbers\<close>

definition dec_text16 :: "nat \<Rightarrow> u16str" where
  "dec_text16 n = map ucast (dec_text n)"

lemma dec_text16_unfold:
  "dec_text16 n = (if n < 10 then [] else dec_text16 (n div 10)) @ [word_of_nat (48 + n mod 10)]"
proof -
  have "48 + n mod 10 < 256" using mod_less_divisor [of 10 n] by linarith
  then have "ucast (word_of_nat (48 + n mod 10) :: u8) = (word_of_nat (48 + n mod 10) :: u16)"
    by (simp add: word_unat_eq_iff unsigned_ucast_eq unat_of_nat take_bit_nat_eq_self del: of_nat_add)
  then show ?thesis
    unfolding dec_text16_def by (subst dec_text.simps) (simp del: of_nat_add)
qed

lemma digit16: "48 + ucast (n mod 10 :: u64) = (word_of_nat (48 + unat n mod 10) :: u16)"
proof -
  have "ucast (n mod 10) = (word_of_nat (unat (n mod 10)) :: u16)" by simp
  then show ?thesis by (simp add: unat_mod)
qed

lemma decimal_loop_text:
  "unat pos + length (dec_text16 (unat n)) < unat buf_size \<Longrightarrow> unat pos + length (dec_text16 (unat n)) \<le> length buf \<Longrightarrow>
   decimal_loop n pos buf_size buf = Some (pos + word_of_nat (length (dec_text16 (unat n))),
     take (unat pos) buf @ rev (dec_text16 (unat n)) @ drop (unat pos + length (dec_text16 (unat n))) buf)"
proof (induction n pos buf_size buf rule: decimal_loop.induct)
  case (1 n pos buf_size buf)
  let ?d = "48 + ucast (n mod 10) :: u16"
  have D: "dec_text16 (unat n) = (if unat n < 10 then [] else dec_text16 (unat n div 10)) @ [?d]"
    unfolding digit16 by (rule dec_text16_unfold)
  have u: "unat pos + 1 < unat buf_size" "unat pos < length buf" using 1(2,3) D by auto
  then have go: "\<not> buf_size - 1 \<le> pos" by (simp add: word_le_nat_alt unat_sub_if_size)
  have up: "unat (pos + 1) = unat pos + 1" using u(1) u64_less_wrap [of buf_size] by simp
  have small: "unat n < 10 \<longleftrightarrow> n div 10 = 0"
    unfolding u64_eq_iff_unat unat_div by (simp add: div_eq_0_iff)
  have tk: "take (Suc (unat pos)) (buf[unat pos := ?d]) = take (unat pos) buf @ [?d]"
    using u(2) by (simp add: take_Suc_conv_app_nth)
  show ?case
  proof (cases "n div 10 = 0")
    case True
    then have D1: "dec_text16 (unat n) = [?d]" using D small by simp
    have "decimal_loop n pos buf_size buf = Some (pos + 1, buf[unat pos := ?d])"
      using go u(2) True by (subst decimal_loop.simps) (simp add: Let_def)
    then show ?thesis using u(2) unfolding D1 by (simp add: upd_conv_take_nth_drop)
  next
    case False
    let ?E = "dec_text16 (unat (n div 10))"
    have D1: "dec_text16 (unat n) = ?E @ [?d]" using D small False by (simp add: unat_div)
    have run: "decimal_loop n pos buf_size buf = decimal_loop (n div 10) (pos + 1) buf_size (buf[unat pos := ?d])"
      using go u(2) False by (subst decimal_loop.simps) (simp add: Let_def)
    have IH: "decimal_loop (n div 10) (pos + 1) buf_size (buf[unat pos := ?d]) =
        Some (pos + 1 + word_of_nat (length ?E),
          take (unat pos + 1) (buf[unat pos := ?d]) @ rev ?E @ drop (unat pos + 1 + length ?E) (buf[unat pos := ?d]))"
      using 1(1) [OF go _ refl refl False] u(2) 1(2,3) unfolding D1 by (simp add: up)
    show ?thesis unfolding run IH D1 using tk by (simp add: add.assoc)
  qed
qed

lemma reverse_prefix_rev:
  assumes "unat pos \<le> length buf"
  shows "reverse_prefix pos buf = rev (take (unat pos) buf) @ drop (unat pos) buf"
proof -
  let ?p = "unat pos"
  let ?swapped = "\<lambda>k j. if j < k \<or> (?p - k \<le> j \<and> j < ?p) then buf ! (?p - 1 - j) else buf ! j"
  let ?P = "\<lambda>k b. length b = length buf \<and> (\<forall>j < length buf. b ! j = ?swapped k j)"
  have "?P (unat (pos div 2)) (reverse_prefix pos buf)"
    unfolding reverse_prefix_def
  proof (rule for_u64_invariant [where P = ?P])
    fix i b
    assume i: "i < unat (pos div 2)" and b: "?P i b"
    have i2: "i < ?p div 2" using i by (simp add: unat_div)
    then have ip: "i < ?p - 1 - i" "?p - 1 - i < length buf" "i < length buf" using assms by linarith+
    have w: "unat (word_of_nat i :: u64) = i" "unat (pos - 1 - word_of_nat i) = ?p - 1 - i"
    proof -
      show w1: "unat (word_of_nat i :: u64) = i"
        using i2 u64_less_wrap [of pos] by (simp add: unat_of_nat take_bit_nat_eq_self)
      show "unat (pos - 1 - word_of_nat i) = ?p - 1 - i"
        using i2 w1 by (simp add: unat_sub_if_size word_le_nat_alt)
    qed
    have "b[i := b ! (?p - 1 - i), ?p - 1 - i := b ! i] ! j = ?swapped (Suc i) j" if "j < length buf" for j
      using b ip i2 that by (auto simp: nth_list_update)
    then show "?P (Suc i) (let t = b ! unat (word_of_nat i :: u64);
        buf = b[unat (word_of_nat i :: u64) := b ! unat (pos - 1 - word_of_nat i)]
      in buf[unat (pos - 1 - word_of_nat i) := t])"
      using b unfolding w Let_def by simp
  qed auto
  then have len: "length (reverse_prefix pos buf) = length buf"
    and nth: "\<And>j. j < length buf \<Longrightarrow> reverse_prefix pos buf ! j = ?swapped (?p div 2) j"
    by (simp_all add: unat_div)
  show ?thesis
  proof (rule nth_equalityI)
    fix j assume "j < length (reverse_prefix pos buf)"
    then have j: "j < length buf" using len by simp
    have "\<not> j < ?p div 2 \<Longrightarrow> \<not> ?p - ?p div 2 \<le> j \<Longrightarrow> j < ?p \<Longrightarrow> j = ?p - 1 - j" by linarith
    then show "reverse_prefix pos buf ! j = (rev (take ?p buf) @ drop ?p buf) ! j"
      using nth [OF j] j assms by (auto simp: nth_append rev_nth)
  qed (use len assms in simp)
qed

text \<open>With room for all digits and the NUL the text of the number is stored.\<close>

lemma decimalConvert_text:
  assumes "length (dec_text16 (unat n)) < unat buf_size" and "length (dec_text16 (unat n)) < length buf"
  shows "decimalConvert n buf buf_size =
    Some (dec_text16 (unat n) @ [0] @ drop (length (dec_text16 (unat n)) + 1) buf)"
proof -
  let ?D = "dec_text16 (unat n)"
  have len: "unat (word_of_nat (length ?D) :: u64) = length ?D"
    using assms(1) u64_less_wrap [of buf_size] by (simp add: unat_of_nat take_bit_nat_eq_self)
  have loop: "decimal_loop n 0 buf_size buf = Some (word_of_nat (length ?D), rev ?D @ drop (length ?D) buf)"
    using decimal_loop_text [of 0 n buf_size buf] assms by simp
  have upd: "(rev ?D @ drop (length ?D) buf)[length ?D := 0] = rev ?D @ [0] @ drop (length ?D + 1) buf"
    using assms(2) by (simp add: list_update_append Cons_nth_drop_Suc [symmetric])
  have sz: "buf_size \<noteq> 0" using assms(1) by auto
  show ?thesis
    using assms(2) sz
    by (simp add: decimalConvert_def loop len upd reverse_prefix_rev del: append_assoc)
qed

text \<open>Twenty digits are enough for every 64-bit number.\<close>

lemma length_dec_text16: "n < 10 ^ k \<Longrightarrow> 0 < k \<Longrightarrow> length (dec_text16 n) \<le> k"
proof (induction k arbitrary: n)
  case (Suc k)
  show ?case
  proof (cases "n < 10")
    case True
    then show ?thesis by (subst dec_text16_unfold) simp
  next
    case False
    then have "0 < k" using Suc.prems(1) by (cases k) auto
    moreover have "n div 10 < 10 ^ k" using Suc.prems(1) by (simp add: less_mult_imp_div_less mult.commute)
    ultimately show ?thesis using Suc.IH [of "n div 10"] False by (subst dec_text16_unfold) simp
  qed
qed simp

end
