(* ===== verification/Boot_Console.thy ===== *)
theory Boot_Console
  imports Boot_Text Boot_Screen
begin

unbundle bit_operations_syntax

text \<open>
  The reports \<open>efi_main\<close> in \<open>bootloader/uefi.c\<close> writes to the console: processor, PCI devices, graphics outputs and graphics modes.
  \<open>junk\<close> is what local arrays hold before they are written; \<open>None\<close> is a store outside of an array.

  The lemmas show that every array is large enough for what is stored into it.
\<close>

section \<open>The code\<close>

definition local_array :: "(nat \<Rightarrow> u16) \<Rightarrow> nat \<Rightarrow> u16str" where
  "local_array junk n = map junk [0..<n]"

text \<open>\<open>decimalConvert\<close> into a local array of \<open>len\<close> elements, then \<open>OutputString\<close>.\<close>

definition print_decimal :: "(nat \<Rightarrow> u16) \<Rightarrow> nat \<Rightarrow> u64 \<Rightarrow> u64 \<Rightarrow> u16str list \<Rightarrow> u16str list option" where
  "print_decimal junk len buf_size n out =
     map_option (\<lambda>buf. uefi_print buf out) (decimalConvert n (local_array junk len) buf_size)"

definition pixel_name :: "pixel_format \<Rightarrow> u16str" where
  "pixel_name f = (case f of
       PixelRedGreenBlueReserved8BitPerColor \<Rightarrow> L ''PixelRedGreenBlueReserved8BitPerColor''
     | PixelBlueGreenRedReserved8BitPerColor \<Rightarrow> L ''PixelBlueGreenRedReserved8BitPerColor''
     | PixelBitMask \<Rightarrow> L ''PixelBitMask'' | PixelBltOnly \<Rightarrow> L ''PixelBltOnly'' | PixelFormatMax \<Rightarrow> L ''PixelFormatMax'')"

text \<open>The version is a field of the mode that nothing else uses.\<close>

definition printGOPStats :: "(nat \<Rightarrow> u16) \<Rightarrow> u32 \<Rightarrow> mode_info \<Rightarrow> u16str list \<Rightarrow> u16str list option" where
  "printGOPStats junk version info out =
     Option.bind (decimalConvert (ucast version) (local_array junk 32) 32) (\<lambda>versionBuf.
     Option.bind (decimalConvert (ucast (HorizontalResolution info)) (local_array junk 32) 32) (\<lambda>HorizontalResolutionBuf.
     Option.bind (decimalConvert (ucast (VerticalResolution info)) (local_array junk 32) 32) (\<lambda>VerticalResolutionBuf.
     Option.bind (decimalConvert (ucast (PixelsPerScanLine info)) (local_array junk 128) 32) (\<lambda>PixelsPerScanLineBuf.
       let out = uefi_println (L ''M--------------------'') out;
           out = uefi_print (9 # L ''Version             :'') out;
           out = uefi_println versionBuf out;
           out = uefi_print (9 # L ''Resolution          :'') out;
           out = uefi_print HorizontalResolutionBuf out;
           out = uefi_print (L ''x'') out;
           out = uefi_println VerticalResolutionBuf out;
           out = uefi_print (9 # L ''Pixel per scanline  :'') out;
           out = uefi_println PixelsPerScanLineBuf out;
           out = uefi_print (9 # L ''Pixel formation     :'') out
       in Some (uefi_println (pixel_name (PixelFormat info)) out)))))"

text \<open>The processor: the new output and \<open>vendor16\<close>, which stays unwritten when \<open>cpuid\<close> is too old.\<close>

definition cpu_report :: "(nat \<Rightarrow> u16) \<Rightarrow> (u32 \<Rightarrow> u32 \<times> u32 \<times> u32 \<times> u32) \<Rightarrow> u16str list \<Rightarrow> (u16str list \<times> u16str) option" where
  "cpu_report junk cpuid out =
     (if fst (cpuid 0x80000000) < 0x80000004
      then Some (uefi_println (L ''CPUID is not supported.'') out, local_array junk 13)
      else
        let vendor16 = vendor_to_char16 (get_cpu_vendor cpuid);
            out = uefi_print CRLF (uefi_print vendor16 (uefi_print (L ''CPU Vendor string: '') out))
        in map_option (\<lambda>brand16. (uefi_print CRLF (uefi_print brand16 (uefi_print (L ''CPU: '') out)), vendor16))
             (ascii_to_char16 (get_cpu_brand cpuid) (local_array junk 64) 64))"

text \<open>One PCI device: the status of its protocol, and status and value of its vendor and its class.\<close>

record pci_device =
  pci_status :: EFI_STATUS
  pci_vendor :: "EFI_STATUS \<times> u16"
  pci_class :: "EFI_STATUS \<times> u32"

definition pci_report :: "(nat \<Rightarrow> u16) \<Rightarrow> pci_device \<Rightarrow> u16str list \<Rightarrow> u16str list option" where
  "pci_report junk d out =
     (if EFI_ERROR (pci_status d) then Some out
      else if EFI_ERROR (fst (pci_vendor d)) then Some out
      else
        let VendorId = snd (pci_vendor d)
        in if VendorId = 0 \<or> VendorId = 0xFFFF then Some out
           else if EFI_ERROR (fst (pci_class d)) then Some (uefi_println (L ''PCI read failed'') out)
           else
             let BaseClass = drop_bit 24 (snd (pci_class d)) AND 0xFF
             in if BaseClass \<noteq> 3 \<and> VendorId \<noteq> 0 then Some out
                else
                  let (name, unknown) = pci_vendor_name VendorId
                  in Option.bind (ascii_to_char16 (name @ [0]) (local_array junk 32) 32) (\<lambda>vendor_name.
                       let out = uefi_print vendor_name (uefi_print (L ''Found device: '') out)
                       in map_option (uefi_print CRLF)
                            (if unknown then print_decimal junk 25 25 (ucast VendorId) (uefi_print (L '' 0x'') out) else Some out)))"

fun pci_scan :: "(nat \<Rightarrow> u16) \<Rightarrow> pci_device list \<Rightarrow> u16str list \<Rightarrow> u16str list option" where
  "pci_scan junk [] out = Some out"
| "pci_scan junk (d # ds) out = Option.bind (pci_report junk d out) (pci_scan junk ds)"

section \<open>No report writes outside its arrays\<close>

lemma print_decimal_text:
  assumes "20 < len" and "20 < unat buf_size"
  shows "\<exists>buf. decimalConvert n (local_array junk len) buf_size = Some buf \<and> takeWhile (\<lambda>c. c \<noteq> 0) buf = dec_text16 (unat n)"
proof -
  have "unat n < 10 ^ 20" using u64_less_wrap [of n] by simp
  then have l: "length (dec_text16 (unat n)) \<le> 20" by (rule length_dec_text16) simp
  have nz: "\<forall>c \<in> set (dec_text16 (unat n)). c \<noteq> 0"
    using dec_text_digits [of "unat n"] by (auto simp: dec_text16_def word_unat_eq_iff unsigned_ucast_eq take_bit_nat_eq_self)
  have "takeWhile (\<lambda>c. c \<noteq> 0) (dec_text16 (unat n) @ [0] @ rest) = dec_text16 (unat n)" for rest
    using nz by (simp add: takeWhile_append2)
  then show ?thesis
    using decimalConvert_text [of n buf_size "local_array junk len"] l assms by (simp add: local_array_def)
qed

lemma decimalConvert_defined [simp]:
  "20 < len \<Longrightarrow> 20 < unat buf_size \<Longrightarrow> (decimalConvert n (local_array junk len) buf_size = None) = False"
  using print_decimal_text [of len buf_size n junk] by auto

lemma printGOPStats_defined: "printGOPStats junk version info out \<noteq> None"
  by (auto simp: printGOPStats_def Let_def split: Option.bind_splits)

lemma ascii_loop_defined:
  "0 \<in> set (drop (unat i) src) \<Longrightarrow> unat max_len \<le> length dst \<Longrightarrow> i < max_len \<Longrightarrow> ascii_loop src i max_len dst \<noteq> None"
proof (induction src i max_len dst rule: ascii_loop.induct)
  case (1 src i max_len dst)
  have len: "unat i < length dst" using 1(3,4) by (simp add: word_less_nat_alt)
  have src: "\<not> length src \<le> unat i" using 1(2) by auto
  show ?case
  proof (cases "i < max_len - 1 \<and> src ! unat i \<noteq> 0")
    case False
    then show ?thesis using len src by (subst ascii_loop.simps) auto
  next
    case True
    then have up: "unat (i + 1) = unat i + 1" using counter_distance(1) by blast
    have "drop (unat i) src = src ! unat i # drop (unat i + 1) src" using src by (simp add: Cons_nth_drop_Suc)
    then have "0 \<in> set (drop (unat (i + 1)) src)" using 1(2) True up by auto
    moreover have "i + 1 < max_len" using True up 1(4) by (auto simp: word_less_nat_alt unat_sub_if_size word_le_nat_alt)
    ultimately have "ascii_loop src (i + 1) max_len (dst[unat i := scast (src ! unat i)]) \<noteq> None"
      using 1(1) True src len 1(3) by simp
    then show ?thesis using True src len by (subst ascii_loop.simps) simp
  qed
qed

lemma cpu_report_defined: "cpu_report junk cpuid out \<noteq> None"
proof -
  have "0 \<in> set (get_cpu_brand cpuid)" by (simp add: get_cpu_brand_def)
  then show ?thesis
    using ascii_loop_defined [of 0 "get_cpu_brand cpuid" 64 "local_array junk 64"]
    by (simp add: cpu_report_def ascii_to_char16_def local_array_def Let_def del: not_None_eq)
qed

lemma vendor_name_defined [simp]:
  "(ascii_to_char16 (name @ [0]) (local_array junk 32) 32 = None) = False"
  using ascii_loop_defined [of 0 "name @ [0]" 32 "local_array junk 32"]
  by (simp add: ascii_to_char16_def local_array_def)

lemma pci_report_defined: "pci_report junk d out \<noteq> None"
  by (auto simp: pci_report_def print_decimal_def Let_def simp del: not_None_eq split: prod.splits if_splits Option.bind_splits)

lemma pci_scan_defined: "pci_scan junk ds out \<noteq> None"
  by (induction ds arbitrary: out) (auto simp: pci_report_defined split: Option.bind_splits)

text \<open>The number of an unknown vendor is printed in decimal digits after \<open>0x\<close>.\<close>

lemma pci_unknown_decimal:
  "pci_report (\<lambda>_. 0) \<lparr>pci_status = 0, pci_vendor = (0, 0x1AE0), pci_class = (0, 0x03000000)\<rparr> [] =
     Some [L ''Found device: '', L ''Unknown'', L '' 0x'', L ''6880'', CRLF]"
  by code_simp

section \<open>The graphics outputs\<close>

text \<open>One output: the status of its protocol, its active mode and its framebuffer.\<close>

record gpu_device =
  gpu_status :: EFI_STATUS
  gpu_info :: mode_info
  gpu_base :: u64
  gpu_size :: u64

text \<open>All numbers but the first go through one array of 16 characters.\<close>

definition gpu_report :: "(nat \<Rightarrow> u16) \<Rightarrow> u64 \<Rightarrow> gpu_device \<Rightarrow> u16str list \<Rightarrow> u16str list option" where
  "gpu_report junk i d out =
     (if EFI_ERROR (gpu_status d) then Some out
      else
        Option.bind (print_decimal junk 32 32 i (uefi_print (CRLF @ L ''GPU '') out)) (\<lambda>out.
        let out = uefi_print (L ''GPU resolution: '') (uefi_println [] out)
        in Option.bind (decimalConvert (ucast (HorizontalResolution (gpu_info d))) (local_array junk 16) 16) (\<lambda>buf.
        let out = uefi_print (L ''x'') (uefi_print buf out)
        in Option.bind (decimalConvert (ucast (VerticalResolution (gpu_info d))) buf 16) (\<lambda>buf.
        let out = uefi_print (L '', Pixels per scanline: '') (uefi_print buf out)
        in Option.bind (decimalConvert (ucast (PixelsPerScanLine (gpu_info d))) buf 16) (\<lambda>buf.
        let out = uefi_print (L ''Framebuffer base: 0x'') (uefi_print CRLF (uefi_print buf out))
        in Option.bind (decimalConvert (gpu_base d) buf 16) (\<lambda>buf.
        let out = uefi_print (L '', Size: '') (uefi_print buf out)
        in Option.bind (decimalConvert (gpu_size d) buf 16) (\<lambda>buf.
           Some (uefi_println CRLF (uefi_print buf out)))))))))"

fun gpu_list :: "(nat \<Rightarrow> u16) \<Rightarrow> u64 \<Rightarrow> gpu_device list \<Rightarrow> u16str list \<Rightarrow> u16str list option" where
  "gpu_list junk i [] out = Some out"
| "gpu_list junk i (d # ds) out = Option.bind (gpu_report junk i d out) (gpu_list junk (i + 1) ds)"

text \<open>The number of outputs goes through an array of 8 characters.\<close>

definition gpu_section :: "(nat \<Rightarrow> u16) \<Rightarrow> gpu_device list \<Rightarrow> u16str list \<Rightarrow> u16str list option" where
  "gpu_section junk ds out =
     Option.bind (print_decimal junk 8 8 (word_of_nat (length ds)) (uefi_print (L ''[*] GPU (GOP) devices found: '') out)) (\<lambda>out.
       gpu_list junk 0 ds (uefi_println (L ''[+] Identifing GPU'' @ [39] @ L ''s...'') (uefi_println [] out)))"

text \<open>A number that is too long for the array is cut, and nothing is stored outside of it.\<close>

lemma decimal_loop_total:
  "unat pos < unat buf_size \<Longrightarrow> unat buf_size \<le> length buf \<Longrightarrow>
   \<exists>pos' buf'. decimal_loop n pos buf_size buf = Some (pos', buf') \<and> unat pos' < unat buf_size \<and> length buf' = length buf"
proof (induction n pos buf_size buf rule: decimal_loop.induct)
  case (1 n pos buf_size buf)
  show ?case
  proof (cases "buf_size - 1 \<le> pos")
    case True
    then show ?thesis using 1(2) by (subst decimal_loop.simps) simp
  next
    case False
    then have "unat pos < unat buf_size - 1" using 1(2) by (simp add: word_le_nat_alt unat_sub_if_size)
    then have up: "unat (pos + 1) < unat buf_size" using u64_less_wrap [of buf_size] by simp
    have len: "\<not> length buf \<le> unat pos" using 1(2,3) by linarith
    show ?thesis
    proof (cases "n div 10 = 0")
      case True
      then show ?thesis using False len up by (subst decimal_loop.simps) (simp add: Let_def)
    next
      case more: False
      have "\<exists>pos' buf'. decimal_loop (n div 10) (pos + 1) buf_size (buf[unat pos := 48 + ucast (n mod 10)]) = Some (pos', buf') \<and>
          unat pos' < unat buf_size \<and> length buf' = length (buf[unat pos := 48 + ucast (n mod 10) :: u16])"
        by (rule 1(1) [OF False len refl refl more up]) (use 1(3) in simp)
      then show ?thesis using False len more by (subst decimal_loop.simps) (simp add: Let_def)
    qed
  qed
qed

lemma length_reverse_prefix [simp]: "length (reverse_prefix pos buf) = length buf"
  unfolding reverse_prefix_def by (rule for_u64_frame) (simp add: Let_def)

lemma decimalConvert_total:
  assumes "unat buf_size \<le> length buf"
  shows "\<exists>buf'. decimalConvert n buf buf_size = Some buf' \<and> length buf' = length buf"
proof (cases "buf_size = 0")
  case False
  then have "unat (0 :: u64) < unat buf_size" by (simp add: word_neq_0_conv word_less_nat_alt)
  from decimal_loop_total [OF this assms, of n] False assms show ?thesis
    by (auto simp: decimalConvert_def not_le)
qed (simp add: decimalConvert_def)

lemma gpu_list_defined: "gpu_list junk i ds out \<noteq> None"
proof (induction ds arbitrary: i out)
  case (Cons d ds)
  have dec: "\<exists>b. decimalConvert n buf 16 = Some b \<and> length b = 16" if "length buf = 16" for n buf
    using decimalConvert_total [of 16 buf n] that by simp
  have "gpu_report junk i d out \<noteq> None"
  proof (cases "EFI_ERROR (gpu_status d)")
    case False
    obtain b1 where b1: "decimalConvert (ucast (HorizontalResolution (gpu_info d))) (local_array junk 16) 16 = Some b1" "length b1 = 16"
      using dec [of "local_array junk 16"] by (auto simp: local_array_def)
    obtain b2 where b2: "decimalConvert (ucast (VerticalResolution (gpu_info d))) b1 16 = Some b2" "length b2 = 16"
      using dec [OF b1(2)] by blast
    obtain b3 where b3: "decimalConvert (ucast (PixelsPerScanLine (gpu_info d))) b2 16 = Some b3" "length b3 = 16"
      using dec [OF b2(2)] by blast
    obtain b4 where b4: "decimalConvert (gpu_base d) b3 16 = Some b4" "length b4 = 16"
      using dec [OF b3(2)] by blast
    obtain b5 where b5: "decimalConvert (gpu_size d) b4 16 = Some b5" "length b5 = 16"
      using dec [OF b4(2)] by blast
    obtain c where c: "decimalConvert i (local_array junk 32) 32 = Some c"
      using decimalConvert_total [of 32 "local_array junk 32" i] by (auto simp: local_array_def)
    show ?thesis using False by (simp add: gpu_report_def print_decimal_def b1 b2 b3 b4 b5 c)
  qed (simp add: gpu_report_def)
  then show ?case using Cons by auto
qed simp

lemma gpu_section_defined: "gpu_section junk ds out \<noteq> None"
  using decimalConvert_total [of 8 "local_array junk 8" "word_of_nat (length ds)"] gpu_list_defined
  by (auto simp: gpu_section_def print_decimal_def local_array_def)

end
