(* ===== verification/Spec2Isabelle.thy ===== *)
theory Spec2Isabelle
  imports Pmm Vmm Vmm_Init Vmm_Props Str Graphics Terminal Stdio Kmalloc Fs Cpio Cpu Syscalls Thread Grs Kernel
    Boot_Map Boot_Load Boot_Screen Boot_File Boot_Handoff Boot_Text Boot_Console
begin

text \<open>
  Verification of ArchaOS: a UEFI boot loader (\<open>src/bootloader\<close>) and a 64-bit kernel
  (\<open>src/kernel\<close>) written in C.

  The program and its parts. The boot loader \<open>efi_main\<close> reports on the machine, builds page tables
  that map the first 512 GiB to themselves, reads \<open>kernel.elf\<close> and the ramdisk from the boot
  volume, places the segments of the kernel, sets a graphics mode, draws a logo, fills the block
  \<open>BootInfo\<close> of \<open>common/fromboot.h\<close>, leaves the boot services, loads the page tables
  and calls the kernel. \<open>kernel_main\<close> checks the block, sets up drawing and printing, fills the
  processor tables, builds the physical and the virtual memory managers from the memory map, sets up interrupts,
  clock and system calls, the heap, and the file system with the files of the ramdisk, and starts a demo. The
  heap takes pages from the virtual memory manager, which takes frames from the physical one; the file system
  takes memory from the heap; printing draws glyphs with the drawing routines and sends the same characters to
  the serial port.

  Conventions. A C integer is a word of its width, so arithmetic wraps as on the machine; \<open>int\<close>
  coordinates of the line algorithm are integers, as their overflow is undefined. Static variables are the
  fields of a record per component, and records extend each other where components share state
  (\<open>gfx\<close>, \<open>tty\<close>). Memory is a function from addresses, per component to bytes, to
  64-bit words or to pixels. \<open>kernel_panic\<close> and page faults, which halt the machine, are the left
  side of the type \<open>result\<close>; a loop that may not end is a \<open>partial_function\<close> with the
  value \<open>None\<close> when it does not, and theorems about it state that it returns. A counting loop is
  \<open>for_u64\<close>, \<open>for_u32\<close> or a fold over its indices, with no fuel; where a loop counts
  towards a bound that its body may change, its \<open>termination\<close> proof gives the measure. What is not
  under \<open>src\<close>, the firmware and the devices, is an argument: the statuses and addresses UEFI
  services answer, the bytes they store, what ports and model specific registers return, what clock and
  interrupts do. What the code relies on is a named hypothesis (\<open>page_laws\<close>,
  \<open>memory_laws\<close>, \<open>pool_laws\<close>), with an instance in the witness.

  The theories, in the order of the imports.

  \<open>Prelude\<close>: word types, \<open>result\<close>, \<open>BootInfo\<close>, counting loops with their
  invariant rules, lemmas on words and bits.

  \<open>Pmm\<close> (\<open>mm/pmm.c\<close>): the bitmap of page frames. The free-page counter is the number
  of clear bits in every reachable state; \<open>palloc\<close> takes the lowest free page, \<open>pfree\<close>
  undoes it, runs of allocations never hand out a frame twice, and \<open>init_pmm\<close> frees exactly the
  conventional memory less page 0 and the bitmap. The locale \<open>frame_allocator\<close> is the contract the
  page tables rely on; its interpretation \<open>pages\<close> discharges it for \<open>palloc\<close> and
  \<open>pfree\<close>.

  \<open>Vmm\<close>, \<open>Vmm_Init\<close>, \<open>Vmm_Props\<close> (\<open>mm/vmm.c\<close>): four-level
  page tables, the walk of the processor, \<open>map_page\<close>, \<open>unmap_page\<close>,
  \<open>vallocs\<close>, \<open>vfrees\<close>, \<open>map_range\<close> and \<open>init_vmm\<close>. The
  tables stay a tree of distinct used frames (\<open>pt_tree\<close>); each operation changes the translation of
  exactly its pages; \<open>vallocs\<close> maps everything or nothing; \<open>map_range\<close> and
  \<open>init_vmm\<close> refine the abstract override of ranges. 2 to the 48 bytes bound the ranges, as the
  walk looks at 48 bits.

  \<open>Str\<close> (\<open>lib/string.c\<close>): copying, filling, comparing and searching over a byte
  memory, against lists of bytes.

  \<open>Graphics\<close> (\<open>graphics/graphics.c\<close>, \<open>common/fonts/cozette.h\<close>),
  \<open>Terminal\<close> (\<open>graphics/terminal.c\<close>), \<open>Stdio\<close>
  (\<open>lib/stdio.c\<close>): pixels, rectangles and lines, the terminal with its scrolling, and formatted
  printing. Nothing is drawn outside the framebuffer; the locale \<open>plotter\<close> is the contract of a
  pixel routine, interpreted for both of them (\<open>screen\<close>, \<open>offscreen\<close>). Printing a
  format made of its conversions emits exactly their texts, and numbers read back.

  \<open>Kmalloc\<close> (\<open>lib/kmalloc.c\<close>): the heap as words in mapped memory. Chunk headers
  always describe a list of blocks; \<open>kmalloc\<close> refines first fit on this list and
  \<open>kfree\<close> merges on it, and no data of a block in use change. The locale \<open>page_source\<close>
  is what it needs of \<open>vallocs\<close>; its interpretation is \<open>heap_pages\<close>.

  \<open>Fs\<close> (\<open>fs/fs.c\<close>) and \<open>Cpio\<close> (\<open>fs/drivers/initramfs.c\<close>):
  the tree of files behind linked nodes, and the archive parser that fills it. Paths resolve as on the tree,
  creating and deleting keep it a tree and leak nothing; the parser ends on all disks and undoes the encoding of
  an archive.

  \<open>Cpu\<close> (\<open>cpu\<close>, \<open>interrupts\<close>, \<open>timer\<close>),
  \<open>Syscalls\<close> (\<open>syscalls/syscalls.c\<close>), \<open>Thread\<close>
  (\<open>thread/thread.c\<close>), \<open>Grs\<close> (\<open>grs/grs.c\<close>): descriptor tables and gates
  as the processor decodes them, interrupt controllers by their data sheet, the system call table and its
  dispatcher, the first context of a thread, and the registry.

  \<open>Kernel\<close> (\<open>arch/x86_64/init.c\<close>, \<open>startup.c\<close>, \<open>errs\<close>): the
  composition of the above in \<open>kernel_main\<close>, with properties that span them: the outcome of the
  self test of the page allocator, and the tables after \<open>init_cpu\<close>.

  \<open>Boot_Map\<close> (\<open>bootloader/uefi.c\<close>): the page tables of the boot loader. The tree of
  \<open>Vmm\<close> is used for the tables of 4 KiB pages, while the page directories of the identity map are
  an invariant of their own (\<open>handoff_inv\<close>). Everything below 512 GiB and everything handed over is
  mapped to itself.

  \<open>Boot_Load\<close> (\<open>bootloader/elf.h\<close>, \<open>uefi.c\<close>): the ELF loader over a byte
  memory; it refines a fold over the program headers (\<open>place_segment\<close>), from which the contents of
  every byte and the bounds of the kernel follow. \<open>Boot_Screen\<close>: graphics mode, background, logo.
  \<open>Boot_File\<close>: \<open>load_file\<close>, whose calls to the firmware are balanced on every path.
  \<open>Boot_Handoff\<close>: \<open>BootInfo\<close>, memory map and exit, up to the checks of
  \<open>kernel_main\<close>. \<open>Boot_Text\<close> and \<open>Boot_Console\<close>: strings, numbers, names
  and the reports built of them, none of which overruns its arrays.

  Where the code does not do what it means to, the model follows the code, and a lemma shows what happens: among
  others the dispatcher of system calls, the registry, the panic screen, masking the interrupt controllers, the
  pixel format handed over without a monitor description, and \<open>kfree\<close> between two free neighbours.

  Not modelled. The demo (\<open>kernel_apps/demo.c\<close>), a wire-frame animation in floating-point numbers.
  The bytes of font and logo (\<open>cozette_hlp.c\<close>, \<open>common/logo.h\<close>), which are arguments.
  Assembly entry code, except \<open>restore_context\<close>. The translation lookaside buffer and other caches.
  Port instructions of \<open>io.h\<close> that nothing calls. In the kernel the messages printed between the
  steps; in the boot loader the progress messages, the refresh rate and waiting for a key. The firmware's
  interface \<open>bootloader/efi.h\<close> beyond the types and macros used. Code that is commented out, and
  the folders \<open>playground\<close> and \<open>drivers\<close>, which hold no code of the system.
\<close>

end
